(* ===== verification/Prelude.thy ===== *)
theory Prelude
  imports Main "HOL-Library.Word"
begin

text \<open>
  Shared material of the development: the machine-integer types of the C++ sources, the
  outcome type of code that can fail or loop, the collections of facts the components add
  to, and the generic lemmas on words, lists and maps the component theories use.

  A C++ operation is modelled as a HOL function. Code that can abort the process (an
  exception leaving a \<open>noexcept\<close> function), touch memory it must not touch, or loop forever
  returns a \<open>run\<close>: \<open>None\<close> is "does not return", \<open>Some (Inl f)\<close> is "stops with the fault
  \<open>f\<close>", \<open>Some (Inr x)\<close> is "returns \<open>x\<close>".
\<close>

section \<open>Machine integers\<close>

type_synonym u8 = "8 word"
type_synonym u16 = "16 word"
type_synonym u32 = "32 word"
type_synonym u64 = "64 word"

text \<open>An \<open>int64_t\<close> has the same 64 bits as a \<open>uint64_t\<close>; it is read with \<^const>\<open>sint\<close>.\<close>

type_synonym s64 = "64 word"
type_synonym s32 = "32 word"

text \<open>Addresses of objects that live in a pool: the index of the slot that holds them.
  A C++ pointer to such an object is an \<open>addr option\<close>, \<open>None\<close> being \<open>nullptr\<close>.\<close>

type_synonym addr = nat

section \<open>Outcomes\<close>

datatype fault =
    BadAlloc        \<comment> \<open>\<open>std::bad_alloc\<close> leaves a \<open>noexcept\<close> function: \<open>std::terminate\<close>\<close>
  | NullDeref       \<comment> \<open>a null pointer is dereferenced\<close>
  | DanglingDeref   \<comment> \<open>a pointer to a destroyed object is dereferenced\<close>
  | AssertFailed    \<comment> \<open>an \<open>assert\<close> of the source does not hold\<close>
  | OutOfBounds     \<comment> \<open>an array is accessed past its end\<close>

type_synonym 'a run = "(fault + 'a) option"

named_theorems run_simps "evaluation of outcomes"
named_theorems heap_simps "reads and writes of the modelled memory"
named_theorems rep_simps "unfolding of representation predicates"

definition ret :: "'a \<Rightarrow> 'a run" where
  "ret x = Some (Inr x)"

definition fail :: "fault \<Rightarrow> 'a run" where
  "fail e = Some (Inl e)"

definition bind_run :: "'a run \<Rightarrow> ('a \<Rightarrow> 'b run) \<Rightarrow> 'b run" where
  "bind_run m f = Option.bind m (\<lambda>r. case r of Inl e \<Rightarrow> Some (Inl e) | Inr x \<Rightarrow> f x)"

lemma bind_run_ret [simp, run_simps]: "bind_run (ret x) f = f x"
  by (simp add: bind_run_def ret_def)

lemma bind_run_fail [simp, run_simps]: "bind_run (fail e) f = fail e"
  by (simp add: bind_run_def fail_def)

lemma bind_run_ret_right [simp]: "bind_run m ret = m"
  by (cases m) (auto simp: bind_run_def ret_def split: sum.splits)

lemma bind_run_assoc: "bind_run (bind_run m f) g = bind_run m (\<lambda>x. bind_run (f x) g)"
  by (cases m) (auto simp: bind_run_def split: sum.splits)

lemma ret_inject [simp]: "ret x = ret y \<longleftrightarrow> x = y"
  by (simp add: ret_def)

lemma ret_neq_fail [simp]: "ret x \<noteq> fail e" "fail e \<noteq> ret x"
  by (simp_all add: ret_def fail_def)

lemma ret_neq_None [simp]: "ret x \<noteq> None" "None \<noteq> ret x"
  by (simp_all add: ret_def)

lemma bind_run_eq_ret:
  "bind_run m f = ret y \<longleftrightarrow> (\<exists>x. m = ret x \<and> f x = ret y)"
  by (cases m) (auto simp: bind_run_def ret_def split: sum.splits)

lemma bind_run_weak_cong [cong]: "m = m' \<Longrightarrow> bind_run m f = bind_run m' f"
  by simp

text \<open>Loops over outcomes are \<open>partial_function (option)\<close>: \<^const>\<open>bind_run\<close> is monotone.\<close>

lemma bind_run_mono [partial_function_mono]:
  assumes "mono_option B" and "\<And>y. mono_option (\<lambda>f. C y f)"
  shows "mono_option (\<lambda>f. bind_run (B f) (\<lambda>y. C y f))"
proof -
  have "mono_option (\<lambda>f. case r of Inl e \<Rightarrow> Some (Inl e) | Inr x \<Rightarrow> C x f)" for r
    using assms(2) by (cases r) (auto intro: option.const_mono)
  then show ?thesis
    unfolding bind_run_def by (intro bind_mono assms(1))
qed

section \<open>Words\<close>

lemma sint_eq_iff: "sint (a :: 'a::len word) = sint b \<longleftrightarrow> a = b"
  by (metis uint_sint word_uint_eq_iff)

section \<open>Numbers\<close>

lemma mod_eq_near:
  assumes "m \<le> n" and "n < m + c" and "m mod c = n mod (c :: nat)"
  shows "m = n"
proof -
  have "c dvd n - m"
    using assms(1,3) by (metis mod_eq_dvd_iff_nat)
  moreover have "n - m < c"
    using assms(1,2) by simp
  ultimately have "n - m = 0"
    using nat_dvd_not_less by blast
  then show ?thesis
    using assms(1) by simp
qed

section \<open>Lists and maps\<close>

lemma butlast_upt [simp]: "butlast [0..<n] = [0..<n - 1]"
  by (cases n) simp_all

lemma map_of_eq_None_iff_fst: "map_of xs k = None \<longleftrightarrow> k \<notin> fst ` set xs"
  by (simp add: map_of_eq_None_iff)

lemma split_list_pair:
  assumes "(a, b) \<in> set xs"
  obtains ys zs where "xs = ys @ (a, b) # zs"
  using split_list [OF assms] by blast

end
