(* ===== verification/Domain.thy ===== *)
theory Domain
  imports Prelude
begin

unbundle bit_operations_syntax

text \<open>
  The value objects of \<open>domain/include/domain\<close>: strong identifiers, fixed-point prices and
  quantities, the enumerations, the client order and its in-book view, trades, fills and
  executions, and the field validators. Prices are ordered as signed and quantities as
  unsigned 64-bit integers; quantity arithmetic wraps, so quantities form an abelian group.
\<close>

section \<open>Strong identifiers\<close>

text \<open>\<open>StrongId<Tag, Underlying>\<close>: the tag is a phantom type, so that identifiers of
  different kinds cannot be mixed up.\<close>

datatype ('tag, 'u) strong_id = StrongId (get_id: 'u)

datatype order_id_tag = OrderIdTag
datatype trade_id_tag = TradeIdTag
datatype execution_id_tag = ExecutionIdTag
datatype fill_id_tag = FillIdTag
datatype client_id_tag = ClientIdTag
datatype account_id_tag = AccountIdTag
datatype symbol_id_tag = SymbolIdTag

type_synonym order_id = "(order_id_tag, u64) strong_id"
type_synonym trade_id = "(trade_id_tag, u64) strong_id"
type_synonym execution_id = "(execution_id_tag, u64) strong_id"
type_synonym fill_id = "(fill_id_tag, u64) strong_id"
type_synonym client_id = "(client_id_tag, u32) strong_id"
type_synonym account_id = "(account_id_tag, u32) strong_id"
type_synonym symbol_id = "(symbol_id_tag, u32) strong_id"

definition strong_id_less_eq :: "('a, 'b :: linorder) strong_id \<Rightarrow> ('a, 'b) strong_id \<Rightarrow> bool" where [simp]:
  "strong_id_less_eq a b \<longleftrightarrow> get_id a \<le> get_id b"

definition strong_id_less :: "('a, 'b :: linorder) strong_id \<Rightarrow> ('a, 'b) strong_id \<Rightarrow> bool" where [simp]:
  "strong_id_less a b \<longleftrightarrow> get_id a < get_id b"

instantiation strong_id :: (type, linorder) linorder
begin

definition less_eq_strong_id :: "('a, 'b) strong_id \<Rightarrow> ('a, 'b) strong_id \<Rightarrow> bool" where
  "a \<le> b \<longleftrightarrow> strong_id_less_eq a b"

definition less_strong_id :: "('a, 'b) strong_id \<Rightarrow> ('a, 'b) strong_id \<Rightarrow> bool" where
  "a < b \<longleftrightarrow> strong_id_less a b"

instance
  by standard (auto simp: less_eq_strong_id_def less_strong_id_def strong_id.expand)

end

datatype order_key = OrderKey (key_symbol_id: symbol_id) (key_order_id: order_id)

text \<open>\<open>OrderKey::operator<\<close>: by symbol first, by order within a symbol.\<close>

definition order_key_less :: "order_key \<Rightarrow> order_key \<Rightarrow> bool" where [simp]:
  "order_key_less a b \<longleftrightarrow>
     (if key_symbol_id a \<noteq> key_symbol_id b then key_symbol_id a < key_symbol_id b
      else key_order_id a < key_order_id b)"

instantiation order_key :: linorder
begin

definition less_order_key :: "order_key \<Rightarrow> order_key \<Rightarrow> bool" where
  "a < b \<longleftrightarrow> order_key_less a b"

definition less_eq_order_key :: "order_key \<Rightarrow> order_key \<Rightarrow> bool" where
  "(a::order_key) \<le> b \<longleftrightarrow> a < b \<or> a = b"

instance
proof
  fix a b c :: order_key
  show "(a < b) = (a \<le> b \<and> \<not> b \<le> a)"
    by (auto simp: less_eq_order_key_def less_order_key_def split: if_splits)
  show "a \<le> a"
    by (simp add: less_eq_order_key_def)
  show "a \<le> b \<Longrightarrow> b \<le> c \<Longrightarrow> a \<le> c"
    by (auto simp: less_eq_order_key_def less_order_key_def split: if_splits)
  show "a \<le> b \<Longrightarrow> b \<le> a \<Longrightarrow> a = b"
    by (auto simp: less_eq_order_key_def less_order_key_def split: if_splits)
  show "a \<le> b \<or> b \<le> a"
    by (cases a; cases b) (auto simp: less_eq_order_key_def less_order_key_def neq_iff)
qed

end

section \<open>Prices and quantities\<close>

datatype price = Price (ticks: s64)

definition price_SCALE :: int where
  "price_SCALE = 100000000"

text \<open>The operators of \<open>Price\<close>; the type classes below give them their usual notation.\<close>

definition price_less_eq :: "price \<Rightarrow> price \<Rightarrow> bool" where [simp]:
  "price_less_eq p q \<longleftrightarrow> sint (ticks p) \<le> sint (ticks q)"

definition price_less :: "price \<Rightarrow> price \<Rightarrow> bool" where [simp]:
  "price_less p q \<longleftrightarrow> sint (ticks p) < sint (ticks q)"

definition price_plus :: "price \<Rightarrow> price \<Rightarrow> price" where [simp]:
  "price_plus p q = Price (ticks p + ticks q)"

definition price_minus :: "price \<Rightarrow> price \<Rightarrow> price" where [simp]:
  "price_minus p q = Price (ticks p - ticks q)"

instantiation price :: linorder
begin

definition less_eq_price :: "price \<Rightarrow> price \<Rightarrow> bool" where
  "p \<le> q \<longleftrightarrow> price_less_eq p q"

definition less_price :: "price \<Rightarrow> price \<Rightarrow> bool" where
  "p < q \<longleftrightarrow> price_less p q"

instance
  by standard (auto simp: less_eq_price_def less_price_def sint_eq_iff price.expand)

end

instantiation price :: "{plus, minus, zero}"
begin

definition plus_price :: "price \<Rightarrow> price \<Rightarrow> price" where
  "p + q = price_plus p q"

definition minus_price :: "price \<Rightarrow> price \<Rightarrow> price" where
  "p - q = price_minus p q"

definition zero_price :: price where
  "0 = Price 0"

instance ..

end

datatype quantity = Quantity (units: u64)

definition quantity_SCALE :: nat where
  "quantity_SCALE = 1000000"

text \<open>The operators of \<open>Quantity\<close>; the type classes below give them their usual notation.\<close>

definition quantity_less_eq :: "quantity \<Rightarrow> quantity \<Rightarrow> bool" where [simp]:
  "quantity_less_eq p q \<longleftrightarrow> units p \<le> units q"

definition quantity_less :: "quantity \<Rightarrow> quantity \<Rightarrow> bool" where [simp]:
  "quantity_less p q \<longleftrightarrow> units p < units q"

definition quantity_plus :: "quantity \<Rightarrow> quantity \<Rightarrow> quantity" where [simp]:
  "quantity_plus p q = Quantity (units p + units q)"

definition quantity_minus :: "quantity \<Rightarrow> quantity \<Rightarrow> quantity" where [simp]:
  "quantity_minus p q = Quantity (units p - units q)"

instantiation quantity :: linorder
begin

definition less_eq_quantity :: "quantity \<Rightarrow> quantity \<Rightarrow> bool" where
  "p \<le> q \<longleftrightarrow> quantity_less_eq p q"

definition less_quantity :: "quantity \<Rightarrow> quantity \<Rightarrow> bool" where
  "p < q \<longleftrightarrow> quantity_less p q"

instance
  by standard (auto simp: less_eq_quantity_def less_quantity_def quantity.expand)

end

instantiation quantity :: ab_group_add
begin

definition zero_quantity :: quantity where
  "0 = Quantity 0"

definition plus_quantity :: "quantity \<Rightarrow> quantity \<Rightarrow> quantity" where
  "p + q = quantity_plus p q"

definition minus_quantity :: "quantity \<Rightarrow> quantity \<Rightarrow> quantity" where
  "p - q = quantity_minus p q"

definition uminus_quantity :: "quantity \<Rightarrow> quantity" where
  "- p = Quantity (- units p)"

instance
  by standard
    (simp_all add: zero_quantity_def plus_quantity_def minus_quantity_def uminus_quantity_def
      ac_simps)

end

lemma units_zero [simp]: "units 0 = 0"
  by (simp add: zero_quantity_def)

lemma units_plus [simp]: "units (p + q) = units p + units q"
  by (simp add: plus_quantity_def)

lemma units_minus [simp]: "units (p - q) = units p - units q"
  by (simp add: minus_quantity_def)

lemma quantity_eq_0_iff: "q = 0 \<longleftrightarrow> units q = 0"
  by (cases q) (simp add: zero_quantity_def)

lemma quantity_zero_least [simp]: "(0::quantity) \<le> q"
  by (simp add: less_eq_quantity_def)

lemma unat_units_minus:
  "p \<le> q \<Longrightarrow> unat (units (q - p)) = unat (units q) - unat (units p)"
  by (simp add: less_eq_quantity_def unat_sub)

section \<open>Enumerations\<close>

text \<open>
  An \<open>enum class\<close> with a fixed underlying type can hold any value of that type. The
  enumerations that are read from the wire or from a file (\<open>Side\<close>, \<open>OrderType\<close>,
  \<open>TimeInForce\<close>) therefore have one constructor for values without an enumerator.
\<close>

datatype side = Buy | Sell | Side_unnamed u8

definition side_of_code :: "u8 \<Rightarrow> side" where
  "side_of_code c = (if c = 1 then Buy else if c = 2 then Sell else Side_unnamed c)"

fun side_code :: "side \<Rightarrow> u8" where
  "side_code Buy = 1"
| "side_code Sell = 2"
| "side_code (Side_unnamed c) = c"

datatype order_type = Limit | Market | Stop | OrderType_unnamed u8

definition order_type_of_code :: "u8 \<Rightarrow> order_type" where
  "order_type_of_code c =
     (if c = 1 then Limit else if c = 2 then Market else if c = 3 then Stop
      else OrderType_unnamed c)"

fun order_type_code :: "order_type \<Rightarrow> u8" where
  "order_type_code Limit = 1"
| "order_type_code Market = 2"
| "order_type_code Stop = 3"
| "order_type_code (OrderType_unnamed c) = c"

datatype time_in_force = GTC | IOC | FOK | TimeInForce_unnamed u8

definition tif_of_code :: "u8 \<Rightarrow> time_in_force" where
  "tif_of_code c =
     (if c = 1 then GTC else if c = 2 then IOC else if c = 3 then FOK
      else TimeInForce_unnamed c)"

fun tif_code :: "time_in_force \<Rightarrow> u8" where
  "tif_code GTC = 1"
| "tif_code IOC = 2"
| "tif_code FOK = 3"
| "tif_code (TimeInForce_unnamed c) = c"

datatype execution_type = ExecNew | ExecTrade | ExecCancel | ExecReject

fun execution_type_code :: "execution_type \<Rightarrow> u8" where
  "execution_type_code ExecNew = 1"
| "execution_type_code ExecTrade = 2"
| "execution_type_code ExecCancel = 3"
| "execution_type_code ExecReject = 4"

datatype order_status =
  StatusNew | StatusPartiallyFilled | StatusFilled | StatusCancelled | StatusRejected

datatype reject_reason =
    RejectNone | InvalidPrice | InvalidQuantity | InvalidSymbol | DuplicateOrder
  | OrderNotFound | RiskLimitExceeded

fun reject_reason_code :: "reject_reason \<Rightarrow> u16" where
  "reject_reason_code RejectNone = 0"
| "reject_reason_code InvalidPrice = 1"
| "reject_reason_code InvalidQuantity = 2"
| "reject_reason_code InvalidSymbol = 3"
| "reject_reason_code DuplicateOrder = 4"
| "reject_reason_code OrderNotFound = 5"
| "reject_reason_code RiskLimitExceeded = 6"

text \<open>\<open>OrderFlags\<close> is used as a bit set: any combination of bits is a value.\<close>

datatype order_flags = OrderFlags (flag_bits: u8)

definition flags_None :: order_flags where "flags_None = OrderFlags 0"
definition flags_PostOnly :: order_flags where "flags_PostOnly = OrderFlags (push_bit 0 1)"
definition flags_ReduceOnly :: order_flags where "flags_ReduceOnly = OrderFlags (push_bit 1 1)"

definition flags_or :: "order_flags \<Rightarrow> order_flags \<Rightarrow> order_flags" where
  "flags_or a b = OrderFlags (flag_bits a OR flag_bits b)"

definition flags_and :: "order_flags \<Rightarrow> order_flags \<Rightarrow> order_flags" where
  "flags_and a b = OrderFlags (flag_bits a AND flag_bits b)"

definition has_flag :: "order_flags \<Rightarrow> order_flags \<Rightarrow> bool" where
  "has_flag fs f \<longleftrightarrow> flag_bits fs AND flag_bits f \<noteq> 0"

section \<open>Entities\<close>

record order =
  ord_order_id :: order_id
  ord_price :: price
  ord_qty :: quantity
  ord_seq_num :: u64
  ord_client_timestamp :: u64
  ord_exchange_timestamp :: u64
  ord_client_id :: client_id
  ord_account_id :: account_id
  ord_symbol_id :: symbol_id
  ord_side :: side
  ord_type :: order_type
  ord_tif :: time_in_force
  ord_flags :: order_flags

text \<open>\<open>LiveOrder\<close>: an order resting in the book, with its intrusive list links.\<close>

record live_order =
  lo_key :: order_key
  lo_price :: price
  lo_remaining_qty :: quantity
  lo_priority_seq :: u64
  lo_next :: "addr option"
  lo_prev :: "addr option"

definition live_order_default :: live_order where
  "live_order_default =
     \<lparr>lo_key = OrderKey (StrongId 0) (StrongId 0), lo_price = Price 0,
      lo_remaining_qty = Quantity 0, lo_priority_seq = 0, lo_next = None, lo_prev = None\<rparr>"

record trade =
  tr_trade_id :: trade_id
  tr_buy_order_id :: order_id
  tr_sell_order_id :: order_id
  tr_price :: price
  tr_qty :: quantity
  tr_timestamp :: u64
  tr_symbol_id :: symbol_id

section \<open>Validators\<close>

definition is_valid_price :: "price \<Rightarrow> bool" where
  "is_valid_price p \<longleftrightarrow> 0 < sint (ticks p)"

definition is_valid_quantity :: "quantity \<Rightarrow> bool" where
  "is_valid_quantity q \<longleftrightarrow> 0 < units q"

definition is_valid_side :: "side \<Rightarrow> bool" where
  "is_valid_side s \<longleftrightarrow> s = Buy \<or> s = Sell"

definition is_valid_order_type :: "order_type \<Rightarrow> bool" where
  "is_valid_order_type t \<longleftrightarrow> t = Limit \<or> t = Market \<or> t = Stop"

definition is_valid_time_in_force :: "time_in_force \<Rightarrow> bool" where
  "is_valid_time_in_force t \<longleftrightarrow> t = GTC \<or> t = IOC \<or> t = FOK"

lemma side_code_of_code [simp]: "side_code (side_of_code c) = c"
  by (simp add: side_of_code_def)

lemma order_type_code_of_code [simp]: "order_type_code (order_type_of_code c) = c"
  by (simp add: order_type_of_code_def)

lemma tif_code_of_code [simp]: "tif_code (tif_of_code c) = c"
  by (simp add: tif_of_code_def)

end
