(* ===== verification/Object_Pool.thy ===== *)
theory Object_Pool
  imports Prelude
begin

text \<open>
  \<open>ObjectPool<T, Capacity>\<close> of \<open>common/include/common/object_pool.hpp\<close>: a fixed array of
  slots and the stack of the free ones. The model keeps, for each slot, the object that
  lives there (\<open>None\<close> when no object does), so that reading or destroying a dead object is
  a \<^const>\<open>DanglingDeref\<close> and not an arbitrary value. A pointer is the distance of its slot
  from the start of the storage.
\<close>

section \<open>Model\<close>

record 'a object_pool =
  storage :: "addr \<rightharpoonup> 'a"
  free_list :: "nat list"

text \<open>The constructor pushes \<open>0, 1, \<dots>, Capacity - 1\<close>.\<close>

definition pool_new :: "nat \<Rightarrow> 'a object_pool" where
  "pool_new cap = \<lparr>storage = Map.empty, free_list = [0..<cap]\<rparr>"

text \<open>\<open>allocate(args...)\<close>: \<open>x\<close> is the object that \<open>T(args...)\<close> constructs in the slot.\<close>

definition pool_allocate :: "'a \<Rightarrow> 'a object_pool \<Rightarrow> (addr \<times> 'a object_pool) run" where
  "pool_allocate x p =
     (if free_list p = [] then fail BadAlloc
      else let index = last (free_list p)
           in ret (index, p\<lparr>storage := (storage p)(index \<mapsto> x), free_list := butlast (free_list p)\<rparr>))"

text \<open>\<open>deallocate(ptr)\<close>: null and foreign pointers are ignored; destroying a slot without a
  live object is a fault.\<close>

definition pool_deallocate :: "nat \<Rightarrow> int option \<Rightarrow> 'a object_pool \<Rightarrow> 'a object_pool run" where
  "pool_deallocate cap ptr p =
     (case ptr of
        None \<Rightarrow> ret p
      | Some index \<Rightarrow>
          if index < 0 \<or> int cap \<le> index then ret p
          else if storage p (nat index) = None then fail DanglingDeref
          else ret (p\<lparr>storage := (storage p)(nat index := None),
                      free_list := free_list p @ [nat index]\<rparr>))"

definition pool_available :: "'a object_pool \<Rightarrow> nat" where
  "pool_available p = length (free_list p)"

definition pool_capacity :: "nat \<Rightarrow> 'a object_pool \<Rightarrow> nat" where
  "pool_capacity cap p = cap"

text \<open>Reading and writing an object through its pointer.\<close>

definition deref :: "addr \<Rightarrow> (addr \<rightharpoonup> 'a) \<Rightarrow> 'a run" where
  "deref a h = (case h a of None \<Rightarrow> fail DanglingDeref | Some x \<Rightarrow> ret x)"

definition assign :: "addr \<Rightarrow> ('a \<Rightarrow> 'a) \<Rightarrow> (addr \<rightharpoonup> 'a) \<Rightarrow> (addr \<rightharpoonup> 'a) run" where
  "assign a f h = (case h a of None \<Rightarrow> fail DanglingDeref | Some x \<Rightarrow> ret (h(a \<mapsto> f x)))"

lemma deref_Some [simp, heap_simps]: "h a = Some x \<Longrightarrow> deref a h = ret x"
  by (simp add: deref_def)

lemma deref_None [heap_simps]: "h a = None \<Longrightarrow> deref a h = fail DanglingDeref"
  by (simp add: deref_def)

lemma assign_Some [simp, heap_simps]: "h a = Some x \<Longrightarrow> assign a f h = ret (h(a \<mapsto> f x))"
  by (simp add: assign_def)

lemma assign_None [heap_simps]: "h a = None \<Longrightarrow> assign a f h = fail DanglingDeref"
  by (simp add: assign_def)

section \<open>Well-formedness\<close>

text \<open>The free list names each slot without a live object exactly once.\<close>

definition pool_inv :: "nat \<Rightarrow> 'a object_pool \<Rightarrow> bool" where
  "pool_inv cap p \<longleftrightarrow>
     distinct (free_list p) \<and> set (free_list p) \<inter> dom (storage p) = {} \<and>
     set (free_list p) \<union> dom (storage p) = {..<cap}"

lemma pool_inv_new [simp]: "pool_inv cap (pool_new cap)"
  by (auto simp: pool_inv_def pool_new_def)

lemma pool_inv_dom: "pool_inv cap p \<Longrightarrow> storage p a = Some x \<Longrightarrow> a < cap"
  by (auto simp: pool_inv_def)

lemma pool_inv_finite: "pool_inv cap p \<Longrightarrow> finite (dom (storage p))"
  unfolding pool_inv_def by (metis finite_Un finite_lessThan)

lemma pool_inv_assign:
  "pool_inv cap p \<Longrightarrow> storage p a = Some x \<Longrightarrow> pool_inv cap (p\<lparr>storage := (storage p)(a \<mapsto> y)\<rparr>)"
  by (auto simp: pool_inv_def)

lemma pool_inv_storage:
  "pool_inv cap p \<Longrightarrow> dom h = dom (storage p) \<Longrightarrow> pool_inv cap (p\<lparr>storage := h\<rparr>)"
  by (auto simp: pool_inv_def)

lemma pool_allocate_ok:
  assumes "pool_inv cap p" and "free_list p \<noteq> []"
  obtains a where
    "pool_allocate x p =
       ret (a, p\<lparr>storage := (storage p)(a \<mapsto> x), free_list := butlast (free_list p)\<rparr>)"
    and "storage p a = None" and "a < cap"
    and "pool_inv cap (p\<lparr>storage := (storage p)(a \<mapsto> x), free_list := butlast (free_list p)\<rparr>)"
proof
  let ?a = "last (free_list p)" and ?l = "butlast (free_list p)"
  have snoc: "free_list p = ?l @ [?a]"
    using assms(2) by simp
  have "distinct (?l @ [?a])"
    using assms(1) snoc by (simp add: pool_inv_def)
  then have notin: "?a \<notin> set ?l" and dist: "distinct ?l"
    by auto
  have sets: "set (free_list p) = insert ?a (set ?l)"
    using arg_cong [OF snoc, of set] by simp
  have a: "?a \<in> set (free_list p)"
    using assms(2) by simp
  show "pool_allocate x p =
      ret (?a, p\<lparr>storage := (storage p)(?a \<mapsto> x), free_list := ?l\<rparr>)"
    using assms(2) by (simp add: pool_allocate_def Let_def)
  show "storage p ?a = None"
    using assms(1) a by (auto simp: pool_inv_def)
  show "?a < cap"
    using assms(1) a by (auto simp: pool_inv_def)
  show "pool_inv cap (p\<lparr>storage := (storage p)(?a \<mapsto> x), free_list := ?l\<rparr>)"
    using assms(1) notin dist unfolding pool_inv_def sets by auto
qed

lemma pool_allocate_exhausted: "free_list p = [] \<Longrightarrow> pool_allocate x p = fail BadAlloc"
  by (simp add: pool_allocate_def)

lemma pool_deallocate_live:
  assumes "pool_inv cap p" and "storage p a = Some x"
  shows "pool_deallocate cap (Some (int a)) p =
           ret (p\<lparr>storage := (storage p)(a := None), free_list := free_list p @ [a]\<rparr>)"
    and "pool_inv cap (p\<lparr>storage := (storage p)(a := None), free_list := free_list p @ [a]\<rparr>)"
proof -
  have "a < cap"
    using assms by (rule pool_inv_dom)
  then show "pool_deallocate cap (Some (int a)) p =
      ret (p\<lparr>storage := (storage p)(a := None), free_list := free_list p @ [a]\<rparr>)"
    using assms(2) by (simp add: pool_deallocate_def)
  show "pool_inv cap (p\<lparr>storage := (storage p)(a := None), free_list := free_list p @ [a]\<rparr>)"
    using assms by (auto simp: pool_inv_def)
qed

lemma pool_available_plus_live:
  assumes "pool_inv cap p"
  shows "pool_available p + card (dom (storage p)) = cap"
proof -
  have "card {..<cap} = card (set (free_list p)) + card (dom (storage p))"
    using assms unfolding pool_inv_def
    by (metis card_Un_disjoint finite_Un finite_lessThan)
  then show ?thesis
    using assms by (simp add: pool_inv_def pool_available_def distinct_card)
qed

lemma free_list_nonempty:
  assumes "pool_inv cap p" and "card (dom (storage p)) < cap"
  shows "free_list p \<noteq> []"
  using pool_available_plus_live [OF assms(1)] assms(2) by (auto simp: pool_available_def)

section \<open>The interface the order book relies on\<close>

text \<open>
  The order book sees a pool as a store of live objects: allocation makes a new object
  under an address no live object has, deallocation removes exactly one object, and both
  keep the store well-formed. Allocation can only fail when the store is full.
\<close>

locale object_store =
  fixes alloc :: "'a \<Rightarrow> 'p \<Rightarrow> (addr \<times> 'p) run"
    and dealloc :: "addr \<Rightarrow> 'p \<Rightarrow> 'p run"
    and live :: "'p \<Rightarrow> (addr \<rightharpoonup> 'a)"
    and invar :: "'p \<Rightarrow> bool"
    and room :: "'p \<Rightarrow> nat"
  assumes alloc_fresh:
      "invar p \<Longrightarrow> 0 < room p \<Longrightarrow>
         \<exists>a p'. alloc x p = ret (a, p') \<and> live p a = None \<and> live p' = (live p)(a \<mapsto> x) \<and>
                invar p' \<and> Suc (room p') = room p"
    and alloc_full: "invar p \<Longrightarrow> room p = 0 \<Longrightarrow> alloc x p = fail BadAlloc"
    and dealloc_live:
      "invar p \<Longrightarrow> live p a = Some y \<Longrightarrow>
         \<exists>p'. dealloc a p = ret p' \<and> live p' = (live p)(a := None) \<and> invar p' \<and>
              room p' = Suc (room p)"
begin

lemma alloc_fails_iff: "invar p \<Longrightarrow> alloc x p = fail BadAlloc \<longleftrightarrow> room p = 0"
  using alloc_fresh [of p x] alloc_full [of p x] by (cases "room p = 0") auto

text \<open>An object allocated and destroyed again leaves the store as it was.\<close>

lemma alloc_dealloc_live:
  assumes "invar p" and "alloc x p = ret (a, p1)" and "dealloc a p1 = ret p2"
  shows "live p2 = live p \<and> room p2 = room p"
proof -
  from assms(1,2) have "0 < room p"
    using alloc_full [of p x] by (cases "room p = 0") auto
  with assms(1,2) have "live p a = None" and p1: "live p1 = (live p)(a \<mapsto> x)" "invar p1"
    and room: "Suc (room p1) = room p"
    using alloc_fresh [of p x] by auto
  then have "live p2 = (live p1)(a := None)" and "room p2 = Suc (room p1)"
    using dealloc_live [of p1 a x] assms(3) by auto
  with \<open>live p a = None\<close> p1(1) room show ?thesis
    by auto
qed

text \<open>Two live objects never share an address.\<close>

lemma alloc_alloc_distinct:
  assumes "invar p" and "alloc x p = ret (a, p1)" and "alloc y p1 = ret (b, p2)"
  shows "a \<noteq> b"
proof -
  from assms(1,2) have "0 < room p"
    using alloc_full [of p x] by (cases "room p = 0") auto
  with assms(1,2) have "live p1 a = Some x" and "invar p1"
    using alloc_fresh [of p x] by auto
  moreover from \<open>invar p1\<close> assms(3) have "0 < room p1"
    using alloc_full [of p1 y] by (cases "room p1 = 0") auto
  ultimately show ?thesis
    using alloc_fresh [of p1 y] assms(3) by auto
qed

end

text \<open>\<open>ObjectPool\<close> is such a store, for every capacity.\<close>

interpretation pool: object_store pool_allocate "\<lambda>a. pool_deallocate cap (Some (int a))" storage
  "pool_inv cap" pool_available for cap
proof unfold_locales
  fix p :: "'a object_pool" and x :: 'a
  assume "pool_inv cap p" and "0 < pool_available p"
  then have inv: "pool_inv cap p" and ne: "free_list p \<noteq> []"
    by (auto simp: pool_available_def)
  obtain a where "pool_allocate x p =
      ret (a, p\<lparr>storage := (storage p)(a \<mapsto> x), free_list := butlast (free_list p)\<rparr>)"
    and "storage p a = None"
    and "pool_inv cap (p\<lparr>storage := (storage p)(a \<mapsto> x), free_list := butlast (free_list p)\<rparr>)"
    by (rule pool_allocate_ok [OF inv ne])
  with ne show "\<exists>a p'. pool_allocate x p = ret (a, p') \<and> storage p a = None \<and>
      storage p' = (storage p)(a \<mapsto> x) \<and> pool_inv cap p' \<and>
      Suc (pool_available p') = pool_available p"
    by (intro exI conjI) (auto simp: pool_available_def)
next
  fix p :: "'a object_pool" and x :: 'a
  assume "pool_available p = 0"
  then show "pool_allocate x p = fail BadAlloc"
    by (simp add: pool_available_def pool_allocate_exhausted)
next
  fix p :: "'a object_pool" and a y
  assume "pool_inv cap p" and "storage p a = Some y"
  from pool_deallocate_live [OF this]
  show "\<exists>p'. pool_deallocate cap (Some (int a)) p = ret p' \<and> storage p' = (storage p)(a := None) \<and>
      pool_inv cap p' \<and> pool_available p' = Suc (pool_available p)"
    by (auto simp: pool_available_def)
qed

end
