(* ===== verification/Linked_Heap.thy ===== *)
theory Linked_Heap
  imports Prelude
begin

text \<open>
  Doubly linked chains in the modelled memory. Both the orders of a price level and the
  price levels of a book side are such chains; this theory has what their proofs share.
  \<open>dlseg nx pv h p xs n\<close> says that the objects at the addresses \<open>xs\<close> of the memory \<open>h\<close> are
  linked in this order by the link fields \<open>nx\<close> and \<open>pv\<close>, with \<open>p\<close> before the first and \<open>n\<close>
  after the last.
\<close>

definition front :: "addr list \<Rightarrow> addr option \<Rightarrow> addr option" where
  "front xs n = (case xs of [] \<Rightarrow> n | x # _ \<Rightarrow> Some x)"

definition rear :: "addr option \<Rightarrow> addr list \<Rightarrow> addr option" where
  "rear p xs = (if xs = [] then p else Some (last xs))"

lemma front_simps [simp]:
  "front [] n = n" "front (x # xs) n = Some x" "front (xs @ ys) n = front xs (front ys n)"
  by (simp_all add: front_def split: list.split)

lemma rear_simps [simp]:
  "rear p [] = p" "rear p (x # xs) = rear (Some x) xs" "rear p (xs @ ys) = rear (rear p xs) ys"
  by (simp_all add: rear_def)

lemma front_eq_None [simp]: "front xs None = None \<longleftrightarrow> xs = []"
  by (simp add: front_def split: list.split)

lemma rear_eq_None [simp]: "rear None xs = None \<longleftrightarrow> xs = []"
  by (simp add: rear_def)

fun dlseg :: "('o \<Rightarrow> addr option) \<Rightarrow> ('o \<Rightarrow> addr option) \<Rightarrow> (addr \<rightharpoonup> 'o) \<Rightarrow>
    addr option \<Rightarrow> addr list \<Rightarrow> addr option \<Rightarrow> bool" where
  "dlseg nx pv h p [] n \<longleftrightarrow> True"
| "dlseg nx pv h p (x # xs) n \<longleftrightarrow>
     (\<exists>z. h x = Some z \<and> pv z = p \<and> nx z = front xs n \<and> dlseg nx pv h (Some x) xs n)"

lemma dlseg_append [simp]:
  "dlseg nx pv h p (xs @ ys) n \<longleftrightarrow>
     dlseg nx pv h p xs (front ys n) \<and> dlseg nx pv h (rear p xs) ys n"
  by (induction xs arbitrary: p) auto

lemma dlseg_live: "dlseg nx pv h p xs n \<Longrightarrow> x \<in> set xs \<Longrightarrow> \<exists>z. h x = Some z"
  by (induction xs arbitrary: p) auto

lemma dlseg_subset_dom: "dlseg nx pv h p xs n \<Longrightarrow> set xs \<subseteq> dom h"
  using dlseg_live by fastforce

text \<open>Writes outside the chain, and writes that keep the links, keep the chain.\<close>

lemma dlseg_frame [simp]: "x \<notin> set xs \<Longrightarrow> dlseg nx pv (h(x := v)) p xs n = dlseg nx pv h p xs n"
  by (induction xs arbitrary: p) auto

lemma dlseg_cong:
  "(\<And>x. x \<in> set xs \<Longrightarrow> h' x = h x) \<Longrightarrow> dlseg nx pv h' p xs n = dlseg nx pv h p xs n"
  by (induction xs arbitrary: p) auto

lemma dlseg_same_links:
  assumes "h x = Some z" and "nx z' = nx z" and "pv z' = pv z"
  shows "dlseg nx pv (h(x \<mapsto> z')) p xs n = dlseg nx pv h p xs n"
  using assms by (induction xs arbitrary: p) auto

text \<open>Relinking at either end.\<close>

lemma dlseg_relink_last:
  assumes "dlseg nx pv h p (xs @ [t]) n" and "t \<notin> set xs"
    and "h t = Some z" and "nx z' = n'" and "pv z' = pv z"
  shows "dlseg nx pv (h(t \<mapsto> z')) p (xs @ [t]) n'"
  using assms by auto

lemma dlseg_relink_first:
  assumes "dlseg nx pv h p (x # xs) n" and "x \<notin> set xs"
    and "h x = Some z" and "pv z' = p'" and "nx z' = nx z"
  shows "dlseg nx pv (h(x \<mapsto> z')) p' (x # xs) n"
  using assms by auto

text \<open>The memory determines the chain that starts at a given place.\<close>

lemma dlseg_unique:
  "dlseg nx pv h p xs None \<Longrightarrow> dlseg nx pv h p ys None \<Longrightarrow> front xs None = front ys None \<Longrightarrow> xs = ys"
proof (induction xs arbitrary: p ys)
  case Nil
  then show ?case by (cases ys) auto
next
  case (Cons x xs)
  then obtain ys' where "ys = x # ys'"
    by (cases ys) auto
  with Cons show ?case by auto
qed

text \<open>
  \<open>agree_upto proj S h h'\<close>: from \<open>h\<close> to \<open>h'\<close> only objects at addresses in \<open>S\<close> changed, and
  those only in the fields that \<open>proj\<close> does not show (their links).
\<close>

definition agree_upto :: "('o \<Rightarrow> 'd) \<Rightarrow> addr set \<Rightarrow> (addr \<rightharpoonup> 'o) \<Rightarrow> (addr \<rightharpoonup> 'o) \<Rightarrow> bool" where
  "agree_upto proj S h h' \<longleftrightarrow>
     (\<forall>a. a \<notin> S \<longrightarrow> h' a = h a) \<and> (\<forall>a. map_option proj (h' a) = map_option proj (h a))"

lemma agree_upto_refl [simp]: "agree_upto proj S h h"
  by (simp add: agree_upto_def)

lemma agree_upto_dom: "agree_upto proj S h h' \<Longrightarrow> dom h' = dom h"
  unfolding agree_upto_def
  by (auto simp: dom_def) (metis map_option_eq_Some option.distinct(1) not_None_eq)+

lemma agree_upto_outside: "agree_upto proj S h h' \<Longrightarrow> a \<notin> S \<Longrightarrow> h' a = h a"
  by (simp add: agree_upto_def)

lemma agree_upto_data:
  "agree_upto proj S h h' \<Longrightarrow> map_option proj (h' a) = map_option proj (h a)"
  by (simp add: agree_upto_def)

lemma agree_upto_Some:
  assumes "agree_upto proj S h h'" and "h a = Some z"
  obtains z' where "h' a = Some z'" and "proj z' = proj z"
proof -
  have "map_option proj (h' a) = Some (proj z)"
    using agree_upto_data [OF assms(1), of a] assms(2) by simp
  then show ?thesis
    using that by auto
qed

end
