(* ===== verification/Intrusive_List.thy ===== *)
theory Intrusive_List
  imports Domain Object_Pool Linked_Heap
begin

text \<open>
  \<open>IntrusiveOrderList\<close> of \<open>matching/order_book/intrusive_list.hpp\<close>: the first-in first-out
  queue of the orders at one price, threaded through the \<open>next\<close> and \<open>prev\<close> fields of the
  orders themselves. The operations read and write the memory that holds the orders; the
  lemmas show that they are \<open>xs @ [x]\<close> and the removal of one element on the list of
  addresses, and that they change nothing but links.
\<close>

section \<open>Model\<close>

type_synonym order_heap = "addr \<rightharpoonup> live_order"

record intrusive_list =
  il_head :: "addr option"
  il_tail :: "addr option"

definition il_new :: intrusive_list where
  "il_new = \<lparr>il_head = None, il_tail = None\<rparr>"

definition il_empty :: "intrusive_list \<Rightarrow> bool" where
  "il_empty l \<longleftrightarrow> il_head l = None"

definition il_append ::
  "addr option \<Rightarrow> intrusive_list \<Rightarrow> order_heap \<Rightarrow> (intrusive_list \<times> order_heap) run" where
  "il_append ptr l h =
     (case ptr of
        None \<Rightarrow> ret (l, h)
      | Some x \<Rightarrow>
          bind_run (assign x (\<lambda>z. z\<lparr>lo_next := None\<rparr>) h) (\<lambda>h1.
          bind_run (assign x (\<lambda>z. z\<lparr>lo_prev := il_tail l\<rparr>) h1) (\<lambda>h2.
          case il_tail l of
            Some t \<Rightarrow>
              bind_run (assign t (\<lambda>z. z\<lparr>lo_next := Some x\<rparr>) h2) (\<lambda>h3.
              ret (l\<lparr>il_tail := Some x\<rparr>, h3))
          | None \<Rightarrow> ret (l\<lparr>il_head := Some x, il_tail := Some x\<rparr>, h2))))"

definition il_remove ::
  "addr option \<Rightarrow> intrusive_list \<Rightarrow> order_heap \<Rightarrow> (intrusive_list \<times> order_heap) run" where
  "il_remove ptr l h =
     (case ptr of
        None \<Rightarrow> ret (l, h)
      | Some x \<Rightarrow>
          bind_run (deref x h) (\<lambda>z.
          bind_run (case lo_prev z of
              Some q \<Rightarrow> bind_run (assign q (\<lambda>y. y\<lparr>lo_next := lo_next z\<rparr>) h) (\<lambda>h1. ret (l, h1))
            | None \<Rightarrow> ret (l\<lparr>il_head := lo_next z\<rparr>, h)) (\<lambda>(l1, h1).
          bind_run (deref x h1) (\<lambda>z1.
          bind_run (case lo_next z1 of
              Some q \<Rightarrow> bind_run (assign q (\<lambda>y. y\<lparr>lo_prev := lo_prev z1\<rparr>) h1) (\<lambda>h2. ret (l1, h2))
            | None \<Rightarrow> ret (l1\<lparr>il_tail := lo_prev z1\<rparr>, h1)) (\<lambda>(l2, h2).
          bind_run (assign x (\<lambda>y. y\<lparr>lo_next := None\<rparr>) h2) (\<lambda>h3.
          bind_run (assign x (\<lambda>y. y\<lparr>lo_prev := None\<rparr>) h3) (\<lambda>h4.
          ret (l2, h4))))))))"

section \<open>What the queue means\<close>

text \<open>The content of a resting order, without its links.\<close>

record resting =
  ro_key :: order_key
  ro_price :: price
  ro_qty :: quantity
  ro_seq :: u64

definition resting_of :: "live_order \<Rightarrow> resting" where
  "resting_of z = \<lparr>ro_key = lo_key z, ro_price = lo_price z, ro_qty = lo_remaining_qty z,
                   ro_seq = lo_priority_seq z\<rparr>"

lemma resting_of_links [simp]:
  "resting_of (z\<lparr>lo_next := n\<rparr>) = resting_of z"
  "resting_of (z\<lparr>lo_prev := n\<rparr>) = resting_of z"
  by (simp_all add: resting_of_def)

lemma resting_of_fields [simp]:
  "ro_key (resting_of z) = lo_key z" "ro_price (resting_of z) = lo_price z"
  "ro_qty (resting_of z) = lo_remaining_qty z" "ro_seq (resting_of z) = lo_priority_seq z"
  by (simp_all add: resting_of_def)

abbreviation order_chain :: "order_heap \<Rightarrow> addr option \<Rightarrow> addr list \<Rightarrow> addr option \<Rightarrow> bool" where
  "order_chain \<equiv> dlseg lo_next lo_prev"

text \<open>\<open>il_rep h l xs\<close>: in memory \<open>h\<close>, the list object \<open>l\<close> is the queue of the orders at \<open>xs\<close>.\<close>

definition il_rep :: "order_heap \<Rightarrow> intrusive_list \<Rightarrow> addr list \<Rightarrow> bool" where
  "il_rep h l xs \<longleftrightarrow>
     order_chain h None xs None \<and> distinct xs \<and> il_head l = front xs None \<and> il_tail l = rear None xs"

abbreviation only_links :: "addr set \<Rightarrow> order_heap \<Rightarrow> order_heap \<Rightarrow> bool" where
  "only_links \<equiv> agree_upto resting_of"

lemma il_rep_new [simp]: "il_rep h il_new []"
  by (simp add: il_rep_def il_new_def)

lemma il_rep_empty: "il_rep h l xs \<Longrightarrow> il_empty l \<longleftrightarrow> xs = []"
  by (simp add: il_rep_def il_empty_def)

lemma il_rep_cong:
  "(\<And>x. x \<in> set xs \<Longrightarrow> h' x = h x) \<Longrightarrow> il_rep h' l xs = il_rep h l xs"
  by (simp add: il_rep_def dlseg_cong [of xs h' h])

lemma il_rep_live: "il_rep h l xs \<Longrightarrow> x \<in> set xs \<Longrightarrow> \<exists>z. h x = Some z"
  unfolding il_rep_def using dlseg_live by fastforce

text \<open>Appending.\<close>

lemma il_append_rep:
  assumes "il_rep h l xs" and "h x = Some z" and "x \<notin> set xs"
  shows "\<exists>l' h'. il_append (Some x) l h = ret (l', h') \<and> il_rep h' l' (xs @ [x]) \<and>
           only_links (insert x (set xs)) h h'"
proof (cases xs rule: rev_cases)
  case Nil
  with assms show ?thesis
    by (auto simp: il_append_def il_rep_def agree_upto_def)
next
  case (snoc ys t)
  with assms(1) obtain zt where t: "h t = Some zt" and tail: "il_tail l = Some t"
    by (auto simp: il_rep_def)
  have tx: "t \<noteq> x" and ys: "x \<notin> set ys" "t \<notin> set ys"
    using assms snoc by (auto simp: il_rep_def)
  let ?z = "z\<lparr>lo_next := None, lo_prev := Some t\<rparr>"
  let ?h2 = "h(x \<mapsto> z\<lparr>lo_next := None\<rparr>, x \<mapsto> ?z)"
  let ?h3 = "?h2(t \<mapsto> zt\<lparr>lo_next := Some x\<rparr>)"
  have run: "il_append (Some x) l h = ret (l\<lparr>il_tail := Some x\<rparr>, ?h3)"
    using assms(2) t tail tx by (simp add: il_append_def)
  have "order_chain h None (ys @ [t]) None"
    using assms(1) snoc by (simp add: il_rep_def)
  then have "order_chain (h(t \<mapsto> zt\<lparr>lo_next := Some x\<rparr>)) None (ys @ [t]) (Some x)"
    by (rule dlseg_relink_last) (use t ys in auto)
  then have "order_chain ?h3 None (ys @ [t]) (Some x)"
    by (rule dlseg_cong [THEN iffD1, rotated]) (use ys tx in auto)
  moreover have "?h3 x = Some ?z"
    using tx by simp
  ultimately have "il_rep ?h3 (l\<lparr>il_tail := Some x\<rparr>) (xs @ [x])"
    using assms snoc tx unfolding il_rep_def by simp
  moreover have "only_links (insert x (set xs)) h ?h3"
    using assms(2) t tx snoc by (auto simp: agree_upto_def)
  ultimately show ?thesis
    using run by blast
qed

text \<open>Removing. The four cases are the neighbours that exist.\<close>

lemma il_remove_rep:
  assumes "il_rep h l (xs @ x # ys)"
  shows "\<exists>l' h'. il_remove (Some x) l h = ret (l', h') \<and> il_rep h' l' (xs @ ys) \<and>
           only_links (set (xs @ x # ys)) h h'"
proof -
  have chain: "order_chain h None xs (Some x)" "order_chain h (Some x) ys None"
    and dist: "distinct (xs @ x # ys)"
    and ends: "il_head l = front (xs @ x # ys) None" "il_tail l = rear None (xs @ x # ys)"
    using assms by (auto simp: il_rep_def)
  obtain z where x: "h x = Some z" and lz: "lo_prev z = rear None xs" "lo_next z = front ys None"
    using assms by (auto simp: il_rep_def)
  consider (only) "xs = []" "ys = []" | (first) q ys' where "xs = []" "ys = q # ys'"
    | (lst) xs' t where "xs = xs' @ [t]" "ys = []"
    | (mid) xs' t q ys' where "xs = xs' @ [t]" "ys = q # ys'"
    by (cases xs rule: rev_cases; cases ys) auto
  then show ?thesis
  proof cases
    case only
    with x lz ends show ?thesis
      by (auto simp: il_remove_def il_rep_def agree_upto_def)
  next
    case first
    with chain obtain zq where q: "h q = Some zq" "lo_prev zq = Some x"
      by auto
    with first x lz dist ends chain show ?thesis
      by (auto simp: il_remove_def il_rep_def agree_upto_def)
  next
    case lst
    with chain obtain zt where t: "h t = Some zt" "lo_next zt = Some x"
      by auto
    with lst x lz dist ends chain show ?thesis
      by (auto simp: il_remove_def il_rep_def agree_upto_def)
  next
    case mid
    with chain obtain zt zq where "h t = Some zt" "lo_next zt = Some x"
      and "h q = Some zq" "lo_prev zq = Some x"
      by auto
    with mid x lz dist ends chain show ?thesis
      by (auto simp: il_remove_def il_rep_def agree_upto_def)
  qed
qed

end
