(* ===== verification/Book_Side.thy ===== *)
theory Book_Side
  imports Intrusive_List
begin

text \<open>
  One side of the order book: \<open>PriceLevelNode\<close>, \<open>PriceLevelIndex\<close>, \<open>BidBook\<close> and \<open>AskBook\<close> of
  \<open>matching/order_book\<close>. The price levels of a side are a doubly linked chain from the best
  price to the worst, and an index from prices to levels. \<open>BidBook\<close> and \<open>AskBook\<close> have the
  same code but for the comparison; it is the argument \<open>better\<close> here, instantiated with
  \<open>(>)\<close> for bids and \<open>(<)\<close> for asks. The lemmas show that creating and removing a level keep
  the chain sorted and the index equal to it.
\<close>

section \<open>Model\<close>

record price_level_node =
  pl_price :: price
  pl_total_qty :: quantity
  pl_order_count :: u32
  pl_orders :: intrusive_list
  pl_next :: "addr option"
  pl_prev :: "addr option"

definition price_level_default :: price_level_node where
  "price_level_default =
     \<lparr>pl_price = Price 0, pl_total_qty = Quantity 0, pl_order_count = 0, pl_orders = il_new,
      pl_next = None, pl_prev = None\<rparr>"

definition level_empty :: "price_level_node \<Rightarrow> bool" where
  "level_empty n \<longleftrightarrow> il_empty (pl_orders n)"

definition level_has_orders :: "price_level_node \<Rightarrow> bool" where
  "level_has_orders n \<longleftrightarrow> \<not> il_empty (pl_orders n)"

type_synonym level_heap = "addr \<rightharpoonup> price_level_node"
type_synonym level_pool = "price_level_node object_pool"
type_synonym order_pool = "live_order object_pool"
type_synonym price_index = "price \<rightharpoonup> addr"

definition LEVEL_POOL_CAPACITY :: nat where "LEVEL_POOL_CAPACITY = 1024"
definition ORDER_POOL_CAPACITY :: nat where "ORDER_POOL_CAPACITY = 10240"

subsection \<open>\<open>PriceLevelIndex\<close>\<close>

definition index_find :: "price \<Rightarrow> price_index \<Rightarrow> addr option" where
  "index_find p ix = ix p"

definition index_insert :: "price \<Rightarrow> addr \<Rightarrow> price_index \<Rightarrow> price_index" where
  "index_insert p a ix = ix(p \<mapsto> a)"

definition index_erase :: "price \<Rightarrow> price_index \<Rightarrow> price_index" where
  "index_erase p ix = ix(p := None)"

subsection \<open>\<open>BidBook\<close> and \<open>AskBook\<close>\<close>

record book_side =
  bs_best_level :: "addr option"
  bs_index :: price_index

definition side_new :: book_side where
  "side_new = \<lparr>bs_best_level = None, bs_index = Map.empty\<rparr>"

definition side_empty :: "book_side \<Rightarrow> bool" where
  "side_empty sb \<longleftrightarrow> bs_best_level sb = None"

definition find_level :: "price \<Rightarrow> book_side \<Rightarrow> addr option" where
  "find_level p sb = index_find p (bs_index sb)"

text \<open>A write to an object of a pool.\<close>

definition pool_assign :: "addr \<Rightarrow> ('a \<Rightarrow> 'a) \<Rightarrow> 'a object_pool \<Rightarrow> 'a object_pool run" where
  "pool_assign a f p = bind_run (assign a f (storage p)) (\<lambda>h. ret (p\<lparr>storage := h\<rparr>))"

text \<open>The loop that finds the level to insert after:
  \<open>while (curr->next && curr->next->price < price) curr = curr->next;\<close>\<close>

partial_function (option) find_slot ::
  "(price \<Rightarrow> price \<Rightarrow> bool) \<Rightarrow> price \<Rightarrow> addr \<Rightarrow> level_heap \<Rightarrow> addr run" where
  "find_slot better p cur h =
     bind_run (deref cur h) (\<lambda>c.
       case pl_next c of
         None \<Rightarrow> ret cur
       | Some nx \<Rightarrow>
           bind_run (deref nx h) (\<lambda>n.
             if better (pl_price n) p then find_slot better p nx h else ret cur))"

text \<open>Linking the new level \<open>nd\<close> into the sorted chain.\<close>

definition link_level ::
  "(price \<Rightarrow> price \<Rightarrow> bool) \<Rightarrow> price \<Rightarrow> addr \<Rightarrow> book_side \<Rightarrow> level_pool \<Rightarrow> (book_side \<times> level_pool) run" where
  "link_level better p nd sb lp =
     (case bs_best_level sb of
        None \<Rightarrow> ret (sb\<lparr>bs_best_level := Some nd\<rparr>, lp)
      | Some b \<Rightarrow>
          bind_run (deref b (storage lp)) (\<lambda>bn.
          if better p (pl_price bn) then
            bind_run (pool_assign nd (\<lambda>z. z\<lparr>pl_next := Some b\<rparr>) lp) (\<lambda>lp1.
            bind_run (pool_assign b (\<lambda>z. z\<lparr>pl_prev := Some nd\<rparr>) lp1) (\<lambda>lp2.
            ret (sb\<lparr>bs_best_level := Some nd\<rparr>, lp2)))
          else
            bind_run (find_slot better p b (storage lp)) (\<lambda>cur.
            bind_run (deref cur (storage lp)) (\<lambda>c.
            bind_run (pool_assign nd (\<lambda>z. z\<lparr>pl_next := pl_next c\<rparr>) lp) (\<lambda>lp1.
            bind_run (pool_assign nd (\<lambda>z. z\<lparr>pl_prev := Some cur\<rparr>) lp1) (\<lambda>lp2.
            bind_run (case pl_next c of
                Some q \<Rightarrow> pool_assign q (\<lambda>z. z\<lparr>pl_prev := Some nd\<rparr>) lp2
              | None \<Rightarrow> ret lp2) (\<lambda>lp3.
            bind_run (pool_assign cur (\<lambda>z. z\<lparr>pl_next := Some nd\<rparr>) lp3) (\<lambda>lp4.
            ret (sb, lp4)))))))))"

definition create_level ::
  "(price \<Rightarrow> price \<Rightarrow> bool) \<Rightarrow> price \<Rightarrow> book_side \<Rightarrow> level_pool \<Rightarrow> (addr \<times> book_side \<times> level_pool) run" where
  "create_level better p sb lp =
     bind_run (pool_allocate price_level_default lp) (\<lambda>(nd, lp1).
     bind_run (pool_assign nd (\<lambda>z. z\<lparr>pl_price := p, pl_total_qty := Quantity 0, pl_order_count := 0,
                                     pl_next := None, pl_prev := None\<rparr>) lp1) (\<lambda>lp2.
     bind_run (link_level better p nd (sb\<lparr>bs_index := index_insert p nd (bs_index sb)\<rparr>) lp2)
       (\<lambda>(sb1, lp3). ret (nd, sb1, lp3))))"

text \<open>Taking the level \<open>nd\<close>, whose object is \<open>z\<close>, out of the chain.\<close>

definition unlink_level ::
  "addr \<Rightarrow> price_level_node \<Rightarrow> book_side \<Rightarrow> level_pool \<Rightarrow> (book_side \<times> level_pool) run" where
  "unlink_level nd z sb lp =
     (if Some nd = bs_best_level sb then
        let sb1 = sb\<lparr>bs_best_level := pl_next z\<rparr> in
        case bs_best_level sb1 of
          Some b \<Rightarrow> bind_run (pool_assign b (\<lambda>y. y\<lparr>pl_prev := None\<rparr>) lp) (\<lambda>lp1. ret (sb1, lp1))
        | None \<Rightarrow> ret (sb1, lp)
      else
        bind_run (case pl_prev z of
            Some q \<Rightarrow> pool_assign q (\<lambda>y. y\<lparr>pl_next := pl_next z\<rparr>) lp
          | None \<Rightarrow> ret lp) (\<lambda>lp1.
        bind_run (deref nd (storage lp1)) (\<lambda>z1.
        bind_run (case pl_next z1 of
            Some q \<Rightarrow> pool_assign q (\<lambda>y. y\<lparr>pl_prev := pl_prev z1\<rparr>) lp1
          | None \<Rightarrow> ret lp1) (\<lambda>lp2.
        ret (sb, lp2)))))"

definition remove_level ::
  "addr option \<Rightarrow> book_side \<Rightarrow> level_pool \<Rightarrow> (book_side \<times> level_pool) run" where
  "remove_level node sb lp =
     (case node of
        None \<Rightarrow> ret (sb, lp)
      | Some nd \<Rightarrow>
          bind_run (deref nd (storage lp)) (\<lambda>z.
          bind_run (unlink_level nd z (sb\<lparr>bs_index := index_erase (pl_price z) (bs_index sb)\<rparr>) lp)
            (\<lambda>(sb1, lp1).
          bind_run (pool_deallocate LEVEL_POOL_CAPACITY (Some (int nd)) lp1) (\<lambda>lp2.
          ret (sb1, lp2)))))"

text \<open>The loops of \<open>clear\<close>: all orders of a level, then the level, then the next level.\<close>

partial_function (option) clear_orders :: "addr option \<Rightarrow> order_pool \<Rightarrow> order_pool run" where
  "clear_orders cur op =
     (case cur of
        None \<Rightarrow> ret op
      | Some x \<Rightarrow>
          bind_run (deref x (storage op)) (\<lambda>z.
          bind_run (pool_deallocate ORDER_POOL_CAPACITY (Some (int x)) op) (\<lambda>op1.
          clear_orders (lo_next z) op1)))"

partial_function (option) clear_levels ::
  "addr option \<Rightarrow> level_pool \<Rightarrow> order_pool \<Rightarrow> (level_pool \<times> order_pool) run" where
  "clear_levels cur lp op =
     (case cur of
        None \<Rightarrow> ret (lp, op)
      | Some x \<Rightarrow>
          bind_run (deref x (storage lp)) (\<lambda>z.
          bind_run (clear_orders (il_head (pl_orders z)) op) (\<lambda>op1.
          bind_run (pool_deallocate LEVEL_POOL_CAPACITY (Some (int x)) lp) (\<lambda>lp1.
          clear_levels (pl_next z) lp1 op1))))"

definition side_clear ::
  "book_side \<Rightarrow> level_pool \<Rightarrow> order_pool \<Rightarrow> (book_side \<times> level_pool \<times> order_pool) run" where
  "side_clear sb lp op =
     bind_run (clear_levels (bs_best_level sb) lp op) (\<lambda>(lp1, op1).
     ret (sb\<lparr>bs_best_level := None, bs_index := Map.empty\<rparr>, lp1, op1))"

text \<open>\<open>verify_invariants\<close>: \<open>not_worse p q\<close> is the comparison of the \<open>assert\<close> (\<open>>=\<close> for asks,
  \<open><=\<close> for bids) between a level's price and the price of the level before it.\<close>

definition assert_run :: "bool \<Rightarrow> unit run" where
  "assert_run b = (if b then ret () else fail AssertFailed)"

partial_function (option) verify_levels ::
  "(price \<Rightarrow> price \<Rightarrow> bool) \<Rightarrow> price \<Rightarrow> addr option \<Rightarrow> level_heap \<Rightarrow> unit run" where
  "verify_levels not_worse prev_price cur h =
     (case cur of
        None \<Rightarrow> ret ()
      | Some x \<Rightarrow>
          bind_run (deref x h) (\<lambda>z.
          bind_run (assert_run (not_worse (pl_price z) prev_price)) (\<lambda>_.
          bind_run (assert_run (level_has_orders z)) (\<lambda>_.
          bind_run (assert_run (il_head (pl_orders z) \<noteq> None)) (\<lambda>_.
          bind_run (assert_run (il_tail (pl_orders z) \<noteq> None)) (\<lambda>_.
          bind_run (case pl_next z of
              Some q \<Rightarrow> bind_run (deref q h) (\<lambda>y. assert_run (pl_prev y = Some x))
            | None \<Rightarrow> ret ()) (\<lambda>_.
          verify_levels not_worse (pl_price z) (pl_next z) h)))))))"

definition side_verify_invariants ::
  "(price \<Rightarrow> price \<Rightarrow> bool) \<Rightarrow> book_side \<Rightarrow> level_heap \<Rightarrow> unit run" where
  "side_verify_invariants not_worse sb h =
     (case bs_best_level sb of
        None \<Rightarrow> assert_run (bs_index sb = Map.empty)
      | Some b \<Rightarrow>
          bind_run (deref b h) (\<lambda>z.
          bind_run (assert_run (pl_prev z = None)) (\<lambda>_.
          verify_levels not_worse (pl_price z) (Some b) h)))"

definition bid_create_level :: "price \<Rightarrow> book_side \<Rightarrow> level_pool \<Rightarrow> (addr \<times> book_side \<times> level_pool) run" where
  "bid_create_level = create_level (>)"

definition ask_create_level :: "price \<Rightarrow> book_side \<Rightarrow> level_pool \<Rightarrow> (addr \<times> book_side \<times> level_pool) run" where
  "ask_create_level = create_level (<)"

definition bid_verify_invariants :: "book_side \<Rightarrow> level_heap \<Rightarrow> unit run" where
  "bid_verify_invariants = side_verify_invariants (\<le>)"

definition ask_verify_invariants :: "book_side \<Rightarrow> level_heap \<Rightarrow> unit run" where
  "ask_verify_invariants = side_verify_invariants (\<ge>)"

section \<open>What a side means\<close>

abbreviation level_chain :: "level_heap \<Rightarrow> addr option \<Rightarrow> addr list \<Rightarrow> addr option \<Rightarrow> bool" where
  "level_chain \<equiv> dlseg pl_next pl_prev"

definition price_at :: "level_heap \<Rightarrow> addr \<Rightarrow> price" where
  "price_at h a = pl_price (the (h a))"

text \<open>The content of a level, without its links.\<close>

definition level_data :: "price_level_node \<Rightarrow> price \<times> quantity \<times> u32 \<times> intrusive_list" where
  "level_data z = (pl_price z, pl_total_qty z, pl_order_count z, pl_orders z)"

text \<open>
  \<open>side_shape better h sb as\<close>: the levels at \<open>as\<close> are the chain of the side, best price
  first and no price twice, and the index finds exactly them.
\<close>

definition side_shape ::
  "(price \<Rightarrow> price \<Rightarrow> bool) \<Rightarrow> level_heap \<Rightarrow> book_side \<Rightarrow> addr list \<Rightarrow> bool" where
  "side_shape better h sb as \<longleftrightarrow>
     level_chain h None as None \<and> distinct as \<and> bs_best_level sb = front as None \<and>
     sorted_wrt better (map (price_at h) as) \<and>
     bs_index sb = map_of (map (\<lambda>a. (price_at h a, a)) as)"

lemma price_at_upd [simp]:
  "price_at (h(a \<mapsto> z)) b = (if a = b then pl_price z else price_at h b)"
  by (simp add: price_at_def)

lemma price_at_agree:
  assumes "agree_upto level_data S h h'" and "a \<in> dom h"
  shows "price_at h' a = price_at h a"
proof -
  from assms(2) obtain z where "h a = Some z"
    by blast
  with assms(1) obtain z' where "h' a = Some z'" and "level_data z' = level_data z"
    by (rule agree_upto_Some)
  with \<open>h a = Some z\<close> show ?thesis
    by (simp add: price_at_def level_data_def)
qed

lemma side_shape_new [simp]: "side_shape better h side_new []"
  by (simp add: side_shape_def side_new_def)

text \<open>Only links and prices matter.\<close>

lemma side_shape_cong:
  assumes "\<And>a. a \<in> set as \<Longrightarrow> map_option (\<lambda>z. (pl_price z, pl_next z, pl_prev z)) (h' a) =
                               map_option (\<lambda>z. (pl_price z, pl_next z, pl_prev z)) (h a)"
  shows "side_shape better h' sb as = side_shape better h sb as"
proof -
  have chain: "level_chain h' p as n = level_chain h p as n" for p n
    using assms
  proof (induction as arbitrary: p)
    case (Cons a as)
    show ?case
      using Cons.prems [of a] Cons.IH [OF Cons.prems] by (cases "h a"; cases "h' a") auto
  qed simp
  show ?thesis
  proof (cases "level_chain h None as None")
    case True
    have "price_at h' a = price_at h a" if a: "a \<in> set as" for a
      using dlseg_live [OF True a] assms [OF a] by (auto simp: price_at_def)
    then have "map (price_at h') as = map (price_at h) as"
      and "map (\<lambda>a. (price_at h' a, a)) as = map (\<lambda>a. (price_at h a, a)) as"
      by auto
    then show ?thesis
      by (simp only: side_shape_def chain)
  qed (simp add: side_shape_def chain)
qed

lemma side_shape_frame:
  "(\<And>a. a \<in> set as \<Longrightarrow> h' a = h a) \<Longrightarrow> side_shape better h' sb as = side_shape better h sb as"
  by (rule side_shape_cong) simp

lemma side_shape_live: "side_shape better h sb as \<Longrightarrow> a \<in> set as \<Longrightarrow> \<exists>z. h a = Some z"
  unfolding side_shape_def using dlseg_live by fastforce

lemma map_of_insert_mid:
  "k \<notin> fst ` set xs \<Longrightarrow> map_of (xs @ (k, v) # ys) = (map_of (xs @ ys))(k \<mapsto> v)"
  by (induction xs) (auto simp: fun_upd_twist)

lemma map_of_delete_mid:
  "k \<notin> fst ` set (xs @ ys) \<Longrightarrow> map_of (xs @ ys) = (map_of (xs @ (k, v) # ys))(k := None)"
  using map_of_eq_None_iff [of "xs @ ys" k] map_of_insert_mid [of k xs v ys]
  by (auto simp del: map_of_append simp: fun_upd_idem image_Un)

lemma pool_assign_Some [simp]:
  "storage p a = Some x \<Longrightarrow> pool_assign a f p = ret (p\<lparr>storage := (storage p)(a \<mapsto> f x)\<rparr>)"
  by (simp add: pool_assign_def)

text \<open>Putting an object between two others of a chain, and taking it out.\<close>

lemma level_chain_insert:
  assumes "level_chain h None (as @ t # bs) None" and "distinct (as @ t # bs)"
    and "nd \<notin> set (as @ t # bs)" and "h t = Some zt"
    and "h1 = h(nd \<mapsto> z\<lparr>pl_next := front bs None, pl_prev := Some t\<rparr>)"
    and "h2 = (case bs of [] \<Rightarrow> h1 | q # _ \<Rightarrow> h1(q \<mapsto> (the (h q))\<lparr>pl_prev := Some nd\<rparr>))"
  shows "level_chain (h2(t \<mapsto> zt\<lparr>pl_next := Some nd\<rparr>)) None (as @ t # nd # bs) None"
  using assms by (cases bs) auto

lemma find_slot_chain:
  assumes "level_chain h q (c # cs) None"
  shows "find_slot better p c h = ret (last (c # takeWhile (\<lambda>a. better (price_at h a) p) cs))"
  using assms
proof (induction cs arbitrary: q c)
  case Nil
  then show ?case
    by (subst find_slot.simps) auto
next
  case (Cons d ds)
  then obtain z y where "h c = Some z" "pl_next z = Some d" "h d = Some y"
    and rest: "level_chain h (Some c) (d # ds) None"
    by auto
  moreover from rest have "find_slot better p d h =
      ret (last (d # takeWhile (\<lambda>a. better (price_at h a) p) ds))"
    by (rule Cons.IH)
  ultimately show ?case
    by (subst find_slot.simps) (simp add: price_at_def)
qed


lemma level_chain_delete:
  assumes "level_chain h None (as @ nd # bs) None" and "distinct (as @ nd # bs)"
    and "h1 = (if as = [] then h else h(last as \<mapsto> (the (h (last as)))\<lparr>pl_next := front bs None\<rparr>))"
    and "h2 = (case bs of [] \<Rightarrow> h1 | q # _ \<Rightarrow> h1(q \<mapsto> (the (h1 q))\<lparr>pl_prev := rear None as\<rparr>))"
  shows "level_chain h2 None (as @ bs) None"
  using assms by (cases as rule: rev_cases; cases bs) auto


section \<open>The priority order of a side\<close>

text \<open>
  The comparison of a side is a strict total order on prices: the interface on which the
  chain of levels relies. Bids instantiate it with \<open>(>)\<close>, asks with \<open>(<)\<close>.
\<close>

locale price_priority =
  fixes better :: "price \<Rightarrow> price \<Rightarrow> bool"
  assumes better_irrefl: "\<not> better p p"
    and better_trans: "better p q \<Longrightarrow> better q r \<Longrightarrow> better p r"
    and better_total: "p \<noteq> q \<Longrightarrow> better p q \<or> better q p"
begin

lemma better_asym: "better p q \<Longrightarrow> \<not> better q p"
  using better_irrefl better_trans by blast

text \<open>In a sorted list of levels, the levels with a better price come first.\<close>

lemma sorted_insert_split:
  assumes "sorted_wrt better (map f as)" and "p \<notin> f ` set as"
  shows "sorted_wrt better (map f (takeWhile (\<lambda>a. better (f a) p) as) @ p #
           map f (dropWhile (\<lambda>a. better (f a) p) as))"
  using assms
proof (induction as)
  case (Cons a as)
  have trans: "better (f a) x" if "x \<in> f ` set as" for x
    using Cons.prems(1) that by auto
  show ?case
  proof (cases "better (f a) p")
    case True
    then have "\<forall>x \<in> set (map f (takeWhile (\<lambda>a. better (f a) p) as) @ p #
           map f (dropWhile (\<lambda>a. better (f a) p) as)). better (f a) x"
      using trans by (auto dest: set_takeWhileD set_dropWhileD)
    with True Cons show ?thesis
      by simp
  next
    case False
    with Cons.prems(2) better_total have pa: "better p (f a)"
      by auto
    then have "better p x" if "x \<in> f ` set as" for x
      using trans [OF that] better_trans by blast
    with False Cons.prems(1) pa show ?thesis
      by auto
  qed
qed simp

lemma side_shape_inserted:
  assumes shape: "side_shape better h sb as" and p: "p \<notin> price_at h ` set as"
    and as: "as1 = takeWhile (\<lambda>a. better (price_at h a) p) as"
      "as2 = dropWhile (\<lambda>a. better (price_at h a) p) as"
    and prices: "\<And>a. a \<in> set as \<Longrightarrow> price_at h' a = price_at h a" "price_at h' nd = p"
    and nd: "nd \<notin> set as"
    and chain: "level_chain h' None (as1 @ nd # as2) None"
    and best: "bs_best_level sb' = front (as1 @ nd # as2) None"
    and index: "bs_index sb' = (bs_index sb)(p \<mapsto> nd)"
  shows "side_shape better h' sb' (as1 @ nd # as2)"
proof -
  have app: "as = as1 @ as2"
    by (simp add: as)
  have maps: "map (price_at h') as1 = map (price_at h) as1" "map (price_at h') as2 = map (price_at h) as2"
    "map (\<lambda>a. (price_at h' a, a)) as1 = map (\<lambda>a. (price_at h a, a)) as1"
    "map (\<lambda>a. (price_at h' a, a)) as2 = map (\<lambda>a. (price_at h a, a)) as2"
    using prices(1) by (auto simp: app)
  have "sorted_wrt better (map (price_at h') (as1 @ nd # as2))"
    using sorted_insert_split [of "price_at h" as p] shape p
    by (simp add: side_shape_def maps prices(2) as [symmetric])
  moreover have "map_of (map (\<lambda>a. (price_at h' a, a)) (as1 @ nd # as2)) =
      (map_of (map (\<lambda>a. (price_at h a, a)) as))(p \<mapsto> nd)"
    using map_of_insert_mid [of p "map (\<lambda>a. (price_at h a, a)) as1" nd
        "map (\<lambda>a. (price_at h a, a)) as2"] p
    by (force simp: maps prices(2) app simp del: map_of_append)
  moreover have "distinct (as1 @ nd # as2)"
    using shape nd by (auto simp: side_shape_def app)
  ultimately show ?thesis
    using shape chain best index by (simp add: side_shape_def)
qed

text \<open>Linking at the front, and linking after the level that \<^const>\<open>find_slot\<close> returns.\<close>

lemma link_level_front:
  assumes chain: "level_chain h None as None" and dist: "distinct as"
    and best: "bs_best_level sb = front as None"
    and nd: "h nd = None" and z: "pl_next z = None" "pl_prev z = None"
    and lp: "storage lp = h(nd \<mapsto> z)"
    and first: "as \<noteq> [] \<Longrightarrow> better p (price_at h (hd as))"
  shows "\<exists>h'. link_level better p nd sb lp = ret (sb\<lparr>bs_best_level := Some nd\<rparr>, lp\<lparr>storage := h'\<rparr>) \<and>
    agree_upto level_data (insert nd (set as)) (h(nd \<mapsto> z)) h' \<and>
    level_chain h' None (nd # as) None"
proof (cases as)
  case Nil
  have "lp\<lparr>storage := h(nd \<mapsto> z)\<rparr> = lp"
    by (simp flip: lp)
  with Nil best z show ?thesis
    by (intro exI [of _ "h(nd \<mapsto> z)"]) (simp add: link_level_def)
next
  case (Cons b cs)
  then obtain zb where b: "h b = Some zb"
    using chain by auto
  have "nd \<notin> set as"
    using dlseg_subset_dom [OF chain] nd by blast
  moreover have "better p (pl_price zb)"
    using first Cons b by (simp add: price_at_def)
  ultimately show ?thesis
    using best Cons b chain dist z
    by (intro exI [of _ "h(nd \<mapsto> z\<lparr>pl_next := Some b\<rparr>, b \<mapsto> zb\<lparr>pl_prev := Some nd\<rparr>)"])
      (auto simp: link_level_def lp agree_upto_def level_data_def)
qed

lemma link_level_after:
  assumes chain: "level_chain h None as None" and dist: "distinct as" and as: "as = pre @ t # post"
    and best: "bs_best_level sb = Some b" and b: "h b = Some zb" "\<not> better p (pl_price zb)"
    and nd: "h nd = None" and lp: "storage lp = h(nd \<mapsto> z)"
    and slot: "find_slot better p b (h(nd \<mapsto> z)) = ret t"
  shows "\<exists>h'. link_level better p nd sb lp = ret (sb, lp\<lparr>storage := h'\<rparr>) \<and>
    agree_upto level_data (insert nd (set as)) (h(nd \<mapsto> z)) h' \<and>
    level_chain h' None (pre @ t # nd # post) None"
proof -
  obtain zt where t: "h t = Some zt" "pl_next zt = front post None"
    using chain as by auto
  have nd': "nd \<notin> set as"
    using dlseg_subset_dom [OF chain] nd by blast
  have neq: "t \<noteq> nd" "b \<noteq> nd"
    using nd t b by auto
  define h1 where "h1 = h(nd \<mapsto> z, nd \<mapsto> z\<lparr>pl_next := front post None\<rparr>,
    nd \<mapsto> z\<lparr>pl_next := front post None, pl_prev := Some t\<rparr>)"
  define h2 where "h2 = (case post of [] \<Rightarrow> h1 | q # _ \<Rightarrow> h1(q \<mapsto> (the (h q))\<lparr>pl_prev := Some nd\<rparr>))"
  define h3 where "h3 = h2(t \<mapsto> zt\<lparr>pl_next := Some nd\<rparr>)"
  have h1: "h1 = h(nd \<mapsto> z\<lparr>pl_next := front post None, pl_prev := Some t\<rparr>)"
    by (simp add: h1_def)
  have "level_chain h3 None (pre @ t # nd # post) None"
    unfolding h3_def
    by (rule level_chain_insert [OF _ _ _ t(1) h1 h2_def]) (use chain dist nd' as in auto)
  moreover have "\<exists>zq. h q = Some zq \<and> q \<noteq> nd \<and> q \<noteq> t" if "post = q # qs" for q qs
    using that chain as nd' dist by auto
  then have "link_level better p nd sb lp = ret (sb, lp\<lparr>storage := h3\<rparr>)"
    and "agree_upto level_data (insert nd (set as)) (h(nd \<mapsto> z)) h3"
    using best b slot t neq as
    by (cases post; auto simp: link_level_def lp h1_def h2_def h3_def agree_upto_def level_data_def)+
  ultimately show ?thesis
    by blast
qed

lemma find_slot_new:
  assumes chain: "level_chain h None (b # cs) None" and nd: "h nd = None"
  shows "find_slot better p b (h(nd \<mapsto> z)) = ret (last (b # takeWhile (\<lambda>a. better (price_at h a) p) cs))"
proof -
  have nd': "nd \<notin> set (b # cs)"
    using dlseg_subset_dom [OF chain] nd by blast
  then have "level_chain (h(nd \<mapsto> z)) None (b # cs) None"
    using chain by (metis dlseg_frame)
  moreover have "takeWhile (\<lambda>a. better (price_at (h(nd \<mapsto> z)) a) p) cs =
      takeWhile (\<lambda>a. better (price_at h a) p) cs"
    using nd' by (intro takeWhile_cong) auto
  ultimately show ?thesis
    by (simp add: find_slot_chain)
qed

lemma link_level_chain:
  assumes shape: "side_shape better h sb as" and p: "p \<notin> price_at h ` set as"
    and nd: "h nd = None" and z: "pl_next z = None" "pl_prev z = None"
    and lp: "storage lp = h(nd \<mapsto> z)" and sb1: "bs_best_level sb1 = bs_best_level sb"
  shows "\<exists>sb' h'. link_level better p nd sb1 lp = ret (sb', lp\<lparr>storage := h'\<rparr>) \<and>
    bs_index sb' = bs_index sb1 \<and>
    bs_best_level sb' = front (takeWhile (\<lambda>a. better (price_at h a) p) as @ nd #
       dropWhile (\<lambda>a. better (price_at h a) p) as) None \<and>
    agree_upto level_data (insert nd (set as)) (h(nd \<mapsto> z)) h' \<and>
    level_chain h' None (takeWhile (\<lambda>a. better (price_at h a) p) as @ nd #
       dropWhile (\<lambda>a. better (price_at h a) p) as) None"
proof -
  let ?P = "\<lambda>a. better (price_at h a) p"
  have chain: "level_chain h None as None" and dist: "distinct as"
    and best: "bs_best_level sb1 = front as None"
    using shape sb1 by (auto simp: side_shape_def)
  show ?thesis
  proof (cases "as = [] \<or> \<not> ?P (hd as)")
    case True
    then have split: "takeWhile ?P as = []" "dropWhile ?P as = as"
      by (cases as; simp)+
    have "better p (price_at h (hd as))" if "as \<noteq> []"
      using True that p better_total by (cases as) auto
    from link_level_front [OF chain dist best nd z lp this]
    obtain h' where h': "link_level better p nd sb1 lp =
        ret (sb1\<lparr>bs_best_level := Some nd\<rparr>, lp\<lparr>storage := h'\<rparr>)"
      "agree_upto level_data (insert nd (set as)) (h(nd \<mapsto> z)) h'" "level_chain h' None (nd # as) None"
      by blast
    then show ?thesis
      by (intro exI [of _ "sb1\<lparr>bs_best_level := Some nd\<rparr>"] exI [of _ h']) (simp add: split)
  next
    case False
    then obtain b cs where as: "as = b # cs" and Pb: "?P b"
      by (cases as) auto
    then obtain zb where b: "h b = Some zb" "\<not> better p (pl_price zb)"
      using chain better_asym by (auto simp: price_at_def)
    define t where "t = last (takeWhile ?P as)"
    define pre where "pre = butlast (takeWhile ?P as)"
    have tw: "takeWhile ?P as = pre @ [t]"
      using as Pb by (simp add: pre_def t_def)
    have split: "as = pre @ t # dropWhile ?P as"
      using takeWhile_dropWhile_id [of ?P as] by (simp add: tw)
    have slot: "find_slot better p b (h(nd \<mapsto> z)) = ret t"
      using find_slot_new [of h b cs nd p z] nd chain as Pb by (simp add: t_def)
    have b1: "bs_best_level sb1 = Some b"
      using best as by simp
    from link_level_after [OF chain dist split b1 b nd lp slot]
    obtain h' where h': "link_level better p nd sb1 lp = ret (sb1, lp\<lparr>storage := h'\<rparr>)"
      "agree_upto level_data (insert nd (set as)) (h(nd \<mapsto> z)) h'"
      "level_chain h' None (takeWhile ?P as @ nd # dropWhile ?P as) None"
      by (auto simp: tw simp del: dlseg_append dlseg.simps)
    moreover have "front (takeWhile ?P as @ nd # dropWhile ?P as) None = Some b"
      using as Pb by simp
    ultimately show ?thesis
      using b1 by metis
  qed
qed

lemma create_level_shape:
  assumes shape: "side_shape better (storage lp) sb as" and p: "p \<notin> price_at (storage lp) ` set as"
    and inv: "pool_inv cap lp" and room: "free_list lp \<noteq> []"
  shows "\<exists>nd sb' lp'. create_level better p sb lp = ret (nd, sb', lp') \<and> storage lp nd = None \<and>
    agree_upto level_data (insert nd (set as))
      ((storage lp)(nd \<mapsto> price_level_default\<lparr>pl_price := p\<rparr>)) (storage lp') \<and>
    side_shape better (storage lp') sb'
      (takeWhile (\<lambda>a. better (price_at (storage lp) a) p) as @ nd #
       dropWhile (\<lambda>a. better (price_at (storage lp) a) p) as) \<and>
    pool_inv cap lp' \<and> free_list lp' = butlast (free_list lp)"
proof -
  let ?h = "storage lp" and ?P = "\<lambda>a. better (price_at (storage lp) a) p"
  let ?z = "price_level_default\<lparr>pl_price := p\<rparr>"
  obtain nd where alloc: "pool_allocate price_level_default lp = ret (nd,
      lp\<lparr>storage := ?h(nd \<mapsto> price_level_default), free_list := butlast (free_list lp)\<rparr>)"
    and fresh: "?h nd = None"
    and inv1: "pool_inv cap (lp\<lparr>storage := ?h(nd \<mapsto> price_level_default),
                                free_list := butlast (free_list lp)\<rparr>)"
    by (rule pool_allocate_ok [OF inv room])
  define lp2 where "lp2 = lp\<lparr>free_list := butlast (free_list lp), storage := ?h(nd \<mapsto> ?z)\<rparr>"
  have z_eq: "price_level_default\<lparr>pl_price := p, pl_total_qty := Quantity 0, pl_order_count := 0,
      pl_next := None, pl_prev := None\<rparr> = ?z"
    by (simp add: price_level_default_def)
  have "pool_assign nd (\<lambda>z. z\<lparr>pl_price := p, pl_total_qty := Quantity 0, pl_order_count := 0,
      pl_next := None, pl_prev := None\<rparr>)
      (lp\<lparr>storage := ?h(nd \<mapsto> price_level_default), free_list := butlast (free_list lp)\<rparr>) = ret lp2"
    by (simp add: lp2_def z_eq)
  then have start: "create_level better p sb lp =
      bind_run (link_level better p nd (sb\<lparr>bs_index := index_insert p nd (bs_index sb)\<rparr>) lp2)
       (\<lambda>(sb1, lp3). ret (nd, sb1, lp3))"
    by (simp add: create_level_def alloc)
  let ?sb = "sb\<lparr>bs_index := index_insert p nd (bs_index sb)\<rparr>"
  let ?as = "takeWhile ?P as @ nd # dropWhile ?P as"
  obtain sb' h' where link: "link_level better p nd ?sb lp2 = ret (sb', lp2\<lparr>storage := h'\<rparr>)"
    and sb': "bs_index sb' = (bs_index sb)(p \<mapsto> nd)" "bs_best_level sb' = front ?as None"
    and agree: "agree_upto level_data (insert nd (set as)) (?h(nd \<mapsto> ?z)) h'"
    and chain': "level_chain h' None ?as None"
    using link_level_chain [OF shape p fresh, of ?z lp2 ?sb]
    by (auto simp: lp2_def price_level_default_def index_insert_def)
  have nd: "nd \<notin> set as" and sub: "set as \<subseteq> dom ?h"
    using side_shape_live [OF shape] fresh by force+
  have "price_at h' a = price_at (?h(nd \<mapsto> ?z)) a" if "a \<in> insert nd (set as)" for a
    using that sub by (intro price_at_agree [OF agree]) auto
  then have shape': "side_shape better h' sb' ?as"
    using nd by (intro side_shape_inserted [OF shape p refl refl _ _ nd chain' sb'(2,1)]) auto
  have "pool_inv cap (lp2\<lparr>storage := h'\<rparr>)"
    using pool_inv_storage [OF inv1, of h'] agree_upto_dom [OF agree] by (simp add: lp2_def)
  then show ?thesis
    using start link fresh agree shape' by (auto simp: lp2_def)
qed

text \<open>Unlinking and deleting a level.\<close>

lemma side_shape_removed:
  assumes shape: "side_shape better h sb (as1 @ nd # as2)"
    and prices: "\<And>a. a \<in> set (as1 @ as2) \<Longrightarrow> price_at h' a = price_at h a"
    and chain: "level_chain h' None (as1 @ as2) None"
    and best: "bs_best_level sb' = front (as1 @ as2) None"
    and index: "bs_index sb' = (bs_index sb)(price_at h nd := None)"
  shows "side_shape better h' sb' (as1 @ as2)"
proof -
  have maps: "map (price_at h') as1 = map (price_at h) as1" "map (price_at h') as2 = map (price_at h) as2"
    "map (\<lambda>a. (price_at h' a, a)) as1 = map (\<lambda>a. (price_at h a, a)) as1"
    "map (\<lambda>a. (price_at h' a, a)) as2 = map (\<lambda>a. (price_at h a, a)) as2"
    using prices by auto
  have sorted: "sorted_wrt better (map (price_at h) (as1 @ nd # as2))"
    using shape by (simp add: side_shape_def)
  then have "price_at h nd \<notin> price_at h ` set (as1 @ as2)"
    using better_irrefl by (force simp: sorted_wrt_append)
  then have "map_of (map (\<lambda>a. (price_at h' a, a)) (as1 @ as2)) =
      (map_of (map (\<lambda>a. (price_at h a, a)) (as1 @ nd # as2)))(price_at h nd := None)"
    using map_of_delete_mid [of "price_at h nd" "map (\<lambda>a. (price_at h a, a)) as1"
        "map (\<lambda>a. (price_at h a, a)) as2" nd]
    by (force simp: maps simp del: map_of_append)
  then show ?thesis
    using shape chain best index sorted by (auto simp: side_shape_def maps sorted_wrt_append)
qed

end

interpretation bid_order: price_priority "(>)"
  by unfold_locales auto

interpretation ask_order: price_priority "(<)"
  by unfold_locales auto

context price_priority
begin

lemma unlink_level_chain:
  assumes shape: "side_shape better (storage lp) sb (as1 @ nd # as2)"
    and nd: "storage lp nd = Some z" and sb1: "bs_best_level sb1 = bs_best_level sb"
  shows "\<exists>sb' h'. unlink_level nd z sb1 lp = ret (sb', lp\<lparr>storage := h'\<rparr>) \<and>
    bs_index sb' = bs_index sb1 \<and> bs_best_level sb' = front (as1 @ as2) None \<and>
    agree_upto level_data (set (as1 @ as2)) (storage lp) h' \<and> level_chain h' None (as1 @ as2) None"
proof -
  let ?h = "storage lp"
  have chain: "level_chain ?h None (as1 @ nd # as2) None" and dist: "distinct (as1 @ nd # as2)"
    and best: "bs_best_level sb1 = front (as1 @ nd # as2) None"
    using shape sb1 by (auto simp: side_shape_def)
  have first: "Some nd = bs_best_level sb1 \<longleftrightarrow> as1 = []"
    using best dist by (cases as1) auto
  define h1 where "h1 = (if as1 = [] then ?h
    else ?h(last as1 \<mapsto> (the (?h (last as1)))\<lparr>pl_next := front as2 None\<rparr>))"
  define h2 where "h2 = (case as2 of [] \<Rightarrow> h1 | q # _ \<Rightarrow> h1(q \<mapsto> (the (h1 q))\<lparr>pl_prev := rear None as1\<rparr>))"
  have "level_chain h2 None (as1 @ as2) None"
    by (rule level_chain_delete [OF chain dist h1_def h2_def])
  moreover have "agree_upto level_data (set (as1 @ as2)) ?h h2"
    using chain dist
    by (cases as1 rule: rev_cases; cases as2) (auto simp: h1_def h2_def agree_upto_def level_data_def)
  moreover have "\<exists>sb'. unlink_level nd z sb1 lp = ret (sb', lp\<lparr>storage := h2\<rparr>) \<and>
      bs_index sb' = bs_index sb1 \<and> bs_best_level sb' = front (as1 @ as2) None"
    using chain dist best nd first
    by (cases as1 rule: rev_cases; cases as2) (auto simp: h1_def h2_def unlink_level_def)
  ultimately show ?thesis
    by blast
qed

lemma remove_level_shape:
  assumes shape: "side_shape better (storage lp) sb (as1 @ nd # as2)"
    and inv: "pool_inv LEVEL_POOL_CAPACITY lp"
  shows "\<exists>sb' lp'. remove_level (Some nd) sb lp = ret (sb', lp') \<and>
    agree_upto level_data (set (as1 @ as2)) ((storage lp)(nd := None)) (storage lp') \<and>
    side_shape better (storage lp') sb' (as1 @ as2) \<and> pool_inv LEVEL_POOL_CAPACITY lp' \<and>
    free_list lp' = free_list lp @ [nd]"
proof -
  let ?h = "storage lp"
  obtain z where z: "?h nd = Some z"
    using side_shape_live [OF shape, of nd] by auto
  let ?sb = "sb\<lparr>bs_index := index_erase (pl_price z) (bs_index sb)\<rparr>"
  obtain sb' h' where unlink: "unlink_level nd z ?sb lp = ret (sb', lp\<lparr>storage := h'\<rparr>)"
    and sb': "bs_index sb' = (bs_index sb)(price_at ?h nd := None)" "bs_best_level sb' = front (as1 @ as2) None"
    and agree: "agree_upto level_data (set (as1 @ as2)) ?h h'"
    and chain: "level_chain h' None (as1 @ as2) None"
    using unlink_level_chain [OF shape z, of ?sb] z
    by (auto simp: index_erase_def price_at_def simp del: dlseg_append)
  have nd: "nd \<notin> set (as1 @ as2)" and sub: "set (as1 @ as2) \<subseteq> dom ?h"
    using shape side_shape_live [OF shape] by (auto simp: side_shape_def)
  have z': "h' nd = Some z"
    using agree_upto_outside [OF agree nd] z by simp
  have inv': "pool_inv LEVEL_POOL_CAPACITY (lp\<lparr>storage := h'\<rparr>)"
    using inv agree_upto_dom [OF agree] by (rule pool_inv_storage)
  let ?lp = "lp\<lparr>storage := h'(nd := None), free_list := free_list lp @ [nd]\<rparr>"
  have dealloc: "pool_deallocate LEVEL_POOL_CAPACITY (Some (int nd)) (lp\<lparr>storage := h'\<rparr>) = ret ?lp"
    and inv2: "pool_inv LEVEL_POOL_CAPACITY ?lp"
    using pool_deallocate_live [OF inv', of nd z] z' by simp_all
  have "price_at h' a = price_at ?h a" if "a \<in> set (as1 @ as2)" for a
    using that sub by (intro price_at_agree [OF agree]) auto
  then have "side_shape better h' sb' (as1 @ as2)"
    by (intro side_shape_removed [OF shape _ chain sb'(2,1)]) auto
  then have "side_shape better (h'(nd := None)) sb' (as1 @ as2)"
    using nd by (subst side_shape_frame [of _ _ h']) auto
  moreover have "agree_upto level_data (set (as1 @ as2)) (?h(nd := None)) (h'(nd := None))"
    using agree by (auto simp: agree_upto_def)
  ultimately show ?thesis
    using z unlink dealloc inv2 by (simp add: remove_level_def)
qed

end

text \<open>\<open>clear\<close> frees exactly the orders and the levels of the side.\<close>

lemma clear_orders_chain:
  assumes "order_chain (storage op) p xs None" and "distinct xs" and "pool_inv ORDER_POOL_CAPACITY op"
  shows "\<exists>op'. clear_orders (front xs None) op = ret op' \<and> pool_inv ORDER_POOL_CAPACITY op' \<and>
    storage op' = (\<lambda>a. if a \<in> set xs then None else storage op a)"
  using assms
proof (induction xs arbitrary: p op)
  case Nil
  then show ?case
    by (subst clear_orders.simps) simp
next
  case (Cons x xs)
  then obtain z where z: "storage op x = Some z" "lo_next z = front xs None"
    and rest: "order_chain (storage op) (Some x) xs None"
    by auto
  let ?op = "op\<lparr>storage := (storage op)(x := None), free_list := free_list op @ [x]\<rparr>"
  note dealloc = pool_deallocate_live [OF Cons.prems(3) z(1)]
  have "order_chain (storage ?op) (Some x) xs None"
    using rest Cons.prems(2) by simp
  from Cons.IH [OF this _ dealloc(2)] Cons.prems(2)
  obtain op' where "clear_orders (front xs None) ?op = ret op'" "pool_inv ORDER_POOL_CAPACITY op'"
    "storage op' = (\<lambda>a. if a \<in> set xs then None else storage ?op a)"
    by auto
  then show ?case
    by (subst clear_orders.simps) (auto simp: z dealloc(1) fun_eq_iff)
qed

lemma clear_levels_chain:
  assumes "level_chain (storage lp) p (map fst gs) None" and "distinct (map fst gs)"
    and "\<forall>(a, xs) \<in> set gs. il_rep (storage op) (pl_orders (the (storage lp a))) xs"
    and "distinct (concat (map snd gs))"
    and "pool_inv LEVEL_POOL_CAPACITY lp" and "pool_inv ORDER_POOL_CAPACITY op"
  shows "\<exists>lp' op'. clear_levels (front (map fst gs) None) lp op = ret (lp', op') \<and>
    pool_inv LEVEL_POOL_CAPACITY lp' \<and> pool_inv ORDER_POOL_CAPACITY op' \<and>
    storage lp' = (\<lambda>a. if a \<in> set (map fst gs) then None else storage lp a) \<and>
    storage op' = (\<lambda>x. if x \<in> set (concat (map snd gs)) then None else storage op x)"
  using assms
proof (induction gs arbitrary: p lp op)
  case Nil
  then show ?case
    by (subst clear_levels.simps) simp
next
  case (Cons g gs)
  obtain a xs where g: "g = (a, xs)"
    by (cases g)
  then obtain z where z: "storage lp a = Some z" "pl_next z = front (map fst gs) None"
    and rest: "level_chain (storage lp) (Some a) (map fst gs) None"
    using Cons.prems(1) by auto
  have rep: "il_rep (storage op) (pl_orders z) xs"
    using Cons.prems(3) z g by auto
  then obtain op1 where op1: "clear_orders (il_head (pl_orders z)) op = ret op1"
    "pool_inv ORDER_POOL_CAPACITY op1"
    "storage op1 = (\<lambda>a. if a \<in> set xs then None else storage op a)"
    using clear_orders_chain [of op None xs] Cons.prems(6) by (auto simp: il_rep_def)
  let ?lp = "lp\<lparr>storage := (storage lp)(a := None), free_list := free_list lp @ [a]\<rparr>"
  note dealloc = pool_deallocate_live [OF Cons.prems(5) z(1)]
  have chain1: "level_chain (storage ?lp) (Some a) (map fst gs) None"
    using rest Cons.prems(2) g by simp
  have "il_rep (storage op1) (pl_orders (the (storage ?lp b))) ys" if "(b, ys) \<in> set gs" for b ys
  proof -
    have "set xs \<inter> set ys = {}" and "b \<noteq> a"
      using Cons.prems(2,4) that g by force+
    moreover have "il_rep (storage op) (pl_orders (the (storage lp b))) ys"
      using that Cons.prems(3) by auto
    ultimately show ?thesis
      by (subst il_rep_cong [of ys _ "storage op"]) (auto simp: op1(3))
  qed
  then have reps: "\<forall>(b, ys) \<in> set gs. il_rep (storage op1) (pl_orders (the (storage ?lp b))) ys"
    by blast
  from Cons.IH [OF chain1 _ reps _ dealloc(2) op1(2)] Cons.prems(2,4) g
  obtain lp' op' where "clear_levels (front (map fst gs) None) ?lp op1 = ret (lp', op')"
    "pool_inv LEVEL_POOL_CAPACITY lp'" "pool_inv ORDER_POOL_CAPACITY op'"
    "storage lp' = (\<lambda>b. if b \<in> set (map fst gs) then None else storage ?lp b)"
    "storage op' = (\<lambda>x. if x \<in> set (concat (map snd gs)) then None else storage op1 x)"
    by auto
  then show ?case
    by (subst clear_levels.simps) (auto simp: g z op1 dealloc(1) fun_eq_iff)
qed

text \<open>The assertions of \<open>verify_invariants\<close> hold of every side with the right shape.\<close>

lemma verify_levels_chain:
  assumes "level_chain h p as None" and "sorted_wrt better (map (price_at h) as)"
    and "\<And>q r. better q r \<Longrightarrow> not_worse r q"
    and "\<And>a z. a \<in> set as \<Longrightarrow> h a = Some z \<Longrightarrow> il_head (pl_orders z) \<noteq> None \<and> il_tail (pl_orders z) \<noteq> None"
    and "as \<noteq> [] \<Longrightarrow> not_worse (price_at h (hd as)) prev_price"
  shows "verify_levels not_worse prev_price (front as None) h = ret ()"
  using assms
proof (induction as arbitrary: p prev_price)
  case Nil
  show ?case
    by (subst verify_levels.simps) simp
next
  case (Cons a as)
  then obtain z where z: "h a = Some z" "pl_next z = front as None"
    and rest: "level_chain h (Some a) as None"
    by auto
  have "not_worse (pl_price z) prev_price"
    using Cons.prems(5) z by (simp add: price_at_def)
  moreover have "il_head (pl_orders z) \<noteq> None" "il_tail (pl_orders z) \<noteq> None"
    using Cons.prems(4) z by auto
  moreover have "(case pl_next z of None \<Rightarrow> ret ()
      | Some q \<Rightarrow> bind_run (deref q h) (\<lambda>y. assert_run (pl_prev y = Some a))) = ret ()"
    using rest z by (cases as) (auto simp: assert_run_def)
  moreover have "not_worse (price_at h (hd as)) (pl_price z)" if "as \<noteq> []"
    using that Cons.prems(2,3) z by (cases as) (auto simp: price_at_def)
  then have "verify_levels not_worse (pl_price z) (front as None) h = ret ()"
    using Cons.prems(2) by (intro Cons.IH [OF rest _ Cons.prems(3,4)]) auto
  ultimately show ?case
    using z by (subst verify_levels.simps) (simp add: assert_run_def level_has_orders_def il_empty_def)
qed

lemma side_verify_shape:
  assumes shape: "side_shape better h sb as"
    and rel: "\<And>q r. better q r \<Longrightarrow> not_worse r q" "\<And>q. not_worse q q"
    and orders: "\<And>a z. a \<in> set as \<Longrightarrow> h a = Some z \<Longrightarrow>
      il_head (pl_orders z) \<noteq> None \<and> il_tail (pl_orders z) \<noteq> None"
  shows "side_verify_invariants not_worse sb h = ret ()"
proof (cases as)
  case Nil
  then show ?thesis
    using shape by (simp add: side_shape_def side_verify_invariants_def assert_run_def)
next
  case (Cons a bs)
  then obtain z where z: "h a = Some z" "pl_prev z = None" "bs_best_level sb = Some a"
    using shape by (auto simp: side_shape_def)
  have "verify_levels not_worse (pl_price z) (front as None) h = ret ()"
    using shape z rel Cons orders
    by (intro verify_levels_chain [where better = better and p = None])
      (auto simp: side_shape_def price_at_def)
  then show ?thesis
    using z Cons by (simp add: side_verify_invariants_def assert_run_def)
qed

end
