(* ===== verification/Order_Book.thy ===== *)
theory Order_Book
  imports Book_Side
begin

text \<open>
  \<open>LimitOrderBook\<close> of \<open>matching/order_book/order_book.cpp\<close> with its \<open>OrderLookup\<close>: the two
  sides of the book, the hash map from order ids to resting orders, and the two object pools
  that hold levels and orders. Calls of the listener are recorded in the order they are made.
\<close>

section \<open>Model\<close>

datatype book_event =
    OrderInserted live_order
  | OrderCancelled live_order
  | OrderFilled live_order quantity
  | PriceLevelCreated price side
  | PriceLevelRemoved price side

subsection \<open>\<open>OrderLookup\<close>\<close>

type_synonym order_lookup = "u64 \<rightharpoonup> addr"

definition lookup_find :: "order_id \<Rightarrow> order_lookup \<Rightarrow> addr option" where
  "lookup_find i m = m (get_id i)"

definition lookup_insert :: "order_id \<Rightarrow> addr \<Rightarrow> order_lookup \<Rightarrow> order_lookup" where
  "lookup_insert i x m = m(get_id i \<mapsto> x)"

definition lookup_erase :: "order_id \<Rightarrow> order_lookup \<Rightarrow> order_lookup" where
  "lookup_erase i m = m(get_id i := None)"

subsection \<open>The book and what its operations share\<close>

record order_book =
  ob_listener :: bool    \<comment> \<open>whether \<open>listener_\<close> is set\<close>
  ob_events :: "book_event list"
  ob_bids :: book_side
  ob_asks :: book_side
  ob_lookup :: order_lookup
  ob_level_pool :: level_pool
  ob_order_pool :: order_pool

abbreviation level_mem :: "order_book \<Rightarrow> level_heap" where
  "level_mem b \<equiv> storage (ob_level_pool b)"

abbreviation order_mem :: "order_book \<Rightarrow> order_heap" where
  "order_mem b \<equiv> storage (ob_order_pool b)"

definition book_new :: "bool \<Rightarrow> order_book" where
  "book_new listener =
     \<lparr>ob_listener = listener, ob_events = [], ob_bids = side_new, ob_asks = side_new,
      ob_lookup = Map.empty, ob_level_pool = pool_new LEVEL_POOL_CAPACITY,
      ob_order_pool = pool_new ORDER_POOL_CAPACITY\<rparr>"

definition notify :: "book_event \<Rightarrow> order_book \<Rightarrow> order_book" where
  "notify e b = (if ob_listener b then b\<lparr>ob_events := ob_events b @ [e]\<rparr> else b)"

definition upd_level :: "addr \<Rightarrow> (price_level_node \<Rightarrow> price_level_node) \<Rightarrow> order_book \<Rightarrow> order_book run" where
  "upd_level a f b = bind_run (pool_assign a f (ob_level_pool b)) (\<lambda>lp. ret (b\<lparr>ob_level_pool := lp\<rparr>))"

definition upd_order :: "addr \<Rightarrow> (live_order \<Rightarrow> live_order) \<Rightarrow> order_book \<Rightarrow> order_book run" where
  "upd_order x f b = bind_run (pool_assign x f (ob_order_pool b)) (\<lambda>op. ret (b\<lparr>ob_order_pool := op\<rparr>))"

text \<open>\<open>level->orders.append(order)\<close> and \<open>level->orders.remove(order)\<close>.\<close>

definition level_append :: "addr \<Rightarrow> addr \<Rightarrow> order_book \<Rightarrow> order_book run" where
  "level_append a x b =
     bind_run (deref a (level_mem b)) (\<lambda>z.
     bind_run (il_append (Some x) (pl_orders z) (order_mem b)) (\<lambda>(l, h).
     upd_level a (\<lambda>z. z\<lparr>pl_orders := l\<rparr>) (b\<lparr>ob_order_pool := (ob_order_pool b)\<lparr>storage := h\<rparr>\<rparr>)))"

definition level_remove :: "addr \<Rightarrow> addr \<Rightarrow> order_book \<Rightarrow> order_book run" where
  "level_remove a x b =
     bind_run (deref a (level_mem b)) (\<lambda>z.
     bind_run (il_remove (Some x) (pl_orders z) (order_mem b)) (\<lambda>(l, h).
     upd_level a (\<lambda>z. z\<lparr>pl_orders := l\<rparr>) (b\<lparr>ob_order_pool := (ob_order_pool b)\<lparr>storage := h\<rparr>\<rparr>)))"

text \<open>The level of an order that rests in the book, and its side: bids are asked first.\<close>

definition locate_level :: "price \<Rightarrow> order_book \<Rightarrow> (addr \<times> side) run" where
  "locate_level p b =
     (case find_level p (ob_bids b) of
        Some a \<Rightarrow> ret (a, Buy)
      | None \<Rightarrow>
          (case find_level p (ob_asks b) of
             Some a \<Rightarrow> ret (a, Sell)
           | None \<Rightarrow> fail AssertFailed))"

text \<open>The level of a new order, created if there is none.\<close>

definition level_for :: "side \<Rightarrow> price \<Rightarrow> order_book \<Rightarrow> (addr \<times> order_book) run" where
  "level_for s p b =
     (if s = Buy then
        (case find_level p (ob_bids b) of
           Some a \<Rightarrow> ret (a, b)
         | None \<Rightarrow>
             bind_run (bid_create_level p (ob_bids b) (ob_level_pool b)) (\<lambda>(a, sb, lp).
             ret (a, notify (PriceLevelCreated p Buy) (b\<lparr>ob_bids := sb, ob_level_pool := lp\<rparr>))))
      else
        (case find_level p (ob_asks b) of
           Some a \<Rightarrow> ret (a, b)
         | None \<Rightarrow>
             bind_run (ask_create_level p (ob_asks b) (ob_level_pool b)) (\<lambda>(a, sb, lp).
             ret (a, notify (PriceLevelCreated p Sell) (b\<lparr>ob_asks := sb, ob_level_pool := lp\<rparr>)))))"

text \<open>The clean-up of a level that has lost an order \<open>x\<close>.\<close>

definition drop_empty_level :: "addr \<Rightarrow> side \<Rightarrow> addr \<Rightarrow> order_book \<Rightarrow> order_book run" where
  "drop_empty_level a s x b =
     bind_run (deref a (level_mem b)) (\<lambda>z.
     if level_empty z then
       bind_run
         (if s = Buy then
            bind_run (remove_level (Some a) (ob_bids b) (ob_level_pool b)) (\<lambda>(sb, lp).
            ret (b\<lparr>ob_bids := sb, ob_level_pool := lp\<rparr>))
          else
            bind_run (remove_level (Some a) (ob_asks b) (ob_level_pool b)) (\<lambda>(sb, lp).
            ret (b\<lparr>ob_asks := sb, ob_level_pool := lp\<rparr>))) (\<lambda>b1.
       bind_run (deref x (order_mem b1)) (\<lambda>y.
       ret (notify (PriceLevelRemoved (lo_price y) s) b1)))
     else ret b)"

text \<open>\<open>lookup_.erase(id); order_pool_.deallocate(order);\<close>\<close>

definition release_order :: "order_id \<Rightarrow> addr \<Rightarrow> order_book \<Rightarrow> order_book run" where
  "release_order i x b =
     bind_run (pool_deallocate ORDER_POOL_CAPACITY (Some (int x)) (ob_order_pool b)) (\<lambda>op.
     ret (b\<lparr>ob_lookup := lookup_erase i (ob_lookup b), ob_order_pool := op\<rparr>))"

subsection \<open>The operations\<close>

text \<open>Steps 1 and 2 of \<open>insert\<close>: the order object is made and put into the lookup table.\<close>

definition stage_order :: "order \<Rightarrow> u64 \<Rightarrow> order_book \<Rightarrow> (addr \<times> order_book) run" where
  "stage_order ord priority_seq b =
     bind_run (pool_allocate live_order_default (ob_order_pool b)) (\<lambda>(x, op).
     bind_run (upd_order x (\<lambda>z. z\<lparr>lo_key := OrderKey (ord_symbol_id ord) (ord_order_id ord),
         lo_price := ord_price ord, lo_remaining_qty := ord_qty ord,
         lo_priority_seq := priority_seq, lo_next := None, lo_prev := None\<rparr>)
       (b\<lparr>ob_order_pool := op\<rparr>)) (\<lambda>b1.
     ret (x, b1\<lparr>ob_lookup := lookup_insert (ord_order_id ord) x (ob_lookup b1)\<rparr>)))"

text \<open>Step 4: the order joins the queue of its level.\<close>

definition enqueue_order :: "addr \<Rightarrow> addr \<Rightarrow> quantity \<Rightarrow> order_book \<Rightarrow> order_book run" where
  "enqueue_order a x qty b =
     bind_run (level_append a x b) (\<lambda>b1.
     bind_run (upd_level a (\<lambda>z. z\<lparr>pl_total_qty := pl_total_qty z + qty\<rparr>) b1) (\<lambda>b2.
     upd_level a (\<lambda>z. z\<lparr>pl_order_count := pl_order_count z + 1\<rparr>) b2))"

definition book_insert :: "order \<Rightarrow> u64 \<Rightarrow> order_book \<Rightarrow> (addr \<times> order_book) run" where
  "book_insert ord priority_seq b =
     bind_run (stage_order ord priority_seq b) (\<lambda>(x, b1).
     bind_run (level_for (ord_side ord) (ord_price ord) b1) (\<lambda>(a, b2).
     bind_run (enqueue_order a x (ord_qty ord) b2) (\<lambda>b3.
     bind_run (deref x (order_mem b3)) (\<lambda>z.
     ret (x, notify (OrderInserted z) b3)))))"

definition book_cancel :: "order_id \<Rightarrow> order_book \<Rightarrow> (bool \<times> order_book) run" where
  "book_cancel i b =
     (case lookup_find i (ob_lookup b) of
        None \<Rightarrow> ret (False, b)
      | Some x \<Rightarrow>
          bind_run (deref x (order_mem b)) (\<lambda>z.
          bind_run (locate_level (lo_price z) b) (\<lambda>(a, s).
          bind_run (level_remove a x b) (\<lambda>b1.
          bind_run (deref x (order_mem b1)) (\<lambda>z1.
          bind_run (upd_level a (\<lambda>y. y\<lparr>pl_total_qty := pl_total_qty y - lo_remaining_qty z1\<rparr>) b1) (\<lambda>b2.
          bind_run (upd_level a (\<lambda>y. y\<lparr>pl_order_count := pl_order_count y - 1\<rparr>) b2) (\<lambda>b3.
          bind_run (deref x (order_mem b3)) (\<lambda>z3.
          bind_run (drop_empty_level a s x (notify (OrderCancelled z3) b3)) (\<lambda>b4.
          bind_run (release_order i x b4) (\<lambda>b5.
          ret (True, b5)))))))))))"

definition book_modify_qty :: "order_id \<Rightarrow> quantity \<Rightarrow> u64 \<Rightarrow> order_book \<Rightarrow> (bool \<times> order_book) run" where
  "book_modify_qty i new_qty priority_seq b =
     (case lookup_find i (ob_lookup b) of
        None \<Rightarrow> ret (False, b)
      | Some x \<Rightarrow>
          bind_run (deref x (order_mem b)) (\<lambda>z.
          bind_run (locate_level (lo_price z) b) (\<lambda>(a, s).
          if new_qty < lo_remaining_qty z then
            bind_run (upd_level a (\<lambda>y. y\<lparr>pl_total_qty := pl_total_qty y - (lo_remaining_qty z - new_qty)\<rparr>) b) (\<lambda>b1.
            bind_run (upd_order x (\<lambda>y. y\<lparr>lo_remaining_qty := new_qty\<rparr>) b1) (\<lambda>b2.
            ret (True, b2)))
          else if new_qty > lo_remaining_qty z then
            bind_run (upd_level a (\<lambda>y. y\<lparr>pl_total_qty := pl_total_qty y + (new_qty - lo_remaining_qty z)\<rparr>) b) (\<lambda>b1.
            bind_run (upd_order x (\<lambda>y. y\<lparr>lo_remaining_qty := new_qty, lo_priority_seq := priority_seq\<rparr>) b1) (\<lambda>b2.
            bind_run (level_remove a x b2) (\<lambda>b3.
            bind_run (level_append a x b3) (\<lambda>b4.
            ret (True, b4)))))
          else ret (True, b))))"

definition book_fill_order :: "addr option \<Rightarrow> quantity \<Rightarrow> order_book \<Rightarrow> order_book run" where
  "book_fill_order ptr filled_qty b =
     (case ptr of
        None \<Rightarrow> fail AssertFailed
      | Some x \<Rightarrow>
          bind_run (deref x (order_mem b)) (\<lambda>z.
          bind_run (assert_run (filled_qty \<le> lo_remaining_qty z)) (\<lambda>_.
          bind_run (locate_level (lo_price z) b) (\<lambda>(a, s).
          bind_run (upd_level a (\<lambda>y. y\<lparr>pl_total_qty := pl_total_qty y - filled_qty\<rparr>) b) (\<lambda>b1.
          bind_run (upd_order x (\<lambda>y. y\<lparr>lo_remaining_qty := lo_remaining_qty y - filled_qty\<rparr>) b1) (\<lambda>b2.
          bind_run (deref x (order_mem b2)) (\<lambda>z2.
          let b3 = notify (OrderFilled z2 filled_qty) b2 in
          if units (lo_remaining_qty z2) = 0 then
            bind_run (level_remove a x b3) (\<lambda>b4.
            bind_run (upd_level a (\<lambda>y. y\<lparr>pl_order_count := pl_order_count y - 1\<rparr>) b4) (\<lambda>b5.
            bind_run (drop_empty_level a s x b5) (\<lambda>b6.
            bind_run (deref x (order_mem b6)) (\<lambda>z6.
            release_order (key_order_id (lo_key z6)) x b6))))
          else ret b3)))))))"

definition book_best_bid :: "order_book \<Rightarrow> price run" where
  "book_best_bid b =
     (case bs_best_level (ob_bids b) of
        None \<Rightarrow> ret (Price 0)
      | Some a \<Rightarrow> bind_run (deref a (level_mem b)) (\<lambda>z. ret (pl_price z)))"

definition book_best_ask :: "order_book \<Rightarrow> price run" where
  "book_best_ask b =
     (case bs_best_level (ob_asks b) of
        None \<Rightarrow> ret (Price 0)
      | Some a \<Rightarrow> bind_run (deref a (level_mem b)) (\<lambda>z. ret (pl_price z)))"

definition book_find_order :: "order_id \<Rightarrow> order_book \<Rightarrow> addr option" where
  "book_find_order i b = lookup_find i (ob_lookup b)"

definition book_clear :: "order_book \<Rightarrow> order_book run" where
  "book_clear b =
     bind_run (side_clear (ob_bids b) (ob_level_pool b) (ob_order_pool b)) (\<lambda>(sb, lp, op).
     bind_run (side_clear (ob_asks b) lp op) (\<lambda>(sa, lp1, op1).
     ret (b\<lparr>ob_bids := sb, ob_asks := sa, ob_level_pool := lp1, ob_order_pool := op1,
            ob_lookup := Map.empty\<rparr>)))"

definition book_verify_invariants :: "order_book \<Rightarrow> unit run" where
  "book_verify_invariants b =
     bind_run (bid_verify_invariants (ob_bids b) (level_mem b)) (\<lambda>_.
     ask_verify_invariants (ob_asks b) (level_mem b))"

end
