(* ===== verification/Execution.thy ===== *)
theory Execution
  imports Domain
begin

text \<open>
  What the matching engine writes besides the book: \<open>ExecutionReport\<close>, \<open>ExecutionContext\<close>
  (\<open>matching/include/matching\<close>), \<open>TradeBuilder\<close> (\<open>matching/src/trade_builder.cpp\<close>),
  \<open>MatchingStatistics\<close> and \<open>MatchingResult\<close>. The context is two fixed arrays with fill
  counts; the lemmas show what a reader of the filled part sees.
\<close>

section \<open>Model\<close>

record execution_report =
  er_exec_id :: execution_id
  er_order_id :: order_id
  er_price :: price
  er_last_qty :: quantity
  er_remaining_qty :: quantity
  er_timestamp :: u64
  er_client_id :: client_id
  er_account_id :: account_id
  er_symbol_id :: symbol_id
  er_reject_reason :: reject_reason
  er_exec_type :: execution_type

definition report_default :: execution_report where
  "report_default =
     \<lparr>er_exec_id = StrongId 0, er_order_id = StrongId 0, er_price = Price 0, er_last_qty = Quantity 0,
      er_remaining_qty = Quantity 0, er_timestamp = 0, er_client_id = StrongId 0,
      er_account_id = StrongId 0, er_symbol_id = StrongId 0, er_reject_reason = RejectNone,
      er_exec_type = ExecNew\<rparr>"

definition trade_default :: trade where
  "trade_default =
     \<lparr>tr_trade_id = StrongId 0, tr_buy_order_id = StrongId 0, tr_sell_order_id = StrongId 0,
      tr_price = Price 0, tr_qty = Quantity 0, tr_timestamp = 0, tr_symbol_id = StrongId 0\<rparr>"

subsection \<open>\<open>ExecutionContext\<close>\<close>

definition MAX_TRADES :: nat where "MAX_TRADES = 128"
definition MAX_REPORTS :: nat where "MAX_REPORTS = 256"

record execution_context =
  ctx_trades :: "trade list"              \<comment> \<open>array of \<open>MAX_TRADES\<close>\<close>
  ctx_reports :: "execution_report list"  \<comment> \<open>array of \<open>MAX_REPORTS\<close>\<close>
  ctx_trade_count :: nat
  ctx_report_count :: nat

definition ctx_new :: execution_context where
  "ctx_new = \<lparr>ctx_trades = replicate MAX_TRADES trade_default,
              ctx_reports = replicate MAX_REPORTS report_default,
              ctx_trade_count = 0, ctx_report_count = 0\<rparr>"

definition ctx_reset :: "execution_context \<Rightarrow> execution_context" where
  "ctx_reset ctx = ctx\<lparr>ctx_trade_count := 0, ctx_report_count := 0\<rparr>"

text \<open>\<open>add_trade\<close> and \<open>add_report\<close> return the index of the slot, \<open>None\<close> being \<open>nullptr\<close>.\<close>

definition add_trade :: "execution_context \<Rightarrow> nat option \<times> execution_context" where
  "add_trade ctx =
     (if MAX_TRADES \<le> ctx_trade_count ctx then (None, ctx)
      else (Some (ctx_trade_count ctx), ctx\<lparr>ctx_trade_count := ctx_trade_count ctx + 1\<rparr>))"

definition add_report :: "execution_context \<Rightarrow> nat option \<times> execution_context" where
  "add_report ctx =
     (if MAX_REPORTS \<le> ctx_report_count ctx then (None, ctx)
      else (Some (ctx_report_count ctx), ctx\<lparr>ctx_report_count := ctx_report_count ctx + 1\<rparr>))"

text \<open>Writing through the returned pointer when it is not null.\<close>

definition put_trade :: "(trade \<Rightarrow> trade) \<Rightarrow> execution_context \<Rightarrow> execution_context" where
  "put_trade f ctx =
     (case add_trade ctx of
        (None, ctx1) \<Rightarrow> ctx1
      | (Some i, ctx1) \<Rightarrow> ctx1\<lparr>ctx_trades := (ctx_trades ctx1)[i := f (ctx_trades ctx1 ! i)]\<rparr>)"

definition put_report :: "(execution_report \<Rightarrow> execution_report) \<Rightarrow> execution_context \<Rightarrow> execution_context" where
  "put_report f ctx =
     (case add_report ctx of
        (None, ctx1) \<Rightarrow> ctx1
      | (Some i, ctx1) \<Rightarrow> ctx1\<lparr>ctx_reports := (ctx_reports ctx1)[i := f (ctx_reports ctx1 ! i)]\<rparr>)"

subsection \<open>\<open>TradeBuilder\<close>\<close>

definition build_match ::
  "u64 \<Rightarrow> u64 \<Rightarrow> u64 \<Rightarrow> order \<Rightarrow> live_order \<Rightarrow> quantity \<Rightarrow> price \<Rightarrow> quantity \<Rightarrow> quantity \<Rightarrow> u64 \<Rightarrow>
   execution_context \<Rightarrow> execution_context" where
  "build_match trade_seq exec_seq_taker exec_seq_maker aggressive resting match_qty match_price
     remaining_qty_taker remaining_qty_maker timestamp ctx =
     (let ctx1 = put_trade (\<lambda>t. t\<lparr>
            tr_trade_id := StrongId trade_seq,
            tr_buy_order_id := (if ord_side aggressive = Buy then ord_order_id aggressive
                                else key_order_id (lo_key resting)),
            tr_sell_order_id := (if ord_side aggressive = Buy then key_order_id (lo_key resting)
                                 else ord_order_id aggressive),
            tr_price := match_price, tr_qty := match_qty, tr_timestamp := timestamp,
            tr_symbol_id := ord_symbol_id aggressive\<rparr>) ctx;
          ctx2 = put_report (\<lambda>r. r\<lparr>
            er_exec_id := StrongId exec_seq_taker, er_order_id := ord_order_id aggressive,
            er_client_id := ord_client_id aggressive, er_account_id := ord_account_id aggressive,
            er_symbol_id := ord_symbol_id aggressive, er_price := match_price,
            er_last_qty := match_qty, er_remaining_qty := remaining_qty_taker,
            er_timestamp := timestamp, er_exec_type := ExecTrade, er_reject_reason := RejectNone\<rparr>) ctx1
      in put_report (\<lambda>r. r\<lparr>
            er_exec_id := StrongId exec_seq_maker, er_order_id := key_order_id (lo_key resting),
            er_client_id := StrongId 0, er_account_id := StrongId 0,
            er_symbol_id := key_symbol_id (lo_key resting), er_price := match_price,
            er_last_qty := match_qty, er_remaining_qty := remaining_qty_maker,
            er_timestamp := timestamp, er_exec_type := ExecTrade, er_reject_reason := RejectNone\<rparr>) ctx2)"

definition build_ack :: "u64 \<Rightarrow> order \<Rightarrow> u64 \<Rightarrow> execution_context \<Rightarrow> execution_context" where
  "build_ack exec_seq ord timestamp = put_report (\<lambda>r. r\<lparr>
     er_exec_id := StrongId exec_seq, er_order_id := ord_order_id ord,
     er_client_id := ord_client_id ord, er_account_id := ord_account_id ord,
     er_symbol_id := ord_symbol_id ord, er_price := ord_price ord,
     er_last_qty := Quantity 0, er_remaining_qty := ord_qty ord,
     er_timestamp := timestamp, er_exec_type := ExecNew, er_reject_reason := RejectNone\<rparr>)"

definition build_cancel ::
  "u64 \<Rightarrow> live_order \<Rightarrow> client_id \<Rightarrow> account_id \<Rightarrow> symbol_id \<Rightarrow> u64 \<Rightarrow> execution_context \<Rightarrow> execution_context" where
  "build_cancel exec_seq lo client account symbol timestamp = put_report (\<lambda>r. r\<lparr>
     er_exec_id := StrongId exec_seq, er_order_id := key_order_id (lo_key lo),
     er_client_id := client, er_account_id := account, er_symbol_id := symbol,
     er_price := lo_price lo, er_last_qty := Quantity 0, er_remaining_qty := Quantity 0,
     er_timestamp := timestamp, er_exec_type := ExecCancel, er_reject_reason := RejectNone\<rparr>)"

definition build_reject :: "u64 \<Rightarrow> order \<Rightarrow> reject_reason \<Rightarrow> u64 \<Rightarrow> execution_context \<Rightarrow> execution_context" where
  "build_reject exec_seq ord reason timestamp = put_report (\<lambda>r. r\<lparr>
     er_exec_id := StrongId exec_seq, er_order_id := ord_order_id ord,
     er_client_id := ord_client_id ord, er_account_id := ord_account_id ord,
     er_symbol_id := ord_symbol_id ord, er_price := ord_price ord,
     er_last_qty := Quantity 0, er_remaining_qty := Quantity 0,
     er_timestamp := timestamp, er_exec_type := ExecReject, er_reject_reason := reason\<rparr>)"

definition build_expiration :: "u64 \<Rightarrow> order \<Rightarrow> quantity \<Rightarrow> u64 \<Rightarrow> execution_context \<Rightarrow> execution_context" where
  "build_expiration exec_seq ord expired_qty timestamp = put_report (\<lambda>r. r\<lparr>
     er_exec_id := StrongId exec_seq, er_order_id := ord_order_id ord,
     er_client_id := ord_client_id ord, er_account_id := ord_account_id ord,
     er_symbol_id := ord_symbol_id ord, er_price := ord_price ord,
     er_last_qty := Quantity 0, er_remaining_qty := Quantity 0,
     er_timestamp := timestamp, er_exec_type := ExecCancel, er_reject_reason := RejectNone\<rparr>)"

subsection \<open>\<open>MatchingStatistics\<close> and \<open>MatchingResult\<close>\<close>

record matching_statistics =
  st_orders_received :: u64
  st_orders_matched :: u64
  st_orders_cancelled :: u64
  st_orders_rejected :: u64
  st_trades_executed :: u64
  st_shares_executed :: u64
  st_total_traded_volume :: u64
  st_total_latency_ns :: u64
  st_max_latency_ns :: u64
  st_bucket_under_100ns :: u64
  st_bucket_100_250ns :: u64
  st_bucket_250_500ns :: u64
  st_bucket_500ns_1us :: u64
  st_bucket_1us_5us :: u64
  st_bucket_over_5us :: u64

definition stats_new :: matching_statistics where
  "stats_new = \<lparr>st_orders_received = 0, st_orders_matched = 0, st_orders_cancelled = 0,
     st_orders_rejected = 0, st_trades_executed = 0, st_shares_executed = 0,
     st_total_traded_volume = 0, st_total_latency_ns = 0, st_max_latency_ns = 0,
     st_bucket_under_100ns = 0, st_bucket_100_250ns = 0, st_bucket_250_500ns = 0,
     st_bucket_500ns_1us = 0, st_bucket_1us_5us = 0, st_bucket_over_5us = 0\<rparr>"

definition record_latency :: "u64 \<Rightarrow> matching_statistics \<Rightarrow> matching_statistics" where
  "record_latency ns st =
     (let st1 = st\<lparr>st_total_latency_ns := st_total_latency_ns st + ns\<rparr>;
          st2 = (if ns > st_max_latency_ns st1 then st1\<lparr>st_max_latency_ns := ns\<rparr> else st1)
      in if ns < 100 then st2\<lparr>st_bucket_under_100ns := st_bucket_under_100ns st2 + 1\<rparr>
         else if ns < 250 then st2\<lparr>st_bucket_100_250ns := st_bucket_100_250ns st2 + 1\<rparr>
         else if ns < 500 then st2\<lparr>st_bucket_250_500ns := st_bucket_250_500ns st2 + 1\<rparr>
         else if ns < 1000 then st2\<lparr>st_bucket_500ns_1us := st_bucket_500ns_1us st2 + 1\<rparr>
         else if ns < 5000 then st2\<lparr>st_bucket_1us_5us := st_bucket_1us_5us st2 + 1\<rparr>
         else st2\<lparr>st_bucket_over_5us := st_bucket_over_5us st2 + 1\<rparr>)"

datatype matching_status =
    Success | PartiallyFilled | Filled | Rejected | Cancelled | Modified | Expired

record matching_result =
  mr_status :: matching_status
  mr_trades_generated :: u32

section \<open>What a reader of the context sees\<close>

definition ctx_ok :: "execution_context \<Rightarrow> bool" where
  "ctx_ok ctx \<longleftrightarrow> length (ctx_trades ctx) = MAX_TRADES \<and> length (ctx_reports ctx) = MAX_REPORTS \<and>
     ctx_trade_count ctx \<le> MAX_TRADES \<and> ctx_report_count ctx \<le> MAX_REPORTS"

definition trades_of :: "execution_context \<Rightarrow> trade list" where
  "trades_of ctx = take (ctx_trade_count ctx) (ctx_trades ctx)"

definition reports_of :: "execution_context \<Rightarrow> execution_report list" where
  "reports_of ctx = take (ctx_report_count ctx) (ctx_reports ctx)"

lemma ctx_new_ok [simp]: "ctx_ok ctx_new" "trades_of ctx_new = []" "reports_of ctx_new = []"
  by (simp_all add: ctx_ok_def ctx_new_def trades_of_def reports_of_def)

lemma ctx_reset_ok: "ctx_ok ctx \<Longrightarrow> ctx_ok (ctx_reset ctx)"
  "trades_of (ctx_reset ctx) = []" "reports_of (ctx_reset ctx) = []"
  by (simp_all add: ctx_ok_def ctx_reset_def trades_of_def reports_of_def)

text \<open>An added entry is appended if there is room for it and lost otherwise.\<close>

lemma put_trade_ok:
  assumes "ctx_ok ctx" and "\<And>t. f t = t0"
  shows "ctx_ok (put_trade f ctx)" "trades_of (put_trade f ctx) = take MAX_TRADES (trades_of ctx @ [t0])"
    "reports_of (put_trade f ctx) = reports_of ctx"
  using assms by (auto simp: ctx_ok_def put_trade_def add_trade_def trades_of_def reports_of_def take_Suc_conv_app_nth
      take_Cons')

lemma put_report_ok:
  assumes "ctx_ok ctx" and "\<And>r. f r = r0"
  shows "ctx_ok (put_report f ctx)" "reports_of (put_report f ctx) = take MAX_REPORTS (reports_of ctx @ [r0])"
    "trades_of (put_report f ctx) = trades_of ctx"
  using assms by (auto simp: ctx_ok_def put_report_def add_report_def trades_of_def reports_of_def take_Suc_conv_app_nth
      take_Cons')

end
