(* ===== verification/Matching_Engine.thy ===== *)
theory Matching_Engine
  imports Order_Book Execution
begin

text \<open>
  \<open>MatchingEngine\<close> of \<open>matching/src/matching_engine.cpp\<close>: submitting, cancelling and
  modifying orders against one order book. The readings of the clock are arguments. The two
  branches of \<open>submit_order\<close> (buy against asks, sell against bids) have the same loop body;
  they are instances of \<open>match_side\<close>, whose arguments are the best level of the opposite side
  and the comparison that ends the crossing of a limit order.
\<close>

record matching_engine =
  me_book :: order_book
  me_stats :: matching_statistics
  me_trade_seq :: u64
  me_exec_seq :: u64

definition engine_new :: "bool \<Rightarrow> matching_engine" where
  "engine_new listener =
     \<lparr>me_book = book_new listener, me_stats = stats_new, me_trade_seq = 1, me_exec_seq = 1\<rparr>"

definition can_self_trade :: "order \<Rightarrow> live_order \<Rightarrow> bool" where
  "can_self_trade aggressive resting = True"

text \<open>The variables of the matching loops: the engine's, the context, \<open>res.trades_generated\<close>
  and \<open>remaining_qty\<close>.\<close>

record match_state =
  ms_book :: order_book
  ms_stats :: matching_statistics
  ms_trade_seq :: u64
  ms_exec_seq :: u64
  ms_ctx :: execution_context
  ms_trades_generated :: u32
  ms_remaining :: quantity

text \<open>One match, up to the fill of the book: sequence numbers, trade and reports, counters.\<close>

definition record_match ::
  "order \<Rightarrow> u64 \<Rightarrow> live_order \<Rightarrow> price \<Rightarrow> quantity \<Rightarrow> match_state \<Rightarrow> match_state" where
  "record_match ord timestamp resting match_price match_qty st =
     (let remaining_maker = Quantity (units (lo_remaining_qty resting) - units match_qty);
          remaining_taker = Quantity (units (ms_remaining st) - units match_qty);
          taker_seq = ms_exec_seq st;
          maker_seq = ms_exec_seq st + 1;
          stats = ms_stats st
      in st\<lparr>ms_exec_seq := ms_exec_seq st + 2,
            ms_ctx := build_match (ms_trade_seq st) taker_seq maker_seq ord resting match_qty match_price
                        remaining_taker remaining_maker timestamp (ms_ctx st),
            ms_trade_seq := ms_trade_seq st + 1,
            ms_trades_generated := ms_trades_generated st + 1,
            ms_stats := stats\<lparr>st_trades_executed := st_trades_executed stats + 1,
                              st_shares_executed := st_shares_executed stats + units match_qty,
                              st_total_traded_volume :=
                                st_total_traded_volume stats + units match_qty * ticks match_price\<rparr>,
            ms_remaining := remaining_taker\<rparr>)"

definition match_one :: "order \<Rightarrow> u64 \<Rightarrow> addr \<Rightarrow> addr \<Rightarrow> match_state \<Rightarrow> match_state run" where
  "match_one ord timestamp level x st =
     bind_run (deref x (order_mem (ms_book st))) (\<lambda>resting.
     bind_run (deref level (level_mem (ms_book st))) (\<lambda>lv.
     let match_qty = Quantity (min (units (ms_remaining st)) (units (lo_remaining_qty resting)));
         st1 = record_match ord timestamp resting (pl_price lv) match_qty st
     in bind_run (book_fill_order (Some x) match_qty (ms_book st1)) (\<lambda>b.
        ret (st1\<lparr>ms_book := b\<rparr>))))"

text \<open>The inner loop, over the orders of a level; the successor is read before the fill.\<close>

partial_function (option) match_level ::
  "order \<Rightarrow> u64 \<Rightarrow> addr \<Rightarrow> addr option \<Rightarrow> match_state \<Rightarrow> match_state run" where
  "match_level ord timestamp level resting st =
     (case resting of
        None \<Rightarrow> ret st
      | Some x \<Rightarrow>
          if units (ms_remaining st) = 0 then ret st
          else
            bind_run (deref x (order_mem (ms_book st))) (\<lambda>r.
            if \<not> can_self_trade ord r then match_level ord timestamp level (lo_next r) st
            else
              bind_run (match_one ord timestamp level x st) (\<lambda>st1.
              match_level ord timestamp level (lo_next r) st1)))"

text \<open>The outer loop, over the best levels.\<close>

partial_function (option) match_side ::
  "(order_book \<Rightarrow> addr option) \<Rightarrow> (price \<Rightarrow> price \<Rightarrow> bool) \<Rightarrow> order \<Rightarrow> u64 \<Rightarrow> match_state \<Rightarrow> match_state run" where
  "match_side best stop ord timestamp st =
     (if units (ms_remaining st) = 0 then ret st
      else
        (case best (ms_book st) of
           None \<Rightarrow> ret st
         | Some level \<Rightarrow>
             bind_run (deref level (level_mem (ms_book st))) (\<lambda>lv.
             if ord_type ord = Limit \<and> stop (ord_price ord) (pl_price lv) then ret st
             else
               bind_run (match_level ord timestamp level (il_head (pl_orders lv)) st) (\<lambda>st1.
               match_side best stop ord timestamp st1))))"

definition best_ask_level :: "order_book \<Rightarrow> addr option" where
  "best_ask_level b = bs_best_level (ob_asks b)"

definition best_bid_level :: "order_book \<Rightarrow> addr option" where
  "best_bid_level b = bs_best_level (ob_bids b)"

definition match_order :: "order \<Rightarrow> u64 \<Rightarrow> match_state \<Rightarrow> match_state run" where
  "match_order ord timestamp st =
     (if ord_side ord = Buy then match_side best_ask_level (<) ord timestamp st
      else match_side best_bid_level (>) ord timestamp st)"

text \<open>The actions after the matching: rest, expire or finish.\<close>

definition post_match :: "order \<Rightarrow> u64 \<Rightarrow> match_state \<Rightarrow> (matching_status \<times> match_state) run" where
  "post_match ord timestamp st =
     (if units (ms_remaining st) > 0 then
        if ord_type ord = Limit then
          bind_run (book_insert ord (ord_seq_num ord) (ms_book st)) (\<lambda>(_, b).
          ret (if ms_remaining st = ord_qty ord then Success else PartiallyFilled, st\<lparr>ms_book := b\<rparr>))
        else if ord_type ord = Market then
          ret (Expired, st\<lparr>ms_ctx := build_expiration (ms_exec_seq st) ord (ms_remaining st) timestamp (ms_ctx st),
                           ms_exec_seq := ms_exec_seq st + 1\<rparr>)
        else ret (Success, st)
      else
        ret (Filled, st\<lparr>ms_stats := (ms_stats st)\<lparr>st_orders_matched := st_orders_matched (ms_stats st) + 1\<rparr>\<rparr>))"

definition start_state :: "order \<Rightarrow> u64 \<Rightarrow> matching_engine \<Rightarrow> execution_context \<Rightarrow> match_state" where
  "start_state ord timestamp e ctx =
     \<lparr>ms_book = me_book e,
      ms_stats = (me_stats e)\<lparr>st_orders_received := st_orders_received (me_stats e) + 1\<rparr>,
      ms_trade_seq = me_trade_seq e, ms_exec_seq = me_exec_seq e + 1,
      ms_ctx = build_ack (me_exec_seq e) ord timestamp ctx,
      ms_trades_generated = 0, ms_remaining = ord_qty ord\<rparr>"

text \<open>\<open>start_time\<close>, \<open>timestamp\<close> and \<open>end_time\<close> are the three readings of the steady clock.\<close>

definition submit_order ::
  "u64 \<Rightarrow> u64 \<Rightarrow> u64 \<Rightarrow> order \<Rightarrow> execution_context \<Rightarrow> matching_engine \<Rightarrow>
   (matching_result \<times> execution_context \<times> matching_engine) run" where
  "submit_order start_time timestamp end_time ord ctx e =
     bind_run (match_order ord timestamp (start_state ord timestamp e ctx)) (\<lambda>st.
     bind_run (post_match ord timestamp st) (\<lambda>(status, st1).
     ret (\<lparr>mr_status = status, mr_trades_generated = ms_trades_generated st1\<rparr>, ms_ctx st1,
          \<lparr>me_book = ms_book st1, me_stats = record_latency (end_time - start_time) (ms_stats st1),
           me_trade_seq = ms_trade_seq st1, me_exec_seq = ms_exec_seq st1\<rparr>)))"

definition cancel_order ::
  "u64 \<Rightarrow> u64 \<Rightarrow> u64 \<Rightarrow> order_id \<Rightarrow> client_id \<Rightarrow> account_id \<Rightarrow> symbol_id \<Rightarrow> execution_context \<Rightarrow>
   matching_engine \<Rightarrow> (bool \<times> execution_context \<times> matching_engine) run" where
  "cancel_order start_time timestamp end_time i client account symbol ctx e =
     (case book_find_order i (me_book e) of
        None \<Rightarrow>
          ret (False, ctx, e\<lparr>me_stats := (me_stats e)\<lparr>st_orders_rejected := st_orders_rejected (me_stats e) + 1\<rparr>\<rparr>)
      | Some x \<Rightarrow>
          bind_run (deref x (order_mem (me_book e))) (\<lambda>lo.
          bind_run (book_cancel i (me_book e)) (\<lambda>(_, b).
          let stats = (me_stats e)\<lparr>st_orders_cancelled := st_orders_cancelled (me_stats e) + 1\<rparr>
          in ret (True, build_cancel (me_exec_seq e) lo client account symbol timestamp ctx,
                  e\<lparr>me_exec_seq := me_exec_seq e + 1, me_book := b,
                    me_stats := record_latency (end_time - start_time) stats\<rparr>))))"

definition modify_order ::
  "u64 \<Rightarrow> u64 \<Rightarrow> u64 \<Rightarrow> order_id \<Rightarrow> quantity \<Rightarrow> execution_context \<Rightarrow> matching_engine \<Rightarrow>
   (bool \<times> execution_context \<times> matching_engine) run" where
  "modify_order start_time now end_time i new_qty ctx e =
     bind_run (book_modify_qty i new_qty now (me_book e)) (\<lambda>(res, b).
     ret (res, ctx, e\<lparr>me_book := b, me_stats := record_latency (end_time - start_time) (me_stats e)\<rparr>))"

definition engine_reset :: "matching_engine \<Rightarrow> matching_engine run" where
  "engine_reset e =
     bind_run (book_clear (me_book e)) (\<lambda>b.
     ret \<lparr>me_book = b, me_stats = stats_new, me_trade_seq = 1, me_exec_seq = 1\<rparr>)"

section \<open>\<open>ExchangeSimulator\<close>\<close>

text \<open>One engine per symbol; \<open>reset\<close> visits every engine, the order does not matter.\<close>

type_synonym exchange_simulator = "u32 \<rightharpoonup> matching_engine"

datatype sim_error = SymbolAlreadyRegistered u32

definition register_symbol :: "symbol_id \<Rightarrow> exchange_simulator \<Rightarrow> sim_error + exchange_simulator" where
  "register_symbol s m =
     (if m (get_id s) \<noteq> None then Inl (SymbolAlreadyRegistered (get_id s))
      else Inr (m(get_id s \<mapsto> engine_new False)))"

definition get_engine :: "symbol_id \<Rightarrow> exchange_simulator \<Rightarrow> matching_engine option" where
  "get_engine s m = m (get_id s)"

end
