(* ===== verification/Abstract_Book.thy ===== *)
theory Abstract_Book
  imports Intrusive_List
begin

text \<open>
  What an order book promises: per side, the price levels from the best price to the worst,
  each with the queue of its orders in time priority. The operations are those of
  \<open>LimitOrderBook\<close> said without pointers, index, lookup table or running totals;
  \<open>Book_Refinement\<close> proves that the code implements them.
\<close>

section \<open>The abstract book\<close>

text \<open>Per side, the price levels from the best to the worst, each with its queue of orders.\<close>

datatype bside = Bids | Asks

type_synonym abook = "bside \<Rightarrow> (price \<times> resting list) list"

fun bside_of :: "side \<Rightarrow> bside" where
  "bside_of Buy = Bids"
| "bside_of _ = Asks"

fun better_on :: "bside \<Rightarrow> price \<Rightarrow> price \<Rightarrow> bool" where
  "better_on Bids = (>)"
| "better_on Asks = (<)"

definition rid :: "resting \<Rightarrow> u64" where
  "rid r = get_id (key_order_id (ro_key r))"

definition abook_new :: abook where
  "abook_new = (\<lambda>_. [])"

definition aorders :: "abook \<Rightarrow> resting list" where
  "aorders B = concat (map snd (B Bids @ B Asks))"

definition aids :: "abook \<Rightarrow> u64 set" where
  "aids B = rid ` set (aorders B)"

definition aprices :: "abook \<Rightarrow> bside \<Rightarrow> price set" where
  "aprices B s = fst ` set (B s)"

text \<open>A queue change in every level; levels that become empty disappear.\<close>

definition map_queues :: "(resting list \<Rightarrow> resting list) \<Rightarrow> (price \<times> resting list) list \<Rightarrow> (price \<times> resting list) list" where
  "map_queues f ls = filter (\<lambda>(p, os). os \<noteq> []) (map (\<lambda>(p, os). (p, f os)) ls)"

definition add_order ::
  "(price \<Rightarrow> price \<Rightarrow> bool) \<Rightarrow> price \<Rightarrow> resting \<Rightarrow> (price \<times> resting list) list \<Rightarrow> (price \<times> resting list) list" where
  "add_order better p r ls =
     (if p \<in> fst ` set ls then map (\<lambda>(q, os). (q, if q = p then os @ [r] else os)) ls
      else takeWhile (\<lambda>(q, _). better q p) ls @ (p, [r]) # dropWhile (\<lambda>(q, _). better q p) ls)"

text \<open>The resting order an order becomes.\<close>

definition resting_of_order :: "order \<Rightarrow> u64 \<Rightarrow> resting" where
  "resting_of_order ord sq =
     \<lparr>ro_key = OrderKey (ord_symbol_id ord) (ord_order_id ord), ro_price = ord_price ord,
      ro_qty = ord_qty ord, ro_seq = sq\<rparr>"

definition a_insert :: "bside \<Rightarrow> resting \<Rightarrow> abook \<Rightarrow> abook" where
  "a_insert s r B = B(s := add_order (better_on s) (ro_price r) r (B s))"

definition cancel_queue :: "u64 \<Rightarrow> resting list \<Rightarrow> resting list" where
  "cancel_queue i os = filter (\<lambda>r. rid r \<noteq> i) os"

definition a_cancel :: "u64 \<Rightarrow> abook \<Rightarrow> abook" where
  "a_cancel i B = (\<lambda>s. map_queues (cancel_queue i) (B s))"

definition fill_queue :: "u64 \<Rightarrow> quantity \<Rightarrow> resting list \<Rightarrow> resting list" where
  "fill_queue i q os =
     filter (\<lambda>r. rid r = i \<longrightarrow> ro_qty r \<noteq> 0)
       (map (\<lambda>r. if rid r = i then r\<lparr>ro_qty := ro_qty r - q\<rparr> else r) os)"

definition a_fill :: "u64 \<Rightarrow> quantity \<Rightarrow> abook \<Rightarrow> abook" where
  "a_fill i q B = (\<lambda>s. map_queues (fill_queue i q) (B s))"

text \<open>A smaller quantity keeps the place in the queue, a larger one moves to the end.\<close>

definition modify_queue :: "u64 \<Rightarrow> quantity \<Rightarrow> u64 \<Rightarrow> resting list \<Rightarrow> resting list" where
  "modify_queue i q sq os =
     map (\<lambda>r. if rid r = i \<and> q < ro_qty r then r\<lparr>ro_qty := q\<rparr> else r)
       (filter (\<lambda>r. \<not> (rid r = i \<and> ro_qty r < q)) os) @
     map (\<lambda>r. r\<lparr>ro_qty := q, ro_seq := sq\<rparr>) (filter (\<lambda>r. rid r = i \<and> ro_qty r < q) os)"

definition a_modify :: "u64 \<Rightarrow> quantity \<Rightarrow> u64 \<Rightarrow> abook \<Rightarrow> abook" where
  "a_modify i q sq B = (\<lambda>s. map_queues (modify_queue i q sq) (B s))"

fun opp :: "bside \<Rightarrow> bside" where
  "opp Bids = Asks"
| "opp Asks = Bids"

lemma opp_neq [simp]: "opp s \<noteq> s" "s \<noteq> opp s"
  by (cases s; simp)+

lemma all_bside: "(\<forall>t. P t) \<longleftrightarrow> P s \<and> P (opp s)"
proof -
  have "t = s \<or> t = opp s" for t
    by (cases s; cases t) simp_all
  then show ?thesis
    by metis
qed

end
