(* ===== verification/Book_Refinement.thy ===== *)
theory Book_Refinement
  imports Order_Book Abstract_Book "HOL-Library.Multiset"
begin

text \<open>
  The order book of \<open>Order_Book\<close> refines the abstract book of \<open>Abstract_Book\<close>. A ghost book
  names the addresses of levels and orders; \<open>book_inv\<close> is the invariant of the memory, and
  \<open>book_rep b B\<close> says that the book object \<open>b\<close> stands for the abstract book \<open>B\<close>. Every
  operation on a represented book returns (no fault, no endless loop) and represents the
  result of the abstract operation.
\<close>

section \<open>The representation\<close>

text \<open>
  A ghost book names, per side, the address of each level and the addresses of its orders.
\<close>

type_synonym ghost = "bside \<Rightarrow> (addr \<times> addr list) list"

fun side_at :: "bside \<Rightarrow> order_book \<Rightarrow> book_side" where
  "side_at Bids b = ob_bids b"
| "side_at Asks b = ob_asks b"

definition order_at :: "order_heap \<Rightarrow> addr \<Rightarrow> resting" where
  "order_at h x = resting_of (the (h x))"

text \<open>The running totals of a level agree with its queue. The sum wraps like the code's.\<close>

definition level_sums :: "price_level_node \<Rightarrow> resting list \<Rightarrow> bool" where
  "level_sums z os \<longleftrightarrow>
     pl_total_qty z = sum_list (map ro_qty os) \<and> pl_order_count z = of_nat (length os) \<and>
     (\<forall>r \<in> set os. ro_price r = pl_price z)"

definition level_ok :: "level_heap \<Rightarrow> order_heap \<Rightarrow> addr \<times> addr list \<Rightarrow> bool" where
  "level_ok lh oh g \<longleftrightarrow> (\<exists>z. lh (fst g) = Some z \<and> il_rep oh (pl_orders z) (snd g) \<and>
     level_sums z (map (order_at oh) (snd g)))"

definition glevels :: "ghost \<Rightarrow> addr list" where
  "glevels G = map fst (G Bids @ G Asks)"

definition gorders :: "ghost \<Rightarrow> addr list" where
  "gorders G = concat (map snd (G Bids @ G Asks))"

text \<open>\<open>X\<close> are the orders that are allocated but in no queue, as in the middle of an operation.\<close>

definition book_wf :: "order_book \<Rightarrow> ghost \<Rightarrow> addr set \<Rightarrow> bool" where
  "book_wf b G X \<longleftrightarrow>
     pool_inv LEVEL_POOL_CAPACITY (ob_level_pool b) \<and> pool_inv ORDER_POOL_CAPACITY (ob_order_pool b) \<and>
     (\<forall>s. side_shape (better_on s) (level_mem b) (side_at s b) (map fst (G s))) \<and>
     (\<forall>s. \<forall>g \<in> set (G s). level_ok (level_mem b) (order_mem b) g) \<and>
     distinct (glevels G) \<and> dom (level_mem b) = set (glevels G) \<and>
     distinct (gorders G) \<and> X \<inter> set (gorders G) = {} \<and> dom (order_mem b) = set (gorders G) \<union> X \<and>
     distinct (map (price_at (level_mem b)) (glevels G))"

definition lookup_ok :: "order_book \<Rightarrow> bool" where
  "lookup_ok b \<longleftrightarrow> (\<forall>i x. ob_lookup b i = Some x \<longleftrightarrow> x \<in> dom (order_mem b) \<and> rid (order_at (order_mem b) x) = i)"

definition book_inv :: "order_book \<Rightarrow> ghost \<Rightarrow> bool" where
  "book_inv b G \<longleftrightarrow> book_wf b G {} \<and> lookup_ok b \<and> (\<forall>s. \<forall>g \<in> set (G s). snd g \<noteq> [])"

definition abs_level :: "order_book \<Rightarrow> addr \<times> addr list \<Rightarrow> price \<times> resting list" where
  "abs_level b g = (price_at (level_mem b) (fst g), map (order_at (order_mem b)) (snd g))"

definition abs_book :: "order_book \<Rightarrow> ghost \<Rightarrow> abook" where
  "abs_book b G = (\<lambda>s. map (abs_level b) (G s))"

definition book_rep :: "order_book \<Rightarrow> abook \<Rightarrow> bool" where
  "book_rep b B \<longleftrightarrow> (\<exists>G. book_inv b G \<and> B = abs_book b G)"

lemma pool_inv_cong:
  "pool_inv cap p \<Longrightarrow> free_list p' = free_list p \<Longrightarrow> dom (storage p') = dom (storage p) \<Longrightarrow> pool_inv cap p'"
  by (simp add: pool_inv_def)

lemma order_at_agree:
  assumes "only_links S h h'"
  shows "order_at h' x = order_at h x"
  using agree_upto_data [OF assms, of x] by (cases "h x"; cases "h' x") (simp_all add: order_at_def)

lemma level_sums_cong: "level_data z' = level_data z \<Longrightarrow> level_sums z' os = level_sums z os"
  by (simp add: level_data_def level_sums_def)

lemma level_ok_cong:
  assumes "map_option level_data (lh' (fst g)) = map_option level_data (lh (fst g))"
    and "\<And>x. x \<in> set (snd g) \<Longrightarrow> oh' x = oh x"
  shows "level_ok lh' oh' g = level_ok lh oh g"
proof -
  have queue: "map (order_at oh') (snd g) = map (order_at oh) (snd g)"
    using assms(2) by (simp add: order_at_def)
  have rep: "il_rep oh' l (snd g) = il_rep oh l (snd g)" for l
    using assms(2) by (rule il_rep_cong)
  show ?thesis
  proof (cases "lh (fst g)")
    case (Some z)
    with assms(1) obtain z' where z': "lh' (fst g) = Some z'" and d: "level_data z' = level_data z"
      by auto
    from d have "pl_orders z' = pl_orders z"
      by (simp add: level_data_def)
    with Some z' show ?thesis
      by (simp add: level_ok_def queue rep level_sums_cong [OF d] del: map_eq_conv)
  qed (use assms(1) in \<open>simp add: level_ok_def\<close>)
qed

text \<open>What a ghost book has beside one of its levels.\<close>

definition besides :: "ghost \<Rightarrow> bside \<Rightarrow> (addr \<times> addr list) list \<Rightarrow> (addr \<times> addr list) list \<Rightarrow> (addr \<times> addr list) list" where
  "besides G s gs1 gs2 = gs1 @ gs2 @ G (opp s)"

lemma ghost_split:
  assumes "G s = gs1 @ g # gs2"
  shows "distinct (gorders G) \<longleftrightarrow> distinct (snd g @ concat (map snd (besides G s gs1 gs2)))"
    and "set (gorders G) = set (snd g) \<union> set (concat (map snd (besides G s gs1 gs2)))"
    and "distinct (glevels G) \<longleftrightarrow> distinct (fst g # map fst (besides G s gs1 gs2))"
    and "set (glevels G) = insert (fst g) (fst ` set (besides G s gs1 gs2))"
    and "distinct (map f (glevels G)) \<longleftrightarrow> distinct (map f (fst g # map fst (besides G s gs1 gs2)))"
proof -
  have "mset (gorders G) = mset (snd g @ concat (map snd (besides G s gs1 gs2)))"
    and "mset (glevels G) = mset (fst g # map fst (besides G s gs1 gs2))"
    and "mset (map f (glevels G)) = mset (map f (fst g # map fst (besides G s gs1 gs2)))"
    using assms by (cases s; simp add: besides_def gorders_def glevels_def)+
  note ms = this
  show "distinct (gorders G) \<longleftrightarrow> distinct (snd g @ concat (map snd (besides G s gs1 gs2)))"
    and "distinct (glevels G) \<longleftrightarrow> distinct (fst g # map fst (besides G s gs1 gs2))"
    and "distinct (map f (glevels G)) \<longleftrightarrow> distinct (map f (fst g # map fst (besides G s gs1 gs2)))"
    by (rule mset_eq_imp_distinct_iff, rule ms)+
  show "set (gorders G) = set (snd g) \<union> set (concat (map snd (besides G s gs1 gs2)))"
    and "set (glevels G) = insert (fst g) (fst ` set (besides G s gs1 gs2))"
    using mset_eq_setD [OF ms(1)] mset_eq_setD [OF ms(2)] by simp_all
qed

lemma ghost_join:
  assumes "G s = gs1 @ gs2"
  shows "distinct (gorders G) \<longleftrightarrow> distinct (concat (map snd (besides G s gs1 gs2)))"
    and "set (gorders G) = set (concat (map snd (besides G s gs1 gs2)))"
    and "distinct (glevels G) \<longleftrightarrow> distinct (map fst (besides G s gs1 gs2))"
    and "set (glevels G) = fst ` set (besides G s gs1 gs2)"
    and "distinct (map f (glevels G)) \<longleftrightarrow> distinct (map f (map fst (besides G s gs1 gs2)))"
proof -
  have "mset (gorders G) = mset (concat (map snd (besides G s gs1 gs2)))"
    and "mset (glevels G) = mset (map fst (besides G s gs1 gs2))"
    and "mset (map f (glevels G)) = mset (map f (map fst (besides G s gs1 gs2)))"
    using assms by (cases s; simp add: besides_def gorders_def glevels_def)+
  note ms = this
  show "distinct (gorders G) \<longleftrightarrow> distinct (concat (map snd (besides G s gs1 gs2)))"
    and "distinct (glevels G) \<longleftrightarrow> distinct (map fst (besides G s gs1 gs2))"
    and "distinct (map f (glevels G)) \<longleftrightarrow> distinct (map f (map fst (besides G s gs1 gs2)))"
    by (rule mset_eq_imp_distinct_iff, rule ms)+
  show "set (gorders G) = set (concat (map snd (besides G s gs1 gs2)))"
    and "set (glevels G) = fst ` set (besides G s gs1 gs2)"
    using mset_eq_setD [OF ms(1)] mset_eq_setD [OF ms(2)] by simp_all
qed

lemma besides_upd [simp]: "besides (G(s := gs)) s gs1 gs2 = besides G s gs1 gs2"
  by (simp add: besides_def)

lemma all_levels_split:
  assumes "G s = gs1 @ g # gs2"
  shows "(\<forall>t. \<forall>k \<in> set (G t). P k) \<longleftrightarrow> P g \<and> (\<forall>k \<in> set (besides G s gs1 gs2). P k)"
  using assms unfolding all_bside [of "\<lambda>t. \<forall>k \<in> set (G t). P k" s] by (auto simp: besides_def)

lemma all_levels_join:
  assumes "G s = gs1 @ gs2"
  shows "(\<forall>t. \<forall>k \<in> set (G t). P k) \<longleftrightarrow> (\<forall>k \<in> set (besides G s gs1 gs2). P k)"
  using assms unfolding all_bside [of "\<lambda>t. \<forall>k \<in> set (G t). P k" s] by (auto simp: besides_def)

lemma abs_level_cong:
  assumes "price_at (level_mem b') (fst g) = price_at (level_mem b) (fst g)"
    and "\<And>x. x \<in> set (snd g) \<Longrightarrow> order_mem b' x = order_mem b x"
  shows "abs_level b' g = abs_level b g"
  using assms by (simp add: abs_level_def order_at_def)

lemma fst_in_split: "G s = gs1 @ (a, xs) # gs2 \<Longrightarrow> map fst (G s) = map fst gs1 @ a # map fst gs2"
  by simp

lemma book_wf_shapes:
  "book_wf b G X \<Longrightarrow> side_shape (better_on s) (level_mem b) (side_at s b) (map fst (G s))"
  by (simp add: book_wf_def)

lemma side_shape_upd:
  assumes "h a = Some z" and "pl_price z' = pl_price z" "pl_next z' = pl_next z" "pl_prev z' = pl_prev z"
  shows "side_shape better (h(a \<mapsto> z')) sb as = side_shape better h sb as"
  using assms by (intro side_shape_cong) auto

text \<open>
  One lemma for every change within one level: its object and its queue change, orders move
  between the queue and the detached orders, everything else stays.
\<close>

lemma book_wf_change_level:
  assumes wf: "book_wf b G X" and G: "G s = gs1 @ (a, xs) # gs2"
    and z: "level_mem b a = Some z"
    and z': "pl_price z' = pl_price z" "pl_next z' = pl_next z" "pl_prev z' = pl_prev z"
    and lm: "level_mem b' = (level_mem b)(a \<mapsto> z')"
    and same: "free_list (ob_level_pool b') = free_list (ob_level_pool b)"
      "free_list (ob_order_pool b') = free_list (ob_order_pool b)"
      "\<And>t. side_at t b' = side_at t b"
    and om: "dom (order_mem b') = dom (order_mem b)"
      "\<And>x. x \<notin> set xs \<union> X \<Longrightarrow> order_mem b' x = order_mem b x"
    and queue: "il_rep (order_mem b') (pl_orders z') xs'"
      "level_sums z' (map (order_at (order_mem b')) xs')"
    and X: "set xs' \<union> X' = set xs \<union> X" "X' \<inter> set xs' = {}"
    and G': "G' = G(s := gs1 @ (a, xs') # gs2)"
  shows "book_wf b' G' X'"
    and "\<And>g. g \<in> set (besides G s gs1 gs2) \<Longrightarrow> abs_level b' g = abs_level b g"
proof -
  let ?R = "besides G s gs1 gs2"
  note split = ghost_split [of G s gs1 "(a, xs)" gs2, OF G, unfolded fst_conv snd_conv]
  have G's: "G' s = gs1 @ (a, xs') # gs2" and R: "besides G' s gs1 gs2 = ?R"
    by (simp_all add: G')
  note split' = ghost_split [of G' s gs1 "(a, xs')" gs2, OF G's, unfolded R fst_conv snd_conv]
  have inv: "pool_inv LEVEL_POOL_CAPACITY (ob_level_pool b)" "pool_inv ORDER_POOL_CAPACITY (ob_order_pool b)"
    and shape: "\<And>t. side_shape (better_on t) (level_mem b) (side_at t b) (map fst (G t))"
    and ok: "\<forall>t. \<forall>g \<in> set (G t). level_ok (level_mem b) (order_mem b) g"
    and dist: "distinct (glevels G)" "distinct (gorders G)" "distinct (map (price_at (level_mem b)) (glevels G))"
    and doms: "dom (level_mem b) = set (glevels G)" "dom (order_mem b) = set (gorders G) \<union> X"
    and disj: "X \<inter> set (gorders G) = {}"
    using wf by (simp_all add: book_wf_def)
  have others: "order_mem b' x = order_mem b x" if "g \<in> set ?R" "x \<in> set (snd g)" for g x
  proof -
    have "x \<in> set (gorders G)"
      using that split(2) by auto
    then show ?thesis
      using that split(1) dist(2) disj by (intro om(2)) auto
  qed
  have neq: "fst g \<noteq> a" if "g \<in> set ?R" for g
    using that split(3) dist(1) by force
  show "abs_level b' g = abs_level b g" if "g \<in> set ?R" for g
    using neq [OF that] others [OF that] by (intro abs_level_cong) (auto simp: lm)
  have "level_ok (level_mem b') (order_mem b') g" if "g \<in> set ?R" for g
    using that ok neq [OF that] others [OF that] all_levels_split [of G s gs1 "(a, xs)" gs2, OF G]
    by (subst level_ok_cong [of _ _ "level_mem b" _ "order_mem b"]) (auto simp: lm)
  then have ok': "\<forall>t. \<forall>g \<in> set (G' t). level_ok (level_mem b') (order_mem b') g"
    using queue unfolding all_levels_split [of G' s gs1 "(a, xs')" gs2, OF G's] R
    by (simp add: level_ok_def lm)
  have "map fst (G' t) = map fst (G t)" for t
    using G by (simp add: G')
  then have shape': "\<And>t. side_shape (better_on t) (level_mem b') (side_at t b') (map fst (G' t))"
    using shape side_shape_upd [of "level_mem b" a z z', OF z z'] by (simp add: lm same)
  have levels: "glevels G' = glevels G"
    using G by (cases s) (simp_all add: G' glevels_def)
  have prices: "price_at (level_mem b') c = price_at (level_mem b) c" for c
    using z z' by (simp add: lm price_at_def)
  have "distinct xs'"
    using queue by (simp add: il_rep_def)
  moreover define S where "S = concat (map snd ?R)"
  have "distinct S" and "(set xs \<union> X) \<inter> set S = {}"
    using dist(2) disj unfolding split S_def [symmetric] by auto
  then have "distinct S" and "(set xs' \<union> X') \<inter> set S = {}"
    using X(1) by auto
  ultimately have orders: "distinct (gorders G')" "X' \<inter> set (gorders G') = {}"
    "set (gorders G') \<union> X' = set (gorders G) \<union> X"
    using X unfolding split(2) split'(1,2) S_def [symmetric] by auto
  have doml: "dom (level_mem b') = dom (level_mem b)"
    using z by (auto simp: lm)
  have "distinct (map (price_at (level_mem b')) (glevels G'))"
    using dist(3) by (simp add: prices levels cong: map_cong)
  then show "book_wf b' G' X'"
    unfolding book_wf_def
    using shape' ok' orders dist doms(2)
      pool_inv_cong [OF inv(1) same(1) doml] pool_inv_cong [OF inv(2) same(2) om(1)]
    by (simp add: levels doml doms(1) om(1))
qed

text \<open>A new level without orders, and the removal of a level without orders.\<close>

lemma level_ok_agree:
  "agree_upto level_data S lh lh' \<Longrightarrow> level_ok lh' oh g = level_ok lh oh g"
  by (rule level_ok_cong) (simp_all add: agree_upto_data)

lemma level_ok_new: "level_ok (lh(nd \<mapsto> price_level_default\<lparr>pl_price := p\<rparr>)) oh (nd, [])"
  by (simp add: level_ok_def level_sums_def price_level_default_def zero_quantity_def)

lemma better_on_priority: "price_priority (better_on s)"
  using bid_order.price_priority_axioms ask_order.price_priority_axioms by (cases s) simp_all

lemma book_wf_add_level:
  assumes wf: "book_wf b G X"
    and p: "p \<notin> price_at (level_mem b) ` set (glevels G)"
    and nd: "level_mem b nd = None"
    and agree: "agree_upto level_data (insert nd (fst ` set (G s)))
      ((level_mem b)(nd \<mapsto> price_level_default\<lparr>pl_price := p\<rparr>)) (level_mem b')"
    and shape: "side_shape (better_on s) (level_mem b') (side_at s b') (map fst gs1 @ nd # map fst gs2)"
    and G: "G s = gs1 @ gs2" and inv: "pool_inv LEVEL_POOL_CAPACITY (ob_level_pool b')"
    and same: "ob_order_pool b' = ob_order_pool b" "side_at (opp s) b' = side_at (opp s) b"
    and G': "G' = G(s := gs1 @ (nd, []) # gs2)"
  shows "book_wf b' G' X"
    and "\<And>g. g \<in> set (besides G s gs1 gs2) \<Longrightarrow> abs_level b' g = abs_level b g"
proof -
  let ?R = "besides G s gs1 gs2" and ?h = "(level_mem b)(nd \<mapsto> price_level_default\<lparr>pl_price := p\<rparr>)"
  note join = ghost_join [of G s gs1 gs2, OF G]
  have G's: "G' s = gs1 @ (nd, []) # gs2" and R: "besides G' s gs1 gs2 = ?R"
    by (simp_all add: G')
  note split = ghost_split [of G' s gs1 "(nd, [])" gs2, OF G's, unfolded R]
  have inv2: "pool_inv ORDER_POOL_CAPACITY (ob_order_pool b)"
    and shapes: "\<And>t. side_shape (better_on t) (level_mem b) (side_at t b) (map fst (G t))"
    and ok: "\<forall>t. \<forall>g \<in> set (G t). level_ok (level_mem b) (order_mem b) g"
    and dist: "distinct (glevels G)" "distinct (gorders G)" "distinct (map (price_at (level_mem b)) (glevels G))"
    and doms: "dom (level_mem b) = set (glevels G)" "dom (order_mem b) = set (gorders G) \<union> X"
    and disj: "X \<inter> set (gorders G) = {}"
    using wf by (simp_all add: book_wf_def)
  have live: "fst g \<in> dom (level_mem b)" "fst g \<noteq> nd" if "g \<in> set ?R" for g
    using that doms(1) join(4) nd by auto
  have price: "price_at (level_mem b') c = price_at ?h c" if "c \<in> dom ?h" for c
    using that by (rule price_at_agree [OF agree])
  show "abs_level b' g = abs_level b g" if "g \<in> set ?R" for g
    using live [OF that] price [of "fst g"] by (intro abs_level_cong) (auto simp: same)
  have "level_ok (level_mem b) (order_mem b) g" if "g \<in> set ?R" for g
    using that ok unfolding all_levels_join [of G s gs1 gs2, OF G] by blast
  then have "level_ok ?h (order_mem b) g" if "g \<in> set ?R" for g
    using that live [OF that] by (subst level_ok_cong [of _ _ "level_mem b" _ "order_mem b"]) auto
  then have ok': "\<forall>t. \<forall>g \<in> set (G' t). level_ok (level_mem b') (order_mem b') g"
    unfolding all_levels_split [of G' s gs1 "(nd, [])" gs2, OF G's] R same level_ok_agree [OF agree]
    by (simp add: level_ok_new)
  have "distinct (map fst (G s) @ map fst (G (opp s)))"
    using dist(1) unfolding join(3) by (simp add: besides_def G)
  moreover have "nd \<notin> fst ` set (G (opp s))"
    using nd doms(1) unfolding join(4) by (auto simp: besides_def)
  ultimately have "c \<notin> insert nd (fst ` set (G s))" if "c \<in> set (map fst (G (opp s)))" for c
    using that by auto
  then have "side_shape (better_on (opp s)) (level_mem b') (side_at (opp s) b) (map fst (G (opp s)))"
    using shapes [of "opp s"] agree_upto_outside [OF agree]
    by (subst side_shape_frame [of _ _ "level_mem b"]) auto
  then have shape': "\<forall>t. side_shape (better_on t) (level_mem b') (side_at t b') (map fst (G' t))"
    using shape unfolding all_bside [of _ s] by (simp add: G' same)
  have doml: "dom (level_mem b') = insert nd (dom (level_mem b))"
    using agree_upto_dom [OF agree] by simp
  have maps: "map (price_at (level_mem b')) (map fst ?R) = map (price_at (level_mem b)) (map fst ?R)"
    using live price by auto
  have pnd: "price_at (level_mem b') nd = p"
    using price [of nd] by simp
  have "distinct (p # map (price_at (level_mem b)) (map fst ?R))"
    using p dist(3) unfolding join(4,5) by (simp add: image_image)
  then have "distinct (map (price_at (level_mem b')) (glevels G'))"
    unfolding split(5) list.map(2) fst_conv maps pnd .
  moreover have "distinct (glevels G')" "dom (level_mem b') = set (glevels G')"
    using dist(1) doms(1) live(2) unfolding split(3,4) join(3,4) by (auto simp: doml)
  moreover have "distinct (gorders G')" "set (gorders G') = set (gorders G)"
    using dist(2) unfolding split(1,2) join(1,2) by simp_all
  ultimately show "book_wf b' G' X"
    using shape' ok' inv inv2 doms(2) disj unfolding book_wf_def same by simp
qed

lemma book_wf_drop_level:
  assumes wf: "book_wf b G X" and G: "G s = gs1 @ (nd, []) # gs2"
    and agree: "agree_upto level_data (fst ` set (gs1 @ gs2)) ((level_mem b)(nd := None)) (level_mem b')"
    and shape: "side_shape (better_on s) (level_mem b') (side_at s b') (map fst gs1 @ map fst gs2)"
    and inv: "pool_inv LEVEL_POOL_CAPACITY (ob_level_pool b')"
    and same: "ob_order_pool b' = ob_order_pool b" "side_at (opp s) b' = side_at (opp s) b"
    and G': "G' = G(s := gs1 @ gs2)"
  shows "book_wf b' G' X"
    and "\<And>g. g \<in> set (besides G s gs1 gs2) \<Longrightarrow> abs_level b' g = abs_level b g"
proof -
  let ?R = "besides G s gs1 gs2" and ?h = "(level_mem b)(nd := None)"
  note split = ghost_split [of G s gs1 "(nd, [])" gs2, OF G, unfolded fst_conv snd_conv]
  have G's: "G' s = gs1 @ gs2" and R: "besides G' s gs1 gs2 = ?R"
    by (simp_all add: G')
  note join = ghost_join [of G' s gs1 gs2, OF G's, unfolded R]
  have inv2: "pool_inv ORDER_POOL_CAPACITY (ob_order_pool b)"
    and shapes: "\<And>t. side_shape (better_on t) (level_mem b) (side_at t b) (map fst (G t))"
    and ok: "\<forall>t. \<forall>g \<in> set (G t). level_ok (level_mem b) (order_mem b) g"
    and dist: "distinct (glevels G)" "distinct (gorders G)" "distinct (map (price_at (level_mem b)) (glevels G))"
    and doms: "dom (level_mem b) = set (glevels G)" "dom (order_mem b) = set (gorders G) \<union> X"
    and disj: "X \<inter> set (gorders G) = {}"
    using wf by (simp_all add: book_wf_def)
  have live: "fst g \<in> dom ?h" "fst g \<noteq> nd" if "g \<in> set ?R" for g
    using that doms(1) dist(1) unfolding split(3,4) by auto
  have price: "price_at (level_mem b') c = price_at ?h c" if "c \<in> dom ?h" for c
    using that by (rule price_at_agree [OF agree])
  have price': "price_at (level_mem b') (fst g) = price_at (level_mem b) (fst g)" if "g \<in> set ?R" for g
    using price [OF live(1) [OF that]] live(2) [OF that] by (simp add: price_at_def)
  show "abs_level b' g = abs_level b g" if "g \<in> set ?R" for g
    using price' [OF that] by (intro abs_level_cong) (auto simp: same)
  have "level_ok (level_mem b) (order_mem b) g" if "g \<in> set ?R" for g
    using that ok unfolding all_levels_split [of G s gs1 "(nd, [])" gs2, OF G] by blast
  then have "level_ok ?h (order_mem b) g" if "g \<in> set ?R" for g
    using that live(2) [OF that] by (subst level_ok_cong [of _ _ "level_mem b" _ "order_mem b"]) auto
  then have ok': "\<forall>t. \<forall>g \<in> set (G' t). level_ok (level_mem b') (order_mem b') g"
    unfolding all_levels_join [of G' s gs1 gs2, OF G's] R same level_ok_agree [OF agree] by blast
  have "distinct (map fst (G s) @ map fst (G (opp s)))"
    using dist(1) unfolding split(3) by (auto simp: besides_def G)
  then have "c \<notin> fst ` set (gs1 @ gs2)" "c \<noteq> nd" if "c \<in> set (map fst (G (opp s)))" for c
    using that G by auto
  then have "level_mem b' c = level_mem b c" if "c \<in> set (map fst (G (opp s)))" for c
    using agree_upto_outside [OF agree, of c] that by (metis fun_upd_other)
  then have "side_shape (better_on (opp s)) (level_mem b') (side_at (opp s) b) (map fst (G (opp s)))"
    using shapes [of "opp s"] by (subst side_shape_frame [of _ _ "level_mem b"]) auto
  then have shape': "\<forall>t. side_shape (better_on t) (level_mem b') (side_at t b') (map fst (G' t))"
    using shape unfolding all_bside [of _ s] by (simp add: G' same)
  have doml: "dom (level_mem b') = dom (level_mem b) - {nd}"
    using agree_upto_dom [OF agree] by simp
  have maps: "map (price_at (level_mem b')) (map fst ?R) = map (price_at (level_mem b)) (map fst ?R)"
    using price' by simp
  have "distinct (map (price_at (level_mem b')) (glevels G'))"
    using dist(3) unfolding split(5) join(5) maps by simp
  moreover have "distinct (glevels G')" "dom (level_mem b') = set (glevels G')"
    using dist(1) doms(1) unfolding split(3,4) join(3,4) by (auto simp: doml)
  moreover have "distinct (gorders G')" "set (gorders G') = set (gorders G)"
    using dist(2) unfolding split(1,2) join(1,2) by simp_all
  ultimately show "book_wf b' G' X"
    using shape' ok' inv inv2 doms(2) disj unfolding book_wf_def same by simp
qed

subsection \<open>Finding orders and levels\<close>

fun side_name :: "bside \<Rightarrow> side" where
  "side_name Bids = Buy"
| "side_name Asks = Sell"

lemma find_level_shape:
  assumes "side_shape better h sb as" and "distinct (map (price_at h) as)"
  shows "find_level p sb = Some a \<longleftrightarrow> a \<in> set as \<and> price_at h a = p"
    and "find_level p sb = None \<longleftrightarrow> p \<notin> price_at h ` set as"
proof -
  have ix: "find_level p sb = map_of (map (\<lambda>a. (price_at h a, a)) as) p"
    using assms(1) by (simp add: find_level_def index_find_def side_shape_def)
  have "map fst (map (\<lambda>a. (price_at h a, a)) as) = map (price_at h) as"
    by simp
  then have "distinct (map fst (map (\<lambda>a. (price_at h a, a)) as))"
    using assms(2) by (simp only:)
  then show "find_level p sb = Some a \<longleftrightarrow> a \<in> set as \<and> price_at h a = p"
    unfolding ix by (subst map_of_eq_Some_iff) auto
  show "find_level p sb = None \<longleftrightarrow> p \<notin> price_at h ` set as"
    unfolding ix by (force simp: map_of_eq_None_iff)
qed

lemma book_wf_side_prices:
  assumes "book_wf b G X"
  shows "distinct (map (price_at (level_mem b)) (map fst (G s)))"
    and "price_at (level_mem b) ` fst ` set (G s) \<inter> price_at (level_mem b) ` fst ` set (G (opp s)) = {}"
proof -
  have "distinct (map (price_at (level_mem b)) (glevels G))"
    using assms by (simp add: book_wf_def)
  then have d: "distinct (map (price_at (level_mem b)) (map fst (G Bids)))"
    "distinct (map (price_at (level_mem b)) (map fst (G Asks)))"
    "price_at (level_mem b) ` fst ` set (G Bids) \<inter> price_at (level_mem b) ` fst ` set (G Asks) = {}"
    unfolding glevels_def map_append distinct_append set_map by blast+
  show "distinct (map (price_at (level_mem b)) (map fst (G s)))"
    by (cases s) (simp_all only: d)
  show "price_at (level_mem b) ` fst ` set (G s) \<inter> price_at (level_mem b) ` fst ` set (G (opp s)) = {}"
    by (cases s) (use d(3) in \<open>auto simp only: opp.simps\<close>)
qed

lemma find_level_book:
  assumes "book_wf b G X"
  shows "find_level p (side_at s b) = Some a \<longleftrightarrow> a \<in> fst ` set (G s) \<and> price_at (level_mem b) a = p"
    and "find_level p (side_at s b) = None \<longleftrightarrow> p \<notin> price_at (level_mem b) ` fst ` set (G s)"
  by (rule find_level_shape [OF book_wf_shapes [OF assms, of s] book_wf_side_prices(1) [OF assms],
      unfolded set_map])+

lemma locate_level_book:
  assumes wf: "book_wf b G X" and a: "a \<in> fst ` set (G s)"
  shows "locate_level (price_at (level_mem b) a) b = ret (a, side_name s)"
proof -
  let ?p = "price_at (level_mem b) a"
  have here: "find_level ?p (side_at s b) = Some a"
    using find_level_book(1) [OF wf] a by simp
  have "?p \<notin> price_at (level_mem b) ` fst ` set (G (opp s))"
    using book_wf_side_prices(2) [OF wf, of s] a by auto
  then have "find_level ?p (side_at (opp s) b) = None"
    using find_level_book(2) [OF wf] by simp
  with here show ?thesis
    by (cases s) (simp_all add: locate_level_def)
qed

text \<open>Every order of a queue, with its place and its level.\<close>

lemma book_located:
  assumes wf: "book_wf b G X" and x: "x \<in> set (gorders G)"
  obtains s gs1 a xs ys gs2 z y where
    "G s = gs1 @ (a, xs @ x # ys) # gs2" and "level_mem b a = Some z" and "order_mem b x = Some y"
    and "il_rep (order_mem b) (pl_orders z) (xs @ x # ys)"
    and "level_sums z (map (order_at (order_mem b)) (xs @ x # ys))"
    and "locate_level (lo_price y) b = ret (a, side_name s)"
proof -
  obtain s a us where g: "(a, us) \<in> set (G s)" and us: "x \<in> set us"
    using x by (auto simp: gorders_def)
  obtain xs ys where us_eq: "us = xs @ x # ys"
    using split_list [OF us] by blast
  obtain gs1 gs2 where G: "G s = gs1 @ (a, us) # gs2"
    using split_list [OF g] by blast
  have "level_ok (level_mem b) (order_mem b) (a, us)"
    using wf g by (auto simp: book_wf_def)
  then obtain z where z: "level_mem b a = Some z" "il_rep (order_mem b) (pl_orders z) us"
    "level_sums z (map (order_at (order_mem b)) us)"
    by (auto simp: level_ok_def)
  obtain y where y: "order_mem b x = Some y"
    using il_rep_live [OF z(2) us] by blast
  have "lo_price y = price_at (level_mem b) a"
    using z(1,3) us y by (auto simp: level_sums_def price_at_def order_at_def)
  moreover have "a \<in> fst ` set (G s)"
    using g by force
  ultimately have "locate_level (lo_price y) b = ret (a, side_name s)"
    using locate_level_book [OF wf] by simp
  with G z y us_eq that show ?thesis
    by blast
qed

lemma lookup_unique:
  assumes "lookup_ok b" and "x \<in> dom (order_mem b)" and "y \<in> dom (order_mem b)"
    and "rid (order_at (order_mem b) x) = rid (order_at (order_mem b) y)"
  shows "x = y"
proof -
  have L: "ob_lookup b (rid (order_at (order_mem b) u)) = Some u" if "u \<in> dom (order_mem b)" for u
    using assms(1) that by (simp add: lookup_ok_def)
  then have "Some x = Some y"
    using L [OF assms(2)] L [OF assms(3)] unfolding assms(4) by simp
  then show ?thesis
    by simp
qed

subsection \<open>Runs of the primitives\<close>

text \<open>The book with other contents of its two memories.\<close>

definition with_mem :: "order_book \<Rightarrow> level_heap \<Rightarrow> order_heap \<Rightarrow> order_book" where
  "with_mem b lh oh = b\<lparr>ob_level_pool := (ob_level_pool b)\<lparr>storage := lh\<rparr>,
                       ob_order_pool := (ob_order_pool b)\<lparr>storage := oh\<rparr>\<rparr>"

lemma with_mem_simps [simp]:
  "level_mem (with_mem b lh oh) = lh" "order_mem (with_mem b lh oh) = oh"
  "free_list (ob_level_pool (with_mem b lh oh)) = free_list (ob_level_pool b)"
  "free_list (ob_order_pool (with_mem b lh oh)) = free_list (ob_order_pool b)"
  "ob_bids (with_mem b lh oh) = ob_bids b" "ob_asks (with_mem b lh oh) = ob_asks b"
  "ob_lookup (with_mem b lh oh) = ob_lookup b" "ob_listener (with_mem b lh oh) = ob_listener b"
  "ob_events (with_mem b lh oh) = ob_events b"
  "side_at s (with_mem b lh oh) = side_at s b"
  "with_mem (with_mem b lh oh) lh' oh' = with_mem b lh' oh'"
  by (cases s; simp add: with_mem_def)+

lemma upd_level_with [simp]:
  "level_mem b a = Some z \<Longrightarrow> upd_level a f b = ret (with_mem b ((level_mem b)(a \<mapsto> f z)) (order_mem b))"
  by (simp add: upd_level_def with_mem_def)

lemma upd_order_with [simp]:
  "order_mem b x = Some y \<Longrightarrow> upd_order x f b = ret (with_mem b (level_mem b) ((order_mem b)(x \<mapsto> f y)))"
  by (simp add: upd_order_def with_mem_def)

lemma level_append_run:
  assumes "level_mem b a = Some z" and "il_rep (order_mem b) (pl_orders z) xs"
    and "order_mem b x = Some y" and "x \<notin> set xs"
  shows "\<exists>l h. level_append a x b = ret (with_mem b ((level_mem b)(a \<mapsto> z\<lparr>pl_orders := l\<rparr>)) h) \<and>
    il_rep h l (xs @ [x]) \<and> only_links (insert x (set xs)) (order_mem b) h"
proof -
  obtain l h where "il_append (Some x) (pl_orders z) (order_mem b) = ret (l, h)"
    and "il_rep h l (xs @ [x])" and "only_links (insert x (set xs)) (order_mem b) h"
    using il_append_rep [OF assms(2-4)] by blast
  with assms(1) show ?thesis
    by (intro exI [of _ l] exI [of _ h]) (simp add: level_append_def with_mem_def upd_level_def)
qed

lemma level_remove_run:
  assumes "level_mem b a = Some z" and "il_rep (order_mem b) (pl_orders z) (xs @ x # ys)"
  shows "\<exists>l h. level_remove a x b = ret (with_mem b ((level_mem b)(a \<mapsto> z\<lparr>pl_orders := l\<rparr>)) h) \<and>
    il_rep h l (xs @ ys) \<and> only_links (set (xs @ x # ys)) (order_mem b) h"
proof -
  obtain l h where "il_remove (Some x) (pl_orders z) (order_mem b) = ret (l, h)"
    and "il_rep h l (xs @ ys)" and "only_links (set (xs @ x # ys)) (order_mem b) h"
    using il_remove_rep [OF assms(2)] by blast
  with assms(1) show ?thesis
    by (intro exI [of _ l] exI [of _ h]) (simp add: level_remove_def with_mem_def upd_level_def)
qed

text \<open>The listener sees everything and changes nothing.\<close>

lemma notify_fields [simp]:
  "ob_bids (notify e b) = ob_bids b" "ob_asks (notify e b) = ob_asks b"
  "ob_lookup (notify e b) = ob_lookup b" "ob_level_pool (notify e b) = ob_level_pool b"
  "ob_order_pool (notify e b) = ob_order_pool b" "ob_listener (notify e b) = ob_listener b"
  "side_at s (notify e b) = side_at s b"
  by (cases s; simp add: notify_def)+

lemma book_wf_notify [simp]: "book_wf (notify e b) G X = book_wf b G X"
  by (simp add: book_wf_def)

lemma abs_notify [simp]: "abs_book (notify e b) G = abs_book b G" "abs_level (notify e b) = abs_level b"
  by (auto simp: abs_book_def abs_level_def)

lemma lookup_ok_notify [simp]: "lookup_ok (notify e b) = lookup_ok b"
  by (simp add: lookup_ok_def)

subsection \<open>Steps of the operations\<close>

lemma abs_with_mem:
  assumes "level_mem b a = Some z" and "pl_price z' = pl_price z" and "only_links S (order_mem b) h"
  shows "abs_book (with_mem b ((level_mem b)(a \<mapsto> z')) h) = abs_book b"
proof -
  have "price_at ((level_mem b)(a \<mapsto> z')) c = price_at (level_mem b) c" for c
    using assms(1,2) by (simp add: price_at_def)
  then show ?thesis
    using order_at_agree [OF assms(3)] by (intro ext) (simp add: abs_book_def abs_level_def)
qed

lemma abs_book_upd: "abs_book b (G(s := gs)) = (abs_book b G)(s := map (abs_level b) gs)"
  by (auto simp: abs_book_def)

lemma order_at_same: "only_links S h h' \<Longrightarrow> order_at h' = order_at h"
  using order_at_agree by blast

lemma order_at_Some: "h x = Some y \<Longrightarrow> order_at h x = resting_of y"
  by (simp add: order_at_def)

lemma il_rep_distinct: "il_rep h l xs \<Longrightarrow> distinct xs"
  by (simp add: il_rep_def)

lemma abs_book_cong:
  "(\<And>s g. g \<in> set (G s) \<Longrightarrow> abs_level b' g = abs_level b g) \<Longrightarrow> abs_book b' G = abs_book b G"
  by (intro ext) (simp add: abs_book_def)

lemma book_wf_level_ok: "book_wf b G X \<Longrightarrow> g \<in> set (G s) \<Longrightarrow> level_ok (level_mem b) (order_mem b) g"
  unfolding book_wf_def by blast

lemma book_wf_detached:
  assumes "book_wf b G X" and "G s = gs1 @ (a, xs) # gs2"
  shows "X \<inter> set xs = {}"
  using assms(1) ghost_split(2) [of G s gs1 "(a, xs)" gs2, OF assms(2)] unfolding book_wf_def by auto

text \<open>An order leaves its queue.\<close>

lemma detach_order:
  assumes wf: "book_wf b G X" and G: "G s = gs1 @ (a, xs @ x # ys) # gs2"
    and z: "level_mem b a = Some z" and y: "order_mem b x = Some y"
    and rep: "il_rep (order_mem b) (pl_orders z) (xs @ x # ys)"
    and sums: "level_sums z (map (order_at (order_mem b)) (xs @ x # ys))"
    and z': "\<And>l. pl_price (z' l) = pl_price z" "\<And>l. pl_next (z' l) = pl_next z"
      "\<And>l. pl_prev (z' l) = pl_prev z" "\<And>l. pl_orders (z' l) = l"
      "\<And>l. pl_total_qty (z' l) = pl_total_qty z - lo_remaining_qty y"
      "\<And>l. pl_order_count (z' l) = pl_order_count z - 1"
  shows "\<exists>l h. level_remove a x b = ret (with_mem b ((level_mem b)(a \<mapsto> z\<lparr>pl_orders := l\<rparr>)) h) \<and>
    book_wf (with_mem b ((level_mem b)(a \<mapsto> z' l)) h) (G(s := gs1 @ (a, xs @ ys) # gs2)) (insert x X) \<and>
    only_links (set (xs @ x # ys)) (order_mem b) h \<and> il_rep h l (xs @ ys)"
proof -
  obtain l h where run: "level_remove a x b = ret (with_mem b ((level_mem b)(a \<mapsto> z\<lparr>pl_orders := l\<rparr>)) h)"
    and rep': "il_rep h l (xs @ ys)" and links: "only_links (set (xs @ x # ys)) (order_mem b) h"
    using level_remove_run [OF z rep] by blast
  have "level_sums (z' l) (map (order_at h) (xs @ ys))"
    using sums y by (simp add: level_sums_def z' order_at_same [OF links] order_at_Some ball_Un)
  then have "book_wf (with_mem b ((level_mem b)(a \<mapsto> z' l)) h) (G(s := gs1 @ (a, xs @ ys) # gs2)) (insert x X)"
    using rep' agree_upto_dom [OF links] agree_upto_outside [OF links] il_rep_distinct [OF rep]
      book_wf_detached [OF wf G]
    by (intro book_wf_change_level(1) [OF wf G z, where z' = "z' l"]) (auto simp: z')
  with run links rep' show ?thesis
    by blast
qed

text \<open>A detached order joins the end of a queue.\<close>

lemma attach_order:
  assumes wf: "book_wf b G X" and G: "G s = gs1 @ (a, xs) # gs2"
    and z: "level_mem b a = Some z" and y: "order_mem b x = Some y" and X: "x \<in> X"
    and price: "lo_price y = pl_price z"
    and rep: "il_rep (order_mem b) (pl_orders z) xs"
    and sums: "level_sums z (map (order_at (order_mem b)) xs)"
    and z': "\<And>l. pl_price (z' l) = pl_price z" "\<And>l. pl_next (z' l) = pl_next z"
      "\<And>l. pl_prev (z' l) = pl_prev z" "\<And>l. pl_orders (z' l) = l"
      "\<And>l. pl_total_qty (z' l) = pl_total_qty z + lo_remaining_qty y"
      "\<And>l. pl_order_count (z' l) = pl_order_count z + 1"
  shows "\<exists>l h. level_append a x b = ret (with_mem b ((level_mem b)(a \<mapsto> z\<lparr>pl_orders := l\<rparr>)) h) \<and>
    book_wf (with_mem b ((level_mem b)(a \<mapsto> z' l)) h) (G(s := gs1 @ (a, xs @ [x]) # gs2)) (X - {x}) \<and>
    only_links (insert x (set xs)) (order_mem b) h"
proof -
  have "x \<notin> set xs"
    using book_wf_detached [OF wf G] X by auto
  then obtain l h where run: "level_append a x b = ret (with_mem b ((level_mem b)(a \<mapsto> z\<lparr>pl_orders := l\<rparr>)) h)"
    and rep': "il_rep h l (xs @ [x])" and links: "only_links (insert x (set xs)) (order_mem b) h"
    using level_append_run [OF z rep y] by blast
  have outside: "h u = order_mem b u" if "u \<notin> set xs \<union> X" for u
    using that X by (intro agree_upto_outside [OF links]) auto
  have "level_sums (z' l) (map (order_at h) (xs @ [x]))"
    using sums price y by (simp add: level_sums_def z' order_at_same [OF links] order_at_Some)
  then have "book_wf (with_mem b ((level_mem b)(a \<mapsto> z' l)) h) (G(s := gs1 @ (a, xs @ [x]) # gs2)) (X - {x})"
    using rep' agree_upto_dom [OF links] outside X book_wf_detached [OF wf G]
    by (intro book_wf_change_level(1) [OF wf G z, where z' = "z' l"]) (auto simp: z')
  with run links show ?thesis
    by blast
qed

text \<open>A level that has lost its last order goes away.\<close>

lemma drop_empty_level_book:
  assumes wf: "book_wf b G X" and G: "G s = gs1 @ (a, xs) # gs2" and x: "x \<in> dom (order_mem b)"
    and G': "G' = G(s := gs1 @ (if xs = [] then [] else [(a, xs)]) @ gs2)"
  shows "\<exists>b'. drop_empty_level a (side_name s) x b = ret b' \<and> book_wf b' G' X \<and>
    abs_book b' G' = abs_book b G' \<and> ob_order_pool b' = ob_order_pool b \<and> ob_lookup b' = ob_lookup b"
proof -
  have "level_ok (level_mem b) (order_mem b) (a, xs)"
    using book_wf_level_ok [OF wf, of _ s] G by simp
  then obtain z where z: "level_mem b a = Some z" and rep: "il_rep (order_mem b) (pl_orders z) xs"
    by (auto simp: level_ok_def)
  then have empty: "level_empty z \<longleftrightarrow> xs = []"
    by (simp add: level_empty_def il_rep_empty)
  obtain y where y: "order_mem b x = Some y"
    using x by blast
  show ?thesis
  proof (cases "xs = []")
    case False
    then show ?thesis
      using wf z empty G by (simp add: drop_empty_level_def G' fun_upd_idem)
  next
    case True
    have shape: "side_shape (better_on s) (level_mem b) (side_at s b) (map fst gs1 @ a # map fst gs2)"
      using book_wf_shapes [OF wf, of s] G by simp
    have inv: "pool_inv LEVEL_POOL_CAPACITY (ob_level_pool b)"
      using wf by (simp add: book_wf_def)
    obtain sb lp where remove: "remove_level (Some a) (side_at s b) (ob_level_pool b) = ret (sb, lp)"
      and agree: "agree_upto level_data (fst ` set (gs1 @ gs2)) ((level_mem b)(a := None)) (storage lp)"
      and shape': "side_shape (better_on s) (storage lp) sb (map fst gs1 @ map fst gs2)"
      and inv': "pool_inv LEVEL_POOL_CAPACITY lp"
      using price_priority.remove_level_shape [OF better_on_priority shape inv] by (auto simp: image_Un)
    define b1 where "b1 = (case s of Bids \<Rightarrow> b\<lparr>ob_bids := sb, ob_level_pool := lp\<rparr>
      | Asks \<Rightarrow> b\<lparr>ob_asks := sb, ob_level_pool := lp\<rparr>)"
    have b1: "ob_level_pool b1 = lp" "ob_order_pool b1 = ob_order_pool b" "ob_lookup b1 = ob_lookup b"
      "side_at s b1 = sb" "side_at (opp s) b1 = side_at (opp s) b"
      by (cases s; simp add: b1_def)+
    have run: "drop_empty_level a (side_name s) x b = ret (notify (PriceLevelRemoved (lo_price y) (side_name s)) b1)"
      using z empty True remove y by (cases s) (simp_all add: drop_empty_level_def b1_def)
    have G'_eq: "G' = G(s := gs1 @ gs2)"
      using True G' by simp
    note drop = book_wf_drop_level [of b G X s gs1 a gs2 b1, OF wf _ _ _ _ _ _ G'_eq]
    have wf1: "book_wf b1 G' X" and abs: "\<And>g. g \<in> set (besides G s gs1 gs2) \<Longrightarrow> abs_level b1 g = abs_level b g"
      using drop G True agree shape' inv' by (simp_all add: b1)
    have "set (G' t) \<subseteq> set (besides G s gs1 gs2)" for t
      by (cases s; cases t) (auto simp: G'_eq besides_def)
    then have "abs_book b1 G' = abs_book b G'"
      using abs by (intro abs_book_cong) blast
    with run wf1 b1 show ?thesis
      by simp
  qed
qed

text \<open>A detached order is freed and forgotten.\<close>

lemma release_order_book:
  assumes wf: "book_wf b G X" and x: "x \<in> X"
  shows "\<exists>b'. release_order i x b = ret b' \<and> book_wf b' G (X - {x}) \<and> abs_book b' G = abs_book b G \<and>
    order_mem b' = (order_mem b)(x := None) \<and> ob_lookup b' = (ob_lookup b)(get_id i := None)"
proof -
  have dom: "dom (order_mem b) = set (gorders G) \<union> X" and disj: "X \<inter> set (gorders G) = {}"
    and inv: "pool_inv ORDER_POOL_CAPACITY (ob_order_pool b)"
    using wf by (simp_all add: book_wf_def)
  obtain y where y: "order_mem b x = Some y"
    using dom x by blast
  let ?op = "(ob_order_pool b)\<lparr>storage := (order_mem b)(x := None), free_list := free_list (ob_order_pool b) @ [x]\<rparr>"
  let ?b = "b\<lparr>ob_lookup := (ob_lookup b)(get_id i := None), ob_order_pool := ?op\<rparr>"
  have run: "release_order i x b = ret ?b"
    using pool_deallocate_live(1) [OF inv y] by (simp add: release_order_def lookup_erase_def)
  have notin: "u \<noteq> x" if "g \<in> set (G s)" "u \<in> set (snd g)" for g s u
    using that disj x by (cases s) (auto simp: gorders_def)
  have "level_ok (level_mem b) ((order_mem b)(x := None)) g" if "g \<in> set (G s)" for g s
    using notin [OF that] book_wf_level_ok [OF wf that]
    by (subst level_ok_cong [of _ _ "level_mem b" _ "order_mem b"]) auto
  moreover have "side_at s ?b = side_at s b" for s
    by (cases s) simp_all
  moreover have "pool_inv ORDER_POOL_CAPACITY ?op"
    by (rule pool_deallocate_live(2) [OF inv y])
  ultimately have "book_wf ?b G (X - {x})"
    using wf dom disj x by (auto simp: book_wf_def)
  moreover have "abs_book ?b G = abs_book b G"
    using notin by (intro abs_book_cong abs_level_cong) auto
  ultimately show ?thesis
    using run by simp
qed

subsection \<open>Queue changes on the abstract book\<close>

text \<open>A queue change that leaves queues without the order \<open>i\<close> alone.\<close>

definition local_change :: "u64 \<Rightarrow> (resting list \<Rightarrow> resting list) \<Rightarrow> bool" where
  "local_change i f \<longleftrightarrow> (\<forall>os. i \<notin> rid ` set os \<longrightarrow> f os = os)"

lemma local_changes:
  "local_change i (cancel_queue i)" "local_change i (fill_queue i q)" "local_change i (modify_queue i q sq)"
proof -
  have "filter (\<lambda>r. rid r = i \<and> P r) os = []" "filter (\<lambda>r. rid r = i \<longrightarrow> P r) os = os"
    if "i \<notin> rid ` set os" for os P
    using that by (auto simp: filter_empty_conv filter_id_conv)
  moreover have "map (\<lambda>r. if rid r = i \<and> P r then f r else r) os = os"
    "map (\<lambda>r. if rid r = i then f r else r) os = os" if "i \<notin> rid ` set os" for os f P
    using that by (intro map_idI; force)+
  ultimately show "local_change i (fill_queue i q)" "local_change i (modify_queue i q sq)"
    by (simp_all add: local_change_def fill_queue_def modify_queue_def)
  show "local_change i (cancel_queue i)"
    by (auto simp: local_change_def cancel_queue_def filter_id_conv)
qed

lemma map_queues_append: "map_queues f (ls @ ms) = map_queues f ls @ map_queues f ms"
  by (simp add: map_queues_def)

lemma map_queues_Cons:
  "map_queues f ((p, os) # ls) = (if f os = [] then [] else [(p, f os)]) @ map_queues f ls"
  by (simp add: map_queues_def)

lemma map_queues_id: "(\<And>p os. (p, os) \<in> set ls \<Longrightarrow> f os = os \<and> os \<noteq> []) \<Longrightarrow> map_queues f ls = ls"
  by (induction ls) (auto simp: map_queues_def)

lemma map_queues_book:
  assumes inv: "book_inv b G" and G: "G s = gs1 @ (a, us) # gs2" and x: "x \<in> set us"
    and i: "rid (order_at (order_mem b) x) = i" and f: "local_change i f"
  shows "(\<lambda>t. map_queues f (abs_book b G t)) = (abs_book b G)(s := map (abs_level b) gs1 @
    (let os = f (map (order_at (order_mem b)) us) in
       if os = [] then [] else [(price_at (level_mem b) a, os)]) @ map (abs_level b) gs2)"
proof -
  have wf: "book_wf b G {}" and look: "lookup_ok b" and ne: "\<And>t g. g \<in> set (G t) \<Longrightarrow> snd g \<noteq> []"
    using inv by (auto simp: book_inv_def)
  have dom: "dom (order_mem b) = set (gorders G)" and dist: "distinct (gorders G)"
    using wf by (simp_all add: book_wf_def)
  note split = ghost_split [of G s gs1 "(a, us)" gs2, OF G, unfolded snd_conv]
  have id: "f (snd (abs_level b g)) = snd (abs_level b g) \<and> snd (abs_level b g) \<noteq> []"
    if g: "g \<in> set (besides G s gs1 gs2)" for g
  proof -
    have "rid (order_at (order_mem b) u) \<noteq> i" if u: "u \<in> set (snd g)" for u
    proof
      assume eq: "rid (order_at (order_mem b) u) = i"
      have "u \<in> dom (order_mem b)" "x \<in> dom (order_mem b)" "u \<noteq> x"
        using u g x dist unfolding dom split by auto
      with lookup_unique [OF look] eq i show False
        by metis
    qed
    then have "i \<notin> rid ` set (snd (abs_level b g))"
      by (auto simp: abs_level_def)
    moreover have "g \<in> set (G s) \<or> g \<in> set (G (opp s))"
      using g unfolding besides_def G by auto
    then have "snd g \<noteq> []"
      using ne by blast
    ultimately show ?thesis
      using f by (simp add: abs_level_def local_change_def)
  qed
  have same: "map_queues f (map (abs_level b) gs) = map (abs_level b) gs"
    if sub: "set gs \<subseteq> set (besides G s gs1 gs2)" for gs
  proof (rule map_queues_id)
    fix p os
    assume "(p, os) \<in> set (map (abs_level b) gs)"
    then obtain g where "g \<in> set gs" "(p, os) = abs_level b g"
      by auto
    then have "os = snd (abs_level b g)" "g \<in> set (besides G s gs1 gs2)"
      using sub by (cases "abs_level b g", auto)
    then show "f os = os \<and> os \<noteq> []"
      using id by simp
  qed
  have "map_queues f (map (abs_level b) gs1) = map (abs_level b) gs1"
    "map_queues f (map (abs_level b) gs2) = map (abs_level b) gs2"
    "map_queues f (map (abs_level b) (G (opp s))) = map (abs_level b) (G (opp s))"
    by (rule same, auto simp: besides_def)+
  note same = this
  show ?thesis
  proof (rule ext)
    fix t
    show "map_queues f (abs_book b G t) = ((abs_book b G)(s := map (abs_level b) gs1 @
      (let os = f (map (order_at (order_mem b)) us) in
         if os = [] then [] else [(price_at (level_mem b) a, os)]) @ map (abs_level b) gs2)) t"
    proof (cases "t = s")
      case True
      then show ?thesis
        by (simp add: abs_book_def G map_queues_append map_queues_Cons abs_level_def [of b "(a, us)"] same Let_def)
    next
      case False
      then have "t = opp s"
        by (cases s; cases t) simp_all
      with False show ?thesis
        by (simp add: abs_book_def same)
    qed
  qed
qed

subsection \<open>Cancelling\<close>

lemma resting_of_eqD:
  assumes "resting_of y' = resting_of y"
  shows "lo_key y' = lo_key y" "lo_price y' = lo_price y" "lo_remaining_qty y' = lo_remaining_qty y"
    "lo_priority_seq y' = lo_priority_seq y"
  using assms by (simp_all add: resting_of_def)

lemma lookup_ok_release:
  assumes look: "lookup_ok b" and links: "only_links S (order_mem b) h" and x: "x \<in> dom (order_mem b)"
    and mem: "order_mem b' = h(x := None)"
    and lk: "ob_lookup b' = (ob_lookup b)(rid (order_at (order_mem b) x) := None)"
  shows "lookup_ok b'"
  unfolding lookup_ok_def
proof (intro allI)
  fix i u
  have "order_at (order_mem b') u = order_at (order_mem b) u" if "u \<noteq> x"
    using that order_at_same [OF links] by (simp add: order_at_def mem fun_eq_iff)
  moreover have "dom (order_mem b') = dom (order_mem b) - {x}"
    using agree_upto_dom [OF links] by (simp add: mem)
  moreover have "ob_lookup b i = Some u \<longleftrightarrow> u \<in> dom (order_mem b) \<and> rid (order_at (order_mem b) u) = i"
    using look by (simp add: lookup_ok_def)
  moreover have "rid (order_at (order_mem b) u) \<noteq> rid (order_at (order_mem b) x)"
    if "u \<in> dom (order_mem b)" "u \<noteq> x"
    using lookup_unique [OF look that(1) x] that(2) by blast
  ultimately show "ob_lookup b' i = Some u \<longleftrightarrow>
      u \<in> dom (order_mem b') \<and> rid (order_at (order_mem b') u) = i"
    by (cases "u = x") (auto simp: lk)
qed

lemma book_inv_orders: "book_inv b G \<Longrightarrow> dom (order_mem b) = set (gorders G)"
  by (simp add: book_inv_def book_wf_def)

lemma nonempty_levels_upd:
  assumes "\<forall>s. \<forall>g \<in> set (G s). snd g \<noteq> []" and "G s = gs1 @ (a, us) # gs2"
  shows "\<forall>t. \<forall>g \<in> set ((G(s := gs1 @ (if vs = [] then [] else [(a, vs)]) @ gs2)) t). snd g \<noteq> []"
proof (intro allI ballI)
  fix t g
  assume "g \<in> set ((G(s := gs1 @ (if vs = [] then [] else [(a, vs)]) @ gs2)) t)"
  then have "g \<in> set (G t) \<or> g = (a, vs) \<and> vs \<noteq> []"
    using assms(2) by (auto split: if_splits)
  then show "snd g \<noteq> []"
    using assms(1) by auto
qed

lemma abs_book_queue:
  "abs_book b (G(s := gs1 @ (if vs = [] then [] else [(a, vs)]) @ gs2)) =
     (abs_book b G)(s := map (abs_level b) gs1 @
       (let os = map (order_at (order_mem b)) vs in
          if os = [] then [] else [(price_at (level_mem b) a, os)]) @ map (abs_level b) gs2)"
  by (simp add: abs_book_upd abs_level_def [of b "(a, vs)"] Let_def)

text \<open>Only one order of a queue has the id.\<close>

lemma queue_ids:
  assumes inv: "book_inv b G" and G: "G s = gs1 @ (a, xs @ x # ys) # gs2"
    and r: "r \<in> set (map (order_at (order_mem b)) (xs @ ys))"
  shows "rid r \<noteq> rid (order_at (order_mem b) x)"
proof -
  obtain u where u: "u \<in> set (xs @ ys)" "r = order_at (order_mem b) u"
    using r by auto
  have "distinct (gorders G)"
    using inv by (simp add: book_inv_def book_wf_def)
  then have "u \<noteq> x"
    using u(1) unfolding ghost_split(1) [of G s gs1 _ gs2, OF G] by auto
  moreover have "u \<in> dom (order_mem b)" "x \<in> dom (order_mem b)"
    using u(1) unfolding book_inv_orders [OF inv] ghost_split(2) [of G s gs1 _ gs2, OF G] by auto
  ultimately show ?thesis
    using lookup_unique [of b u x] inv u(2) unfolding book_inv_def by blast
qed

text \<open>The common end of a cancellation and of a complete fill: the order is taken out of its
  queue, an empty level is removed, the order is forgotten.\<close>

lemma withdraw_order:
  assumes inv: "book_inv b G" and G: "G s = gs1 @ (a, xs @ x # ys) # gs2"
    and z: "level_mem b a = Some z" and y: "order_mem b x = Some y"
    and rep: "il_rep (order_mem b) (pl_orders z) (xs @ x # ys)"
    and sums: "level_sums z (map (order_at (order_mem b)) (xs @ x # ys))"
    and z': "\<And>l. pl_price (z' l) = pl_price z" "\<And>l. pl_next (z' l) = pl_next z"
      "\<And>l. pl_prev (z' l) = pl_prev z" "\<And>l. pl_orders (z' l) = l"
      "\<And>l. pl_total_qty (z' l) = pl_total_qty z - lo_remaining_qty y"
      "\<And>l. pl_order_count (z' l) = pl_order_count z - 1"
    and G': "G' = G(s := gs1 @ (if xs @ ys = [] then [] else [(a, xs @ ys)]) @ gs2)"
  shows "\<exists>l h y1. level_remove a x b = ret (with_mem b ((level_mem b)(a \<mapsto> z\<lparr>pl_orders := l\<rparr>)) h) \<and>
    h x = Some y1 \<and> resting_of y1 = resting_of y \<and>
    (\<forall>b3. b3 = with_mem b ((level_mem b)(a \<mapsto> z' l)) h \<or>
        (\<exists>e. b3 = notify e (with_mem b ((level_mem b)(a \<mapsto> z' l)) h)) \<longrightarrow>
      (\<exists>b4 b5. drop_empty_level a (side_name s) x b3 = ret b4 \<and> order_mem b4 x = Some y1 \<and>
         release_order (key_order_id (lo_key y)) x b4 = ret b5 \<and> book_inv b5 G' \<and> abs_book b5 G' = abs_book b G'))"
proof -
  have wf: "book_wf b G {}" and look: "lookup_ok b" and ne: "\<forall>s. \<forall>g \<in> set (G s). snd g \<noteq> []"
    using inv by (auto simp: book_inv_def)
  obtain l h where remove: "level_remove a x b = ret (with_mem b ((level_mem b)(a \<mapsto> z\<lparr>pl_orders := l\<rparr>)) h)"
    and wf1: "book_wf (with_mem b ((level_mem b)(a \<mapsto> z' l)) h) (G(s := gs1 @ (a, xs @ ys) # gs2)) {x}"
    and links: "only_links (set (xs @ x # ys)) (order_mem b) h"
    using detach_order [OF wf G z y rep sums, of z'] by (auto simp: z')
  obtain y1 where y1: "h x = Some y1" "resting_of y1 = resting_of y"
    using agree_upto_Some [OF links y] by blast
  have "\<exists>b4 b5. drop_empty_level a (side_name s) x b3 = ret b4 \<and> order_mem b4 x = Some y1 \<and>
      release_order (key_order_id (lo_key y)) x b4 = ret b5 \<and> book_inv b5 G' \<and> abs_book b5 G' = abs_book b G'"
    if "b3 = with_mem b ((level_mem b)(a \<mapsto> z' l)) h \<or> (\<exists>e. b3 = notify e (with_mem b ((level_mem b)(a \<mapsto> z' l)) h))" for b3
  proof -
    have wf3: "book_wf b3 (G(s := gs1 @ (a, xs @ ys) # gs2)) {x}" and mem3: "order_mem b3 = h"
      and lk3: "ob_lookup b3 = ob_lookup b"
      using that wf1 by auto
    obtain b4 where drop: "drop_empty_level a (side_name s) x b3 = ret b4" and wf4: "book_wf b4 G' {x}"
      and abs4: "abs_book b4 G' = abs_book b3 G'"
      and b4: "ob_order_pool b4 = ob_order_pool b3" "ob_lookup b4 = ob_lookup b3"
      using drop_empty_level_book [OF wf3, of s gs1 a "xs @ ys" gs2 x G'] y1 by (auto simp: mem3 G')
    obtain b5 where release: "release_order (key_order_id (lo_key y)) x b4 = ret b5" and wf5: "book_wf b5 G' {}"
      and abs5: "abs_book b5 G' = abs_book b4 G'"
      and b5: "order_mem b5 = (order_mem b4)(x := None)"
        "ob_lookup b5 = (ob_lookup b4)(get_id (key_order_id (lo_key y)) := None)"
      using release_order_book [OF wf4, of x] by auto
    have "rid (order_at (order_mem b) x) = get_id (key_order_id (lo_key y))"
      using y by (simp add: order_at_Some rid_def)
    then have "lookup_ok b5"
      using y by (intro lookup_ok_release [OF look links]) (auto simp: b5 b4 mem3 lk3)
    then have "book_inv b5 G'"
      using wf5 nonempty_levels_upd [OF ne G] unfolding book_inv_def G' by blast
    moreover have "abs_book b3 = abs_book b"
      using that abs_with_mem [OF z _ links, of "z' l"] by (auto simp: z' fun_eq_iff)
    ultimately show ?thesis
      using drop release abs4 abs5 y1 by (simp add: b4 mem3)
  qed
  then show ?thesis
    using remove y1 by blast
qed

lemma book_cancel_inv:
  assumes inv: "book_inv b G" and x: "ob_lookup b (get_id i) = Some x"
  shows "\<exists>b' G'. book_cancel i b = ret (True, b') \<and> book_inv b' G' \<and>
    abs_book b' G' = a_cancel (get_id i) (abs_book b G)"
proof -
  have wf: "book_wf b G {}" and look: "lookup_ok b"
    using inv by (auto simp: book_inv_def)
  have xdom: "x \<in> dom (order_mem b)" and xi: "rid (order_at (order_mem b) x) = get_id i"
    using look x by (simp_all add: lookup_ok_def)
  then obtain s gs1 a xs ys gs2 z y where G: "G s = gs1 @ (a, xs @ x # ys) # gs2"
    and z: "level_mem b a = Some z" and y: "order_mem b x = Some y"
    and rep: "il_rep (order_mem b) (pl_orders z) (xs @ x # ys)"
    and sums: "level_sums z (map (order_at (order_mem b)) (xs @ x # ys))"
    and loc: "locate_level (lo_price y) b = ret (a, side_name s)"
    using book_located [OF wf, of x] book_inv_orders [OF inv] by metis
  have i: "key_order_id (lo_key y) = i"
    using xi y by (simp add: rid_def order_at_Some strong_id.expand)
  define z' where "z' l = z\<lparr>pl_orders := l, pl_total_qty := pl_total_qty z - lo_remaining_qty y,
    pl_order_count := pl_order_count z - 1\<rparr>" for l
  have z': "\<And>l. pl_price (z' l) = pl_price z" "\<And>l. pl_next (z' l) = pl_next z"
    "\<And>l. pl_prev (z' l) = pl_prev z" "\<And>l. pl_orders (z' l) = l"
    "\<And>l. pl_total_qty (z' l) = pl_total_qty z - lo_remaining_qty y"
    "\<And>l. pl_order_count (z' l) = pl_order_count z - 1"
    by (simp_all add: z'_def)
  define G' where "G' = G(s := gs1 @ (if xs @ ys = [] then [] else [(a, xs @ ys)]) @ gs2)"
  obtain l h y1 b4 b5 where remove: "level_remove a x b = ret (with_mem b ((level_mem b)(a \<mapsto> z\<lparr>pl_orders := l\<rparr>)) h)"
    and y1: "h x = Some y1" "resting_of y1 = resting_of y"
    and drop: "drop_empty_level a (side_name s) x
        (notify (OrderCancelled y1) (with_mem b ((level_mem b)(a \<mapsto> z' l)) h)) = ret b4"
    and release: "release_order i x b4 = ret b5" and inv5: "book_inv b5 G'" "abs_book b5 G' = abs_book b G'"
    using withdraw_order [OF inv G z y rep sums z' G'_def] unfolding i by blast
  have run: "book_cancel i b = ret (True, b5)"
    using x y loc remove y1 resting_of_eqD(3) [OF y1(2)] drop release
    by (simp add: book_cancel_def lookup_find_def z'_def)
  have "cancel_queue (get_id i) (map (order_at (order_mem b)) (xs @ x # ys)) =
      map (order_at (order_mem b)) (xs @ ys)"
    using queue_ids [OF inv G] by (simp add: cancel_queue_def xi filter_id_conv)
  then have "abs_book b5 G' = a_cancel (get_id i) (abs_book b G)"
    unfolding a_cancel_def inv5(2) unfolding G'_def abs_book_queue
    using map_queues_book [OF inv G _ xi local_changes(1)] by simp
  with run inv5(1) show ?thesis
    by blast
qed

subsection \<open>Changing the quantity of an order\<close>

lemma lookup_ok_same:
  assumes "lookup_ok b" and "dom (order_mem b') = dom (order_mem b)"
    and "\<And>u. rid (order_at (order_mem b') u) = rid (order_at (order_mem b) u)"
    and "ob_lookup b' = ob_lookup b"
  shows "lookup_ok b'"
  using assms by (simp add: lookup_ok_def)

lemma order_at_upd: "order_at (h(x \<mapsto> y)) u = (if u = x then resting_of y else order_at h u)"
  by (simp add: order_at_def)

text \<open>The queue of a level after the order \<open>x\<close> got the content \<open>y'\<close>.\<close>

lemma map_order_at_upd:
  assumes "distinct (xs @ x # ys)"
  shows "map (order_at (h(x \<mapsto> y'))) (xs @ x # ys) = map (order_at h) xs @ resting_of y' # map (order_at h) ys"
  using assms by (simp add: order_at_upd)

lemma requantify_order:
  assumes inv: "book_inv b G" and G: "G s = gs1 @ (a, xs @ x # ys) # gs2"
    and z: "level_mem b a = Some z" and y: "order_mem b x = Some y"
    and rep: "il_rep (order_mem b) (pl_orders z) (xs @ x # ys)"
    and sums: "level_sums z (map (order_at (order_mem b)) (xs @ x # ys))"
    and z': "z' = z\<lparr>pl_total_qty := pl_total_qty z + (lo_remaining_qty y' - lo_remaining_qty y)\<rparr>"
    and y': "lo_key y' = lo_key y" "lo_price y' = lo_price y" "lo_next y' = lo_next y" "lo_prev y' = lo_prev y"
    and b': "b' = with_mem b ((level_mem b)(a \<mapsto> z')) ((order_mem b)(x \<mapsto> y'))"
  shows "book_inv b' G" and "il_rep (order_mem b') (pl_orders z') (xs @ x # ys)"
    and "level_sums z' (map (order_at (order_mem b')) (xs @ x # ys))"
    and "\<And>g. g \<in> set (besides G s gs1 gs2) \<Longrightarrow> abs_level b' g = abs_level b g"
proof -
  have wf: "book_wf b G {}" and look: "lookup_ok b" and ne: "\<forall>s. \<forall>g \<in> set (G s). snd g \<noteq> []"
    using inv by (auto simp: book_inv_def)
  have dist: "distinct (xs @ x # ys)"
    by (rule il_rep_distinct [OF rep])
  show rep': "il_rep (order_mem b') (pl_orders z') (xs @ x # ys)"
    using rep y y' dlseg_same_links [of "order_mem b" x y lo_next y' lo_prev] by (simp add: il_rep_def b' z')
  show sums': "level_sums z' (map (order_at (order_mem b')) (xs @ x # ys))"
    using sums y y' unfolding b' with_mem_simps map_order_at_upd [OF dist]
    by (simp add: level_sums_def z' order_at_Some algebra_simps)
  have doms: "dom (order_mem b') = dom (order_mem b)"
    using y by (auto simp: b')
  have G_id: "G = G(s := gs1 @ (a, xs @ x # ys) # gs2)"
    using G by auto
  have "book_wf b' G {}" and abs: "\<And>g. g \<in> set (besides G s gs1 gs2) \<Longrightarrow> abs_level b' g = abs_level b g"
    using book_wf_change_level [OF wf G z _ _ _ _ _ _ _ doms _ rep' sums' _ _ G_id] by (auto simp: b' z')
  moreover have "lookup_ok b'"
    using look doms by (rule lookup_ok_same) (use y y' in \<open>auto simp: b' order_at_upd order_at_Some rid_def\<close>)
  ultimately show "book_inv b' G" and "\<And>g. g \<in> set (besides G s gs1 gs2) \<Longrightarrow> abs_level b' g = abs_level b g"
    using ne by (auto simp: book_inv_def)
qed

text \<open>A fill leaves the order with the rest, or takes it out when nothing is left.\<close>

lemma fill_queue_at:
  assumes "\<And>r. r \<in> set (rs @ ts) \<Longrightarrow> rid r \<noteq> rid r0"
  shows "fill_queue (rid r0) q (rs @ r0 # ts) =
    rs @ (if ro_qty r0 = q then [] else [r0\<lparr>ro_qty := ro_qty r0 - q\<rparr>]) @ ts"
proof -
  let ?f = "\<lambda>r. if rid r = rid r0 then r\<lparr>ro_qty := ro_qty r - q\<rparr> else r"
  have "map ?f rs = rs" "map ?f ts = ts"
    using assms by (auto intro!: map_idI)
  moreover have "filter (\<lambda>r. rid r = rid r0 \<longrightarrow> ro_qty r \<noteq> 0) rs = rs"
    "filter (\<lambda>r. rid r = rid r0 \<longrightarrow> ro_qty r \<noteq> 0) ts = ts"
    using assms by (auto simp: filter_id_conv)
  ultimately show ?thesis
    by (simp add: fill_queue_def rid_def)
qed

lemma abs_book_besides:
  assumes "\<And>g. g \<in> set (besides G s gs1 gs2) \<Longrightarrow> abs_level b' g = abs_level b g"
  shows "abs_book b' (G(s := gs1 @ (if vs = [] then [] else [(a, vs)]) @ gs2)) =
    (abs_book b G)(s := map (abs_level b) gs1 @
      (let os = map (order_at (order_mem b')) vs in
         if os = [] then [] else [(price_at (level_mem b') a, os)]) @ map (abs_level b) gs2)"
proof -
  have "map (abs_level b') gs1 = map (abs_level b) gs1" "map (abs_level b') gs2 = map (abs_level b) gs2"
    "map (abs_level b') (G (opp s)) = map (abs_level b) (G (opp s))"
    using assms by (auto simp: besides_def)
  moreover have "abs_book b' G t = abs_book b G t" if "t \<noteq> s" for t
  proof -
    have "t = opp s"
      using that by (cases s; cases t) simp_all
    then show ?thesis
      using calculation(3) by (simp only: abs_book_def)
  qed
  ultimately show ?thesis
    unfolding abs_book_queue by (simp only: fun_eq_iff fun_upd_apply) simp
qed

lemma book_fill_located:
  assumes inv: "book_inv b G" and G: "G s = gs1 @ (a, xs @ x # ys) # gs2"
    and y: "order_mem b x = Some y" and q: "q \<le> lo_remaining_qty y"
    and G': "G' = (if lo_remaining_qty y = q
      then G(s := gs1 @ (if xs @ ys = [] then [] else [(a, xs @ ys)]) @ gs2) else G)"
  shows "\<exists>b'. book_fill_order (Some x) q b = ret b' \<and> book_inv b' G' \<and>
    abs_book b' G' = a_fill (rid (resting_of y)) q (abs_book b G)"
proof -
  have wf: "book_wf b G {}"
    using inv by (auto simp: book_inv_def)
  have level: "level_ok (level_mem b) (order_mem b) (a, xs @ x # ys)"
    using book_wf_level_ok [OF wf, of _ s] G by simp
  then obtain z where z: "level_mem b a = Some z"
    and rep: "il_rep (order_mem b) (pl_orders z) (xs @ x # ys)"
    and sums: "level_sums z (map (order_at (order_mem b)) (xs @ x # ys))"
    by (auto simp: level_ok_def)
  have price: "lo_price y = price_at (level_mem b) a"
    using sums y z by (auto simp: level_sums_def price_at_def order_at_Some)
  have loc: "locate_level (lo_price y) b = ret (a, side_name s)"
    unfolding price by (rule locate_level_book [OF wf]) (simp add: G)
  define y' where "y' = y\<lparr>lo_remaining_qty := lo_remaining_qty y - q\<rparr>"
  define z1 where "z1 = z\<lparr>pl_total_qty := pl_total_qty z - q\<rparr>"
  define b2 where "b2 = with_mem b ((level_mem b)(a \<mapsto> z1)) ((order_mem b)(x \<mapsto> y'))"
  define b3 where "b3 = notify (OrderFilled y' q) b2"
  have z1: "z1 = z\<lparr>pl_total_qty := pl_total_qty z + (lo_remaining_qty y' - lo_remaining_qty y)\<rparr>"
    by (simp add: z1_def y'_def)
  have "lo_key y' = lo_key y" "lo_price y' = lo_price y" "lo_next y' = lo_next y" "lo_prev y' = lo_prev y"
    by (simp_all add: y'_def)
  note requant = requantify_order [OF inv G z y rep sums z1 this b2_def]
  have inv3: "book_inv b3 G" and lm3: "level_mem b3 = (level_mem b)(a \<mapsto> z1)"
    and om3: "order_mem b3 = (order_mem b)(x \<mapsto> y')" and abs3: "abs_book b3 = abs_book b2"
    using requant(1) by (auto simp: b3_def b2_def book_inv_def fun_eq_iff)
  have level_eq: "price_at (level_mem b2) a = price_at (level_mem b) a"
    using z by (simp add: b2_def z1_def price_at_def)
  have "x \<in> set (xs @ x # ys)" "rid (order_at (order_mem b) x) = rid (resting_of y)"
    using y by (simp_all add: order_at_Some)
  note spec = map_queues_book [OF inv G this local_changes(2), of q, folded a_fill_def]
  have queue: "fill_queue (rid (resting_of y)) q (map (order_at (order_mem b)) (xs @ x # ys)) =
      map (order_at (order_mem b2)) (if lo_remaining_qty y = q then xs @ ys else xs @ x # ys)"
  proof -
    have "(resting_of y)\<lparr>ro_qty := lo_remaining_qty y - q\<rparr> = resting_of y'"
      by (simp add: y'_def resting_of_def)
    moreover have "map (order_at (order_mem b2)) xs = map (order_at (order_mem b)) xs"
      "map (order_at (order_mem b2)) ys = map (order_at (order_mem b)) ys"
      using il_rep_distinct [OF rep] by (auto simp: b2_def order_at_upd)
    ultimately show ?thesis
      using fill_queue_at [of "map (order_at (order_mem b)) xs" "map (order_at (order_mem b)) ys" "resting_of y" q]
        queue_ids [OF inv G] y by (simp add: order_at_Some b2_def order_at_upd)
  qed
  show ?thesis
  proof (cases "lo_remaining_qty y = q")
    case False
    then have run: "book_fill_order (Some x) q b = ret b3"
      using y q loc z by (simp add: book_fill_order_def assert_run_def b3_def b2_def y'_def z1_def quantity_eq_0_iff [symmetric] flip: units_minus)
    have "G = G(s := gs1 @ (if xs @ x # ys = [] then [] else [(a, xs @ x # ys)]) @ gs2)"
      using G by auto
    then have "abs_book b3 G = a_fill (rid (resting_of y)) q (abs_book b G)"
      using abs_book_besides [of G s gs1 gs2 b2 b, OF requant(4), where vs = "xs @ x # ys" and a = a]
      unfolding spec queue abs3 level_eq using False by (simp only: if_False)
    with run inv3 False show ?thesis
      by (simp add: G')
  next
    case True
    define z' where "z' l = z1\<lparr>pl_orders := l, pl_order_count := pl_order_count z1 - 1\<rparr>" for l
    have y'0: "lo_remaining_qty y' = 0" "units (lo_remaining_qty y') = 0"
      using True by (simp_all add: y'_def)
    have z': "\<And>l. pl_price (z' l) = pl_price z1" "\<And>l. pl_next (z' l) = pl_next z1"
      "\<And>l. pl_prev (z' l) = pl_prev z1" "\<And>l. pl_orders (z' l) = l"
      "\<And>l. pl_total_qty (z' l) = pl_total_qty z1 - lo_remaining_qty y'"
      "\<And>l. pl_order_count (z' l) = pl_order_count z1 - 1"
      by (simp_all add: z'_def y'0)
    have b3: "level_mem b3 a = Some z1" "order_mem b3 x = Some y'"
      "il_rep (order_mem b3) (pl_orders z1) (xs @ x # ys)"
      "level_sums z1 (map (order_at (order_mem b3)) (xs @ x # ys))"
      using requant(2,3) by (simp_all add: lm3 om3 b2_def)
    have G'_eq: "G' = G(s := gs1 @ (if xs @ ys = [] then [] else [(a, xs @ ys)]) @ gs2)"
      using True by (simp add: G')
    obtain l h y1 b4 b5 where remove: "level_remove a x b3 = ret (with_mem b3 ((level_mem b3)(a \<mapsto> z1\<lparr>pl_orders := l\<rparr>)) h)"
      and drop: "drop_empty_level a (side_name s) x (with_mem b3 ((level_mem b3)(a \<mapsto> z' l)) h) = ret b4"
      and y1: "order_mem b4 x = Some y1" "resting_of y1 = resting_of y'"
      and release: "release_order (key_order_id (lo_key y')) x b4 = ret b5"
      and inv5: "book_inv b5 G'" "abs_book b5 G' = abs_book b3 G'"
      using withdraw_order [OF inv3 G b3 z' G'_eq] by blast
    have run: "book_fill_order (Some x) q b = ret b5"
      using y q loc z remove drop y1(1) release resting_of_eqD(1) [OF y1(2)] y'0
      by (simp add: book_fill_order_def assert_run_def b3_def b2_def y'_def z1_def z'_def)
    have "abs_book b5 G' = a_fill (rid (resting_of y)) q (abs_book b G)"
      using abs_book_besides [of G s gs1 gs2 b2 b, OF requant(4), where vs = "xs @ ys" and a = a]
      unfolding spec queue inv5(2) abs3 level_eq unfolding G'_eq using True by (simp only: if_True simp_thms)
    with run inv5(1) show ?thesis
      by blast
  qed
qed

subsection \<open>Modifying\<close>

lemma modify_queue_at:
  assumes "\<And>r. r \<in> set (rs @ ts) \<Longrightarrow> rid r \<noteq> rid r0"
  shows "modify_queue (rid r0) q sq (rs @ r0 # ts) =
    (if ro_qty r0 < q then rs @ ts @ [r0\<lparr>ro_qty := q, ro_seq := sq\<rparr>]
     else if q < ro_qty r0 then rs @ r0\<lparr>ro_qty := q\<rparr> # ts else rs @ r0 # ts)"
proof -
  have "filter (\<lambda>r. \<not> (rid r = rid r0 \<and> P r)) us = us" "filter (\<lambda>r. rid r = rid r0 \<and> P r) us = []"
    "map (\<lambda>r. if rid r = rid r0 \<and> P r then f r else r) us = us"
    if "set us \<subseteq> set (rs @ ts)" for us f P
    using that assms by (auto simp: filter_id_conv filter_empty_conv intro!: map_idI)
  note same = this [of rs, simplified] this [of ts, simplified]
  show ?thesis
    using less_asym by (auto simp: modify_queue_def same)
qed

text \<open>Taking an order out of its queue and appending it again moves it to the end.\<close>

lemma level_sums_perm: "mset os' = mset os \<Longrightarrow> level_sums z os' = level_sums z os"
proof -
  assume m: "mset os' = mset os"
  then have "sum_list (map ro_qty os') = sum_list (map ro_qty os)"
    by (metis mset_map sum_mset_sum_list)
  with m show ?thesis
    using mset_eq_setD [OF m] mset_eq_length [OF m] by (simp add: level_sums_def)
qed

lemma agree_upto_trans:
  "agree_upto proj S h h1 \<Longrightarrow> agree_upto proj T h1 h2 \<Longrightarrow> S \<union> T \<subseteq> U \<Longrightarrow> agree_upto proj U h h2"
  unfolding agree_upto_def by (metis UnCI subsetD)

lemma requeue_order:
  assumes inv: "book_inv b G" and G: "G s = gs1 @ (a, xs @ x # ys) # gs2"
    and z: "level_mem b a = Some z" and y: "order_mem b x = Some y"
    and rep: "il_rep (order_mem b) (pl_orders z) (xs @ x # ys)"
    and sums: "level_sums z (map (order_at (order_mem b)) (xs @ x # ys))"
    and G': "G' = G(s := gs1 @ (a, xs @ ys @ [x]) # gs2)"
  shows "\<exists>b1 b'. level_remove a x b = ret b1 \<and> level_append a x b1 = ret b' \<and> book_inv b' G' \<and>
    abs_book b' = abs_book b"
proof -
  have wf: "book_wf b G {}" and look: "lookup_ok b" and ne: "\<forall>s. \<forall>g \<in> set (G s). snd g \<noteq> []"
    using inv by (auto simp: book_inv_def)
  obtain l h where remove: "level_remove a x b = ret (with_mem b ((level_mem b)(a \<mapsto> z\<lparr>pl_orders := l\<rparr>)) h)"
    and rep1: "il_rep h l (xs @ ys)" and links1: "only_links (set (xs @ x # ys)) (order_mem b) h"
    using level_remove_run [OF z rep] by blast
  let ?b1 = "with_mem b ((level_mem b)(a \<mapsto> z\<lparr>pl_orders := l\<rparr>)) h"
  obtain y1 where "h x = Some y1"
    using agree_upto_Some [OF links1 y] by blast
  moreover have "x \<notin> set (xs @ ys)"
    using il_rep_distinct [OF rep] by auto
  ultimately obtain l' h' where append: "level_append a x ?b1 =
      ret (with_mem ?b1 ((level_mem ?b1)(a \<mapsto> z\<lparr>pl_orders := l, pl_orders := l'\<rparr>)) h')"
    and rep2: "il_rep h' l' ((xs @ ys) @ [x])" and links2: "only_links (insert x (set (xs @ ys))) h h'"
    using level_append_run [of ?b1 a "z\<lparr>pl_orders := l\<rparr>" "xs @ ys" x y1] rep1 by auto
  let ?z = "z\<lparr>pl_orders := l'\<rparr>"
  let ?b' = "with_mem b ((level_mem b)(a \<mapsto> ?z)) h'"
  have links: "only_links (set (xs @ x # ys)) (order_mem b) h'"
    by (rule agree_upto_trans [OF links1 links2]) auto
  have sums': "level_sums ?z (map (order_at h') (xs @ ys @ [x]))"
  proof -
    have "level_sums z (map (order_at (order_mem b)) (xs @ ys @ [x]))"
      using sums by (subst level_sums_perm [of _ "map (order_at (order_mem b)) (xs @ x # ys)"]) auto
    then show ?thesis
      by (simp add: level_sums_def order_at_same [OF links])
  qed
  have "book_wf ?b' G' {}"
    using rep2 sums' agree_upto_dom [OF links] agree_upto_outside [OF links]
    by (intro book_wf_change_level(1) [OF wf G z, where z' = ?z and xs' = "xs @ ys @ [x]"]) (auto simp: G')
  moreover have "lookup_ok ?b'"
    by (rule lookup_ok_same [OF look]) (simp_all add: agree_upto_dom [OF links] order_at_same [OF links])
  moreover have "\<forall>t. \<forall>g \<in> set (G' t). snd g \<noteq> []"
    using nonempty_levels_upd [OF ne G, of "xs @ ys @ [x]"] by (simp add: G')
  ultimately have "book_inv ?b' G'"
    by (simp add: book_inv_def)
  moreover have "abs_book ?b' = abs_book b"
    by (rule abs_with_mem [OF z _ links]) simp
  moreover have "level_append a x ?b1 = ret ?b'"
    using append by simp
  ultimately show ?thesis
    using remove by blast
qed

lemma book_lookup_located:
  assumes inv: "book_inv b G" and x: "ob_lookup b i = Some x"
  obtains s gs1 a xs ys gs2 z y where
    "G s = gs1 @ (a, xs @ x # ys) # gs2" and "level_mem b a = Some z" and "order_mem b x = Some y"
    and "il_rep (order_mem b) (pl_orders z) (xs @ x # ys)"
    and "level_sums z (map (order_at (order_mem b)) (xs @ x # ys))"
    and "locate_level (lo_price y) b = ret (a, side_name s)" and "rid (resting_of y) = i"
proof -
  have wf: "book_wf b G {}" and look: "lookup_ok b"
    using inv by (auto simp: book_inv_def)
  have "x \<in> set (gorders G)" and xi: "rid (order_at (order_mem b) x) = i"
    using look x book_inv_orders [OF inv] by (simp_all add: lookup_ok_def)
  obtain s gs1 a xs ys gs2 z y where loc: "G s = gs1 @ (a, xs @ x # ys) # gs2"
    "level_mem b a = Some z" "order_mem b x = Some y"
    "il_rep (order_mem b) (pl_orders z) (xs @ x # ys)"
    "level_sums z (map (order_at (order_mem b)) (xs @ x # ys))"
    "locate_level (lo_price y) b = ret (a, side_name s)"
    by (rule book_located [OF wf \<open>x \<in> set (gorders G)\<close>])
  moreover have "rid (resting_of y) = i"
    using xi loc(3) by (simp add: order_at_Some)
  ultimately show ?thesis
    by (rule that)
qed

text \<open>Modifying writes the new quantity first; a larger quantity is then queued again.\<close>

lemma modify_spec:
  assumes inv: "book_inv b G" and G: "G s = gs1 @ (a, xs @ x # ys) # gs2" and y: "order_mem b x = Some y"
    and abs: "\<And>g. g \<in> set (besides G s gs1 gs2) \<Longrightarrow> abs_level b' g = abs_level b g"
    and price: "price_at (level_mem b') a = price_at (level_mem b) a"
    and queue: "map (order_at (order_mem b')) vs =
      modify_queue (rid (resting_of y)) q sq (map (order_at (order_mem b)) xs @ resting_of y # map (order_at (order_mem b)) ys)"
    and vs: "vs \<noteq> []"
  shows "abs_book b' (G(s := gs1 @ (a, vs) # gs2)) = a_modify (rid (resting_of y)) q sq (abs_book b G)"
proof -
  have "x \<in> set (xs @ x # ys)" "rid (order_at (order_mem b) x) = rid (resting_of y)"
    using y by (simp_all add: order_at_Some)
  note spec = map_queues_book [OF inv G this local_changes(3), of q sq, folded a_modify_def]
  have "map (order_at (order_mem b)) (xs @ x # ys) =
      map (order_at (order_mem b)) xs @ resting_of y # map (order_at (order_mem b)) ys"
    using y by (simp add: order_at_Some)
  then show ?thesis
    using abs_book_besides [of G s gs1 gs2 b' b vs a, OF abs] spec vs
    by (simp add: queue [symmetric] price)
qed

lemma book_modify_inv:
  assumes inv: "book_inv b G" and x: "ob_lookup b (get_id i) = Some x"
  shows "\<exists>b' G'. book_modify_qty i q sq b = ret (True, b') \<and> book_inv b' G' \<and>
    abs_book b' G' = a_modify (get_id i) q sq (abs_book b G)"
proof -
  obtain s gs1 a xs ys gs2 z y where G: "G s = gs1 @ (a, xs @ x # ys) # gs2"
    and z: "level_mem b a = Some z" and y: "order_mem b x = Some y"
    and rep: "il_rep (order_mem b) (pl_orders z) (xs @ x # ys)"
    and sums: "level_sums z (map (order_at (order_mem b)) (xs @ x # ys))"
    and loc: "locate_level (lo_price y) b = ret (a, side_name s)" and i: "rid (resting_of y) = get_id i"
    using book_lookup_located [OF inv x] by blast
  let ?os = "map (order_at (order_mem b)) xs" and ?ts = "map (order_at (order_mem b)) ys"
  define y' where "y' = (if q < lo_remaining_qty y then y\<lparr>lo_remaining_qty := q\<rparr>
    else y\<lparr>lo_remaining_qty := q, lo_priority_seq := sq\<rparr>)"
  define z1 where "z1 = z\<lparr>pl_total_qty := pl_total_qty z + (lo_remaining_qty y' - lo_remaining_qty y)\<rparr>"
  define b2 where "b2 = with_mem b ((level_mem b)(a \<mapsto> z1)) ((order_mem b)(x \<mapsto> y'))"
  have q': "lo_remaining_qty y' = q"
    by (simp add: y'_def)
  have "lo_key y' = lo_key y" "lo_price y' = lo_price y" "lo_next y' = lo_next y" "lo_prev y' = lo_prev y"
    by (simp_all add: y'_def)
  note requant = requantify_order [OF inv G z y rep sums z1_def this b2_def]
  have b2: "level_mem b2 a = Some z1" "order_mem b2 x = Some y'"
    and price: "price_at (level_mem b2) a = price_at (level_mem b) a"
    using z by (simp_all add: b2_def z1_def price_at_def)
  have maps: "map (order_at (order_mem b2)) xs = ?os" "map (order_at (order_mem b2)) ys = ?ts"
    using il_rep_distinct [OF rep] by (auto simp: b2_def order_at_upd)
  have at: "modify_queue (rid (resting_of y)) q sq (?os @ resting_of y # ?ts) =
      (if lo_remaining_qty y < q then ?os @ ?ts @ [(resting_of y)\<lparr>ro_qty := q, ro_seq := sq\<rparr>]
       else if q < lo_remaining_qty y then ?os @ (resting_of y)\<lparr>ro_qty := q\<rparr> # ?ts else ?os @ resting_of y # ?ts)"
    using modify_queue_at [of ?os ?ts "resting_of y" q sq] queue_ids [OF inv G] y by (simp add: order_at_Some)
  have G_id: "G = G(s := gs1 @ (a, xs @ x # ys) # gs2)"
    using G by auto
  consider (less) "q < lo_remaining_qty y" | (greater) "lo_remaining_qty y < q" | (equal) "q = lo_remaining_qty y"
    by fastforce
  then show ?thesis
  proof cases
    case less
    have "z1 = z\<lparr>pl_total_qty := pl_total_qty z - (lo_remaining_qty y - q)\<rparr>"
      by (simp add: z1_def q')
    then have "book_modify_qty i q sq b = ret (True, b2)"
      using x y z loc less by (simp add: book_modify_qty_def lookup_find_def b2_def y'_def)
    moreover have "abs_book b2 G = a_modify (get_id i) q sq (abs_book b G)"
      using modify_spec [OF inv G y requant(4) price, of "xs @ x # ys" q sq] less less_not_sym [OF less] b2(2)
      unfolding at i [symmetric] G_id [symmetric] by (simp add: maps order_at_Some y'_def resting_of_def)
    ultimately show ?thesis
      using requant(1) by blast
  next
    case greater
    obtain b3 b4 where run2: "level_remove a x b2 = ret b3" "level_append a x b3 = ret b4"
      and inv4: "book_inv b4 (G(s := gs1 @ (a, xs @ ys @ [x]) # gs2))" and abs4: "abs_book b4 = abs_book b2"
      using requeue_order [OF requant(1) G b2 requant(2,3) refl] by blast
    have "book_modify_qty i q sq b = ret (True, b4)"
      using x y z loc greater less_not_sym [OF greater] run2
      by (simp add: book_modify_qty_def lookup_find_def b2_def z1_def y'_def)
    moreover have "abs_book b4 (G(s := gs1 @ (a, xs @ ys @ [x]) # gs2)) = a_modify (get_id i) q sq (abs_book b G)"
      using modify_spec [OF inv G y requant(4) price, of "xs @ ys @ [x]" q sq] greater less_not_sym [OF greater] b2(2)
      unfolding at i [symmetric] abs4 by (simp add: maps order_at_Some y'_def resting_of_def)
    ultimately show ?thesis
      using inv4 by blast
  next
    case equal
    have "book_modify_qty i q sq b = ret (True, b)"
      using x y loc equal by (simp add: book_modify_qty_def lookup_find_def)
    moreover have "abs_book b G = a_modify (get_id i) q sq (abs_book b G)"
      using modify_spec [OF inv G y refl refl, of "xs @ x # ys" q sq] equal y
      unfolding at i [symmetric] G_id [symmetric] by (simp add: order_at_Some)
    ultimately show ?thesis
      using inv by blast
  qed
qed

subsection \<open>Inserting\<close>

lemma side_name_of: "(s = Buy) = (bside_of s = Bids)"
  by (cases s) simp_all

text \<open>Pools have room as long as the abstract book is smaller than they are.\<close>

lemma order_pool_room:
  assumes "book_wf b G {}" and "length (gorders G) < ORDER_POOL_CAPACITY"
  shows "free_list (ob_order_pool b) \<noteq> []"
proof -
  have "card (dom (order_mem b)) = length (gorders G)"
    using assms(1) by (simp add: book_wf_def distinct_card)
  then show ?thesis
    using assms by (intro free_list_nonempty [of ORDER_POOL_CAPACITY]) (simp_all add: book_wf_def)
qed

lemma level_pool_room:
  assumes "book_wf b G X" and "length (glevels G) < LEVEL_POOL_CAPACITY"
  shows "free_list (ob_level_pool b) \<noteq> []"
proof -
  have "card (dom (level_mem b)) = length (glevels G)"
    using assms(1) by (simp add: book_wf_def distinct_card)
  then show ?thesis
    using assms by (intro free_list_nonempty [of LEVEL_POOL_CAPACITY]) (simp_all add: book_wf_def)
qed

text \<open>A fresh order that is in no queue yet.\<close>

lemma alloc_order_book:
  assumes wf: "book_wf b G {}" and x: "order_mem b x = None"
    and op: "storage op = (order_mem b)(x \<mapsto> y)" "pool_inv ORDER_POOL_CAPACITY op"
    and b': "b' = b\<lparr>ob_order_pool := op, ob_lookup := lk\<rparr>"
  shows "book_wf b' G {x}" and "abs_book b' G = abs_book b G"
proof -
  have dom: "dom (order_mem b) = set (gorders G)"
    using wf by (simp add: book_wf_def)
  have notin: "u \<noteq> x" if "g \<in> set (G s)" "u \<in> set (snd g)" for g s u
  proof -
    have "u \<in> set (gorders G)"
      using that by (cases s) (auto simp: gorders_def)
    then show ?thesis
      using dom x by auto
  qed
  have "level_ok (level_mem b) ((order_mem b)(x \<mapsto> y)) g" if "g \<in> set (G s)" for g s
    using notin [OF that] book_wf_level_ok [OF wf that]
    by (subst level_ok_cong [of _ _ "level_mem b" _ "order_mem b"]) auto
  moreover have "side_at s b' = side_at s b" for s
    by (cases s) (simp_all add: b')
  moreover have "x \<notin> set (gorders G)"
    using dom x by auto
  ultimately show "book_wf b' G {x}"
    using wf op dom by (simp add: book_wf_def b')
  show "abs_book b' G = abs_book b G"
    using notin by (intro abs_book_cong abs_level_cong) (auto simp: b' op)
qed

text \<open>Locating or creating the level of a new order.\<close>

lemma level_for_found:
  assumes wf: "book_wf b G X" and s: "bside_of sd = s" and p: "p \<in> price_at (level_mem b) ` fst ` set (G s)"
  obtains a xs gs1 gs2 where "level_for sd p b = ret (a, b)" and "G s = gs1 @ (a, xs) # gs2"
    and "price_at (level_mem b) a = p"
proof -
  obtain g where g: "g \<in> set (G s)" "price_at (level_mem b) (fst g) = p"
    using p by auto
  obtain gs1 gs2 where split: "G s = gs1 @ g # gs2"
    using split_list [OF g(1)] by blast
  have "find_level p (side_at s b) = Some (fst g)"
    using find_level_book(1) [OF wf, of p s "fst g"] g by auto
  then have "level_for sd p b = ret (fst g, b)"
    using s by (cases sd) (auto simp: level_for_def)
  then show ?thesis
    using that [of "fst g" gs1 "snd g" gs2] split g(2) by simp
qed

lemma level_for_created:
  assumes wf: "book_wf b G X" and s: "bside_of sd = s"
    and p: "p \<notin> price_at (level_mem b) ` set (glevels G)"
    and room: "free_list (ob_level_pool b) \<noteq> []"
    and gs: "gs1 = takeWhile (\<lambda>g. better_on s (price_at (level_mem b) (fst g)) p) (G s)"
      "gs2 = dropWhile (\<lambda>g. better_on s (price_at (level_mem b) (fst g)) p) (G s)"
  shows "\<exists>a b'. level_for sd p b = ret (a, b') \<and> book_wf b' (G(s := gs1 @ (a, []) # gs2)) X \<and>
    price_at (level_mem b') a = p \<and> ob_order_pool b' = ob_order_pool b \<and> ob_lookup b' = ob_lookup b \<and>
    (\<forall>g \<in> set (besides G s gs1 gs2). abs_level b' g = abs_level b g)"
proof -
  have inv: "pool_inv LEVEL_POOL_CAPACITY (ob_level_pool b)"
    using wf by (simp add: book_wf_def)
  have "set (map fst (G s)) \<subseteq> set (glevels G)"
    by (cases s) (auto simp: glevels_def)
  then have ps: "p \<notin> price_at (level_mem b) ` set (map fst (G s))"
    using p by auto
  have maps: "takeWhile (\<lambda>a. better_on s (price_at (level_mem b) a) p) (map fst (G s)) = map fst gs1"
    "dropWhile (\<lambda>a. better_on s (price_at (level_mem b) a) p) (map fst (G s)) = map fst gs2"
    by (simp_all add: gs takeWhile_map dropWhile_map comp_def)
  from price_priority.create_level_shape [OF better_on_priority book_wf_shapes [OF wf, of s] ps inv room]
  obtain a sb lp where create: "create_level (better_on s) p (side_at s b) (ob_level_pool b) = ret (a, sb, lp)"
    and a: "level_mem b a = None"
    and agree: "agree_upto level_data (insert a (fst ` set (G s)))
      ((level_mem b)(a \<mapsto> price_level_default\<lparr>pl_price := p\<rparr>)) (storage lp)"
    and shape: "side_shape (better_on s) (storage lp) sb (map fst gs1 @ a # map fst gs2)"
    and inv': "pool_inv LEVEL_POOL_CAPACITY lp"
    unfolding maps by auto
  define b1 where "b1 = (case s of Bids \<Rightarrow> b\<lparr>ob_bids := sb, ob_level_pool := lp\<rparr>
      | Asks \<Rightarrow> b\<lparr>ob_asks := sb, ob_level_pool := lp\<rparr>)"
  have b1: "ob_level_pool b1 = lp" "ob_order_pool b1 = ob_order_pool b" "ob_lookup b1 = ob_lookup b"
    "side_at s b1 = sb" "side_at (opp s) b1 = side_at (opp s) b"
    by (cases s; simp add: b1_def)+
  have "find_level p (side_at s b) = None"
    using find_level_book(2) [OF wf, of p s] ps by simp
  then have run: "level_for sd p b = ret (a, notify (PriceLevelCreated p (side_name s)) b1)"
    using s create by (cases sd) (auto simp: level_for_def bid_create_level_def ask_create_level_def b1_def)
  have "G s = gs1 @ gs2"
    by (simp add: gs)
  note add = book_wf_add_level [OF wf p a _ _ this _ _ _ refl, of b1]
  have wf1: "book_wf b1 (G(s := gs1 @ (a, []) # gs2)) X"
    and abs: "\<And>g. g \<in> set (besides G s gs1 gs2) \<Longrightarrow> abs_level b1 g = abs_level b g"
    using add agree shape inv' by (simp_all add: b1)
  have "price_at (storage lp) a = p"
    using price_at_agree [OF agree, of a] by simp
  with run wf1 abs b1 show ?thesis
    by simp
qed

text \<open>The abstract insertion, seen from the place of the level.\<close>

lemma add_order_found:
  assumes "distinct (map fst (ls1 @ (p, os) # ls2))"
  shows "add_order better p r (ls1 @ (p, os) # ls2) = ls1 @ (p, os @ [r]) # ls2"
proof -
  have "map (\<lambda>(q, os). (q, if q = p then os @ [r] else os)) ls = ls" if "p \<notin> fst ` set ls" for ls
    using that by (intro map_idI) force
  then show ?thesis
    using assms by (simp add: add_order_def)
qed

lemma add_order_new:
  "p \<notin> fst ` set ls \<Longrightarrow> add_order better p r ls =
     takeWhile (\<lambda>(q, _). better q p) ls @ (p, [r]) # dropWhile (\<lambda>(q, _). better q p) ls"
  by (simp add: add_order_def)

lemma lookup_ok_insert:
  assumes look: "lookup_ok b" and x: "order_mem b x = None" and fresh: "ob_lookup b (rid (order_at h x)) = None"
    and h: "dom h = insert x (dom (order_mem b))" "\<And>u. u \<noteq> x \<Longrightarrow> order_at h u = order_at (order_mem b) u"
    and b': "order_mem b' = h" "ob_lookup b' = (ob_lookup b)(rid (order_at h x) \<mapsto> x)"
  shows "lookup_ok b'"
  unfolding lookup_ok_def
proof (intro allI)
  fix i u
  have L: "ob_lookup b i = Some v \<longleftrightarrow> v \<in> dom (order_mem b) \<and> rid (order_at (order_mem b) v) = i" for i v
    using look by (simp add: lookup_ok_def)
  show "ob_lookup b' i = Some u \<longleftrightarrow> u \<in> dom (order_mem b') \<and> rid (order_at (order_mem b') u) = i"
  proof (cases "u = x")
    case True
    then show ?thesis
      using L [of i x] x by (auto simp: b' h(1))
  next
    case False
    then have "rid (order_at h u) \<noteq> rid (order_at h x)" if "u \<in> dom (order_mem b)"
      using that L [of "rid (order_at h u)" u] fresh h(2) [OF False] by auto
    then show ?thesis
      using L [of i u] False h(2) [OF False] by (auto simp: b' h(1))
  qed
qed

lemma level_for_book:
  assumes wf: "book_wf b G X" and s: "bside_of sd = s"
    and p: "p \<notin> price_at (level_mem b) ` fst ` set (G (opp s))"
    and room: "p \<in> price_at (level_mem b) ` fst ` set (G s) \<or> length (glevels G) < LEVEL_POOL_CAPACITY"
    and ne: "\<forall>s. \<forall>g \<in> set (G s). snd g \<noteq> []"
  shows "\<exists>a b' G' gs1 xs gs2. level_for sd p b = ret (a, b') \<and> book_wf b' G' X \<and>
    G' s = gs1 @ (a, xs) # gs2 \<and> price_at (level_mem b') a = p \<and>
    ob_order_pool b' = ob_order_pool b \<and> ob_lookup b' = ob_lookup b \<and>
    (\<forall>t. \<forall>g \<in> set ((G'(s := gs1 @ gs2)) t). snd g \<noteq> []) \<and>
    (\<forall>r. (abs_book b' G')(s := map (abs_level b') gs1 @
        (p, map (order_at (order_mem b')) xs @ [r]) # map (abs_level b') gs2) =
      (abs_book b G)(s := add_order (better_on s) p r (abs_book b G s)))"
proof (cases "p \<in> price_at (level_mem b) ` fst ` set (G s)")
  case True
  then obtain a xs gs1 gs2 where run: "level_for sd p b = ret (a, b)"
    and G: "G s = gs1 @ (a, xs) # gs2" and a: "price_at (level_mem b) a = p"
    using level_for_found [OF wf s True] by metis
  have eq: "abs_book b G s = map (abs_level b) gs1 @ (p, map (order_at (order_mem b)) xs) # map (abs_level b) gs2"
    by (simp add: abs_book_def G abs_level_def a)
  have "map fst (abs_book b G s) = map (price_at (level_mem b)) (map fst (G s))"
    by (simp add: abs_book_def abs_level_def)
  then have "distinct (map fst (abs_book b G s))"
    using book_wf_side_prices(1) [OF wf, of s] by (simp only:)
  then have "add_order (better_on s) p r (abs_book b G s) =
      map (abs_level b) gs1 @ (p, map (order_at (order_mem b)) xs @ [r]) # map (abs_level b) gs2" for r
    unfolding eq by (rule add_order_found)
  moreover have "\<forall>t. \<forall>g \<in> set ((G(s := gs1 @ gs2)) t). snd g \<noteq> []"
    using nonempty_levels_upd [OF ne G, of "[]"] by simp
  ultimately show ?thesis
    using run wf G a by (intro exI [of _ a] exI [of _ b] exI [of _ G] exI [of _ gs1] exI [of _ xs] exI [of _ gs2]) simp
next
  case False
  then have more: "length (glevels G) < LEVEL_POOL_CAPACITY"
    using room by simp
  define gs1 where "gs1 = takeWhile (\<lambda>g. better_on s (price_at (level_mem b) (fst g)) p) (G s)"
  define gs2 where "gs2 = dropWhile (\<lambda>g. better_on s (price_at (level_mem b) (fst g)) p) (G s)"
  have Gs: "G s = gs1 @ gs2"
    by (simp add: gs1_def gs2_def)
  have "set (glevels G) = fst ` set (G s) \<union> fst ` set (G (opp s))"
    by (cases s) (auto simp: glevels_def)
  then have "p \<notin> price_at (level_mem b) ` set (glevels G)"
    using p False by auto
  from level_for_created [OF wf s this level_pool_room [OF wf more] gs1_def gs2_def]
  obtain a b' where run: "level_for sd p b = ret (a, b')"
    and wf': "book_wf b' (G(s := gs1 @ (a, []) # gs2)) X"
    and b': "price_at (level_mem b') a = p" "ob_order_pool b' = ob_order_pool b" "ob_lookup b' = ob_lookup b"
    and abs: "\<forall>g \<in> set (besides G s gs1 gs2). abs_level b' g = abs_level b g"
    by blast
  have maps: "map (abs_level b') gs1 = map (abs_level b) gs1" "map (abs_level b') gs2 = map (abs_level b) gs2"
    using abs by (auto simp: besides_def)
  have "p \<notin> fst ` set (abs_book b G s)"
    using False by (simp add: abs_book_def abs_level_def image_image)
  then have add: "add_order (better_on s) p r (abs_book b G s) =
      map (abs_level b) gs1 @ (p, [r]) # map (abs_level b) gs2" for r
    by (simp add: add_order_new abs_book_def gs1_def gs2_def takeWhile_map dropWhile_map comp_def
        case_prod_beta abs_level_def)
  have "abs_book b' (G(s := gs1 @ (a, []) # gs2)) t = abs_book b G t" if "t \<noteq> s" for t
  proof -
    have "t = opp s"
      using that by (cases s; cases t) simp_all
    then show ?thesis
      using abs by (auto simp: abs_book_def besides_def)
  qed
  then have "(abs_book b' (G(s := gs1 @ (a, []) # gs2)))(s := ls) = (abs_book b G)(s := ls)" for ls
    by (simp add: fun_eq_iff)
  moreover have "\<forall>t. \<forall>g \<in> set ((G(s := gs1 @ gs2)) t). snd g \<noteq> []"
    using ne Gs [symmetric] by simp
  ultimately show ?thesis
    using run wf' b' by (intro exI [of _ a] exI [of _ b'] exI [of _ "G(s := gs1 @ (a, []) # gs2)"]
        exI [of _ gs1] exI [of _ "[]"] exI [of _ gs2]) (simp add: add maps)
qed

lemma stage_order_book:
  assumes inv: "book_inv b G" and room: "length (gorders G) < ORDER_POOL_CAPACITY"
  shows "\<exists>x y b'. stage_order ord sq b = ret (x, b') \<and> order_mem b x = None \<and>
    book_wf b' G {x} \<and> abs_book b' G = abs_book b G \<and> order_mem b' = (order_mem b)(x \<mapsto> y) \<and>
    level_mem b' = level_mem b \<and> resting_of y = resting_of_order ord sq \<and>
    ob_lookup b' = (ob_lookup b)(get_id (ord_order_id ord) \<mapsto> x)"
proof -
  let ?i = "ord_order_id ord" and ?om = "order_mem b"
  have wf: "book_wf b G {}" and pinv: "pool_inv ORDER_POOL_CAPACITY (ob_order_pool b)"
    using inv by (auto simp: book_inv_def book_wf_def)
  obtain x where alloc: "pool_allocate live_order_default (ob_order_pool b) = ret (x, (ob_order_pool b)
      \<lparr>storage := ?om(x \<mapsto> live_order_default), free_list := butlast (free_list (ob_order_pool b))\<rparr>)"
    and x: "?om x = None" and inv1: "pool_inv ORDER_POOL_CAPACITY ((ob_order_pool b)
      \<lparr>storage := ?om(x \<mapsto> live_order_default), free_list := butlast (free_list (ob_order_pool b))\<rparr>)"
    by (rule pool_allocate_ok [OF pinv order_pool_room [OF wf room]])
  define y where "y = live_order_default\<lparr>lo_key := OrderKey (ord_symbol_id ord) ?i, lo_price := ord_price ord,
    lo_remaining_qty := ord_qty ord, lo_priority_seq := sq, lo_next := None, lo_prev := None\<rparr>"
  define op where "op = (ob_order_pool b)\<lparr>free_list := butlast (free_list (ob_order_pool b)), storage := ?om(x \<mapsto> y)\<rparr>"
  define b1 where "b1 = b\<lparr>ob_order_pool := op, ob_lookup := (ob_lookup b)(get_id ?i \<mapsto> x)\<rparr>"
  have op: "storage op = ?om(x \<mapsto> y)" "pool_inv ORDER_POOL_CAPACITY op"
    using inv1 by (auto simp: op_def pool_inv_def)
  have "stage_order ord sq b = ret (x, b1)"
    by (simp add: stage_order_def alloc with_mem_def b1_def op_def y_def lookup_insert_def)
  moreover have "resting_of y = resting_of_order ord sq"
    by (simp add: y_def resting_of_def resting_of_order_def)
  ultimately show ?thesis
    using alloc_order_book [OF wf x op b1_def] x
    by (intro exI [of _ x] exI [of _ y] exI [of _ b1]) (simp add: b1_def op)
qed

lemma enqueue_order_book:
  assumes wf: "book_wf b G {x}" and G: "G s = gs1 @ (a, xs) # gs2" and y: "order_mem b x = Some y"
    and price: "lo_price y = price_at (level_mem b) a"
  shows "\<exists>b' h. enqueue_order a x (lo_remaining_qty y) b = ret b' \<and>
    book_wf b' (G(s := gs1 @ (a, xs @ [x]) # gs2)) {} \<and> abs_book b' = abs_book b \<and>
    order_mem b' = h \<and> only_links (insert x (set xs)) (order_mem b) h \<and> ob_lookup b' = ob_lookup b"
proof -
  have "level_ok (level_mem b) (order_mem b) (a, xs)"
    using book_wf_level_ok [OF wf, of _ s] G by simp
  then obtain z where z: "level_mem b a = Some z" "il_rep (order_mem b) (pl_orders z) xs"
    "level_sums z (map (order_at (order_mem b)) xs)"
    by (auto simp: level_ok_def)
  have price_z: "lo_price y = pl_price z"
    using z(1) price by (simp add: price_at_def)
  define z' where "z' l = z\<lparr>pl_orders := l, pl_total_qty := pl_total_qty z + lo_remaining_qty y,
    pl_order_count := pl_order_count z + 1\<rparr>" for l
  obtain l h where append: "level_append a x b = ret (with_mem b ((level_mem b)(a \<mapsto> z\<lparr>pl_orders := l\<rparr>)) h)"
    and wf': "book_wf (with_mem b ((level_mem b)(a \<mapsto> z' l)) h) (G(s := gs1 @ (a, xs @ [x]) # gs2)) {}"
    and links: "only_links (insert x (set xs)) (order_mem b) h"
    using attach_order [OF wf G z(1) y _ price_z z(2,3), of z'] by (auto simp: z'_def)
  have "enqueue_order a x (lo_remaining_qty y) b = ret (with_mem b ((level_mem b)(a \<mapsto> z' l)) h)"
    using append by (simp add: enqueue_order_def z'_def)
  moreover have "abs_book (with_mem b ((level_mem b)(a \<mapsto> z' l)) h) = abs_book b"
    by (rule abs_with_mem [OF z(1) _ links]) (simp add: z'_def)
  ultimately show ?thesis
    using wf' links by simp
qed

lemma book_insert_inv:
  assumes inv: "book_inv b G" and s: "bside_of (ord_side ord) = s"
    and fresh: "ob_lookup b (get_id (ord_order_id ord)) = None"
    and p: "ord_price ord \<notin> price_at (level_mem b) ` fst ` set (G (opp s))"
    and room: "length (gorders G) < ORDER_POOL_CAPACITY"
      "ord_price ord \<in> price_at (level_mem b) ` fst ` set (G s) \<or> length (glevels G) < LEVEL_POOL_CAPACITY"
  shows "\<exists>x b' G'. book_insert ord sq b = ret (x, b') \<and> book_inv b' G' \<and>
    abs_book b' G' = a_insert s (resting_of_order ord sq) (abs_book b G) \<and>
    ob_lookup b' = (ob_lookup b)(get_id (ord_order_id ord) \<mapsto> x)"
proof -
  have look: "lookup_ok b" and ne: "\<forall>s. \<forall>g \<in> set (G s). snd g \<noteq> []"
    using inv by (auto simp: book_inv_def)
  obtain x y b1 where stage: "stage_order ord sq b = ret (x, b1)" and x: "order_mem b x = None"
    and wf1: "book_wf b1 G {x}" and abs1: "abs_book b1 G = abs_book b G"
    and b1: "order_mem b1 = (order_mem b)(x \<mapsto> y)" "level_mem b1 = level_mem b"
      "ob_lookup b1 = (ob_lookup b)(get_id (ord_order_id ord) \<mapsto> x)"
    and y: "resting_of y = resting_of_order ord sq"
    using stage_order_book [OF inv room(1)] by metis
  obtain a b2 G2 gs1 xs gs2 where level: "level_for (ord_side ord) (ord_price ord) b1 = ret (a, b2)"
    and wf2: "book_wf b2 G2 {x}" and G2: "G2 s = gs1 @ (a, xs) # gs2"
    and price2: "price_at (level_mem b2) a = ord_price ord"
    and b2: "ob_order_pool b2 = ob_order_pool b1" "ob_lookup b2 = ob_lookup b1"
    and ne2: "\<forall>t. \<forall>g \<in> set ((G2(s := gs1 @ gs2)) t). snd g \<noteq> []"
    and abs2: "\<And>r. (abs_book b2 G2)(s := map (abs_level b2) gs1 @
        (ord_price ord, map (order_at (order_mem b2)) xs @ [r]) # map (abs_level b2) gs2) =
      (abs_book b1 G)(s := add_order (better_on s) (ord_price ord) r (abs_book b1 G s))"
    using level_for_book [OF wf1 s _ _ ne, of "ord_price ord"] p room(2) unfolding b1(2) by blast
  have y2: "order_mem b2 x = Some y" and yf: "lo_price y = price_at (level_mem b2) a" "lo_remaining_qty y = ord_qty ord"
    using y by (simp_all add: b2 b1 price2 resting_of_def resting_of_order_def)
  define G3 where "G3 = G2(s := gs1 @ (a, xs @ [x]) # gs2)"
  obtain b3 h where enq: "enqueue_order a x (ord_qty ord) b2 = ret b3"
    and wf3: "book_wf b3 G3 {}" and abs3: "abs_book b3 = abs_book b2" and b3: "order_mem b3 = h" "ob_lookup b3 = ob_lookup b2"
    and links: "only_links (insert x (set xs)) (order_mem b2) h"
    using enqueue_order_book [OF wf2 G2 y2 yf(1)] unfolding yf(2) G3_def by blast
  obtain y3 where y3: "h x = Some y3"
    using agree_upto_Some [OF links y2] by blast
  have "book_insert ord sq b = ret (x, notify (OrderInserted y3) b3)"
    using stage level enq y3 by (simp add: book_insert_def b3)
  moreover have "lookup_ok b3"
  proof (rule lookup_ok_insert [OF look x, of h])
    have h: "order_at h = order_at ((order_mem b)(x \<mapsto> y))"
      using order_at_same [OF links] by (simp add: b2 b1)
    then have hx: "rid (order_at h x) = get_id (ord_order_id ord)"
      using y by (simp add: order_at_upd rid_def resting_of_order_def)
    show "ob_lookup b (rid (order_at h x)) = None" "ob_lookup b3 = (ob_lookup b)(rid (order_at h x) \<mapsto> x)"
      using fresh by (simp_all add: hx b3 b2 b1)
    show "dom h = insert x (dom (order_mem b))"
      using agree_upto_dom [OF links] by (simp add: b2 b1)
    show "order_at h u = order_at (order_mem b) u" if "u \<noteq> x" for u
      using that by (simp add: h order_at_upd)
  qed (rule b3)
  moreover have "\<forall>t. \<forall>g \<in> set (G3 t). snd g \<noteq> []"
    using ne2 unfolding G3_def by (auto split: if_splits)
  moreover have "abs_book b3 G3 = a_insert s (resting_of_order ord sq) (abs_book b G)"
    using abs2 [of "resting_of_order ord sq"] y y2
    unfolding abs3 G3_def abs_book_upd a_insert_def abs1
    by (simp add: abs_level_def [of b2 "(a, xs @ [x])"] price2 order_at_Some resting_of_order_def)
  ultimately show ?thesis
    using wf3 by (intro exI [of _ x] exI [of _ "notify (OrderInserted y3) b3"] exI [of _ G3])
      (simp add: book_inv_def b3 b2 b1)
qed

section \<open>The refinement\<close>

text \<open>What every abstract book that the code can represent satisfies.\<close>

definition abook_ok :: "abook \<Rightarrow> bool" where
  "abook_ok B \<longleftrightarrow>
     (\<forall>s. sorted_wrt (better_on s) (map fst (B s))) \<and> aprices B Bids \<inter> aprices B Asks = {} \<and>
     distinct (map rid (aorders B)) \<and>
     (\<forall>s. \<forall>(p, os) \<in> set (B s). os \<noteq> [] \<and> (\<forall>r \<in> set os. ro_price r = p))"

lemma abs_book_counts:
  "length (aorders (abs_book b G)) = length (gorders G)"
  "length (abs_book b G Bids @ abs_book b G Asks) = length (glevels G)"
  "aorders (abs_book b G) = map (order_at (order_mem b)) (gorders G)"
proof -
  have "concat (map (snd \<circ> abs_level b) gs) = map (order_at (order_mem b)) (concat (map snd gs))" for gs
    by (induction gs) (simp_all add: abs_level_def)
  then show *: "aorders (abs_book b G) = map (order_at (order_mem b)) (gorders G)"
    by (simp add: aorders_def abs_book_def gorders_def)
  show "length (aorders (abs_book b G)) = length (gorders G)"
    by (simp add: *)
  show "length (abs_book b G Bids @ abs_book b G Asks) = length (glevels G)"
    by (simp add: abs_book_def glevels_def)
qed

lemma abs_book_prices: "aprices (abs_book b G) s = price_at (level_mem b) ` fst ` set (G s)"
  by (simp add: aprices_def abs_book_def abs_level_def image_image)

lemma abs_book_ids:
  assumes "book_inv b G"
  shows "i \<in> aids (abs_book b G) \<longleftrightarrow> ob_lookup b i \<noteq> None"
proof -
  have "ob_lookup b i = Some x \<longleftrightarrow> x \<in> set (gorders G) \<and> rid (order_at (order_mem b) x) = i" for x
    using assms by (simp add: book_inv_def lookup_ok_def flip: book_inv_orders [OF assms])
  then have "ob_lookup b i \<noteq> None \<longleftrightarrow> (\<exists>x \<in> set (gorders G). rid (order_at (order_mem b) x) = i)"
    by auto
  then show ?thesis
    by (auto simp: aids_def abs_book_counts(3))
qed

lemma book_rep_ok:
  assumes "book_rep b B"
  shows "abook_ok B"
proof -
  obtain G where inv: "book_inv b G" and B: "B = abs_book b G"
    using assms by (auto simp: book_rep_def)
  then have wf: "book_wf b G {}" and look: "lookup_ok b" and ne: "\<And>s g. g \<in> set (G s) \<Longrightarrow> snd g \<noteq> []"
    by (auto simp: book_inv_def)
  have "sorted_wrt (better_on s) (map fst (B s))" for s
    using book_wf_shapes [OF wf, of s] by (simp add: side_shape_def B abs_book_def abs_level_def comp_def)
  moreover have "aprices B Bids \<inter> aprices B Asks = {}"
    using book_wf_side_prices(2) [OF wf, of Bids] by (simp add: B abs_book_prices)
  moreover have "inj_on (\<lambda>x. rid (order_at (order_mem b) x)) (set (gorders G))"
    using lookup_unique [OF look] unfolding book_inv_orders [OF inv] by (intro inj_onI) blast
  then have "distinct (map rid (aorders B))"
    using wf by (simp add: B abs_book_counts(3) book_wf_def distinct_map comp_def)
  moreover have "os \<noteq> [] \<and> (\<forall>r \<in> set os. ro_price r = p)" if "(p, os) \<in> set (B s)" for s p os
  proof -
    have "(p, os) \<in> abs_level b ` set (G s)"
      using that by (simp add: B abs_book_def)
    then obtain g where g: "g \<in> set (G s)" "(p, os) = abs_level b g"
      by blast
    then have "p = price_at (level_mem b) (fst g)" "os = map (order_at (order_mem b)) (snd g)"
      by (simp_all add: abs_level_def)
    moreover have "level_ok (level_mem b) (order_mem b) g"
      by (rule book_wf_level_ok [OF wf g(1)])
    ultimately show ?thesis
      using ne [OF g(1)] by (auto simp: level_ok_def level_sums_def price_at_def)
  qed
  ultimately show ?thesis
    unfolding abook_ok_def by blast
qed

lemma map_queues_absent:
  assumes ok: "abook_ok B" and i: "i \<notin> aids B" and f: "local_change i f"
  shows "(\<lambda>s. map_queues f (B s)) = B"
proof
  fix s
  show "map_queues f (B s) = B s"
  proof (rule map_queues_id)
    fix p os
    assume mem: "(p, os) \<in> set (B s)"
    then have "set os \<subseteq> set (aorders B)"
      by (cases s) (auto simp: aorders_def)
    then have "i \<notin> rid ` set os"
      using i by (auto simp: aids_def)
    then show "f os = os \<and> os \<noteq> []"
      using f ok mem by (auto simp: local_change_def abook_ok_def)
  qed
qed

lemma book_new_inv: "book_inv (book_new l) (\<lambda>_. [])"
proof -
  have "side_shape (better_on s) Map.empty (side_at s (book_new l)) []" for s
    by (cases s) (simp_all add: book_new_def)
  moreover have "level_mem (book_new l) = Map.empty" "order_mem (book_new l) = Map.empty"
    "ob_level_pool (book_new l) = pool_new LEVEL_POOL_CAPACITY"
    "ob_order_pool (book_new l) = pool_new ORDER_POOL_CAPACITY" "ob_lookup (book_new l) = Map.empty"
    by (simp_all add: book_new_def pool_new_def)
  ultimately show ?thesis
    by (simp add: book_inv_def book_wf_def lookup_ok_def gorders_def glevels_def)
qed

lemma book_new_rep: "book_rep (book_new l) abook_new"
  unfolding book_rep_def using book_new_inv [of l] by (intro exI [of _ "\<lambda>_. []"]) (simp add: abs_book_def abook_new_def)

text \<open>Inserting needs room for a level only if the price is new.\<close>

lemma book_insert_room_rep:
  assumes rep: "book_rep b B" and fresh: "get_id (ord_order_id ord) \<notin> aids B"
    and price: "ord_price ord \<notin> aprices B (opp (bside_of (ord_side ord)))"
    and room: "length (aorders B) < ORDER_POOL_CAPACITY"
      "ord_price ord \<in> aprices B (bside_of (ord_side ord)) \<or> length (B Bids @ B Asks) < LEVEL_POOL_CAPACITY"
  shows "\<exists>x b'. book_insert ord sq b = ret (x, b') \<and> book_find_order (ord_order_id ord) b' = Some x \<and>
    book_rep b' (a_insert (bside_of (ord_side ord)) (resting_of_order ord sq) B)"
proof -
  obtain G where inv: "book_inv b G" and B: "B = abs_book b G"
    using rep by (auto simp: book_rep_def)
  have "ob_lookup b (get_id (ord_order_id ord)) = None"
    using fresh abs_book_ids [OF inv] by (simp add: B)
  moreover have "ord_price ord \<notin> price_at (level_mem b) ` fst ` set (G (opp (bside_of (ord_side ord))))"
    using price unfolding B abs_book_prices .
  moreover have "length (gorders G) < ORDER_POOL_CAPACITY"
    "ord_price ord \<in> price_at (level_mem b) ` fst ` set (G (bside_of (ord_side ord))) \<or>
     length (glevels G) < LEVEL_POOL_CAPACITY"
    using room unfolding B abs_book_counts(1,2) abs_book_prices by blast+
  ultimately show ?thesis
    using book_insert_inv [OF inv refl, of ord sq] unfolding book_rep_def B book_find_order_def lookup_find_def
    by fastforce
qed

lemma book_insert_rep:
  assumes "book_rep b B" and "get_id (ord_order_id ord) \<notin> aids B"
    and "ord_price ord \<notin> aprices B (opp (bside_of (ord_side ord)))"
    and "length (aorders B) < ORDER_POOL_CAPACITY" "length (B Bids @ B Asks) < LEVEL_POOL_CAPACITY"
  shows "\<exists>x b'. book_insert ord sq b = ret (x, b') \<and> book_find_order (ord_order_id ord) b' = Some x \<and>
    book_rep b' (a_insert (bside_of (ord_side ord)) (resting_of_order ord sq) B)"
  using book_insert_room_rep [OF assms(1-4)] assms(5) by blast

lemma book_cancel_rep:
  assumes rep: "book_rep b B"
  shows "\<exists>b'. book_cancel i b = ret (get_id i \<in> aids B, b') \<and> book_rep b' (a_cancel (get_id i) B)"
proof -
  obtain G where inv: "book_inv b G" and B: "B = abs_book b G"
    using rep by (auto simp: book_rep_def)
  show ?thesis
  proof (cases "ob_lookup b (get_id i)")
    case None
    then have "book_cancel i b = ret (False, b)" and i: "get_id i \<notin> aids B"
      using abs_book_ids [OF inv] by (simp_all add: book_cancel_def lookup_find_def B)
    moreover have "a_cancel (get_id i) B = B"
      unfolding a_cancel_def by (rule map_queues_absent [OF book_rep_ok [OF rep] i local_changes(1)])
    ultimately show ?thesis
      using rep by simp
  next
    case (Some x)
    then have "get_id i \<in> aids B"
      using abs_book_ids [OF inv] by (simp add: B)
    then show ?thesis
      using book_cancel_inv [OF inv Some] B unfolding book_rep_def by metis
  qed
qed

lemma book_modify_rep:
  assumes rep: "book_rep b B"
  shows "\<exists>b'. book_modify_qty i q sq b = ret (get_id i \<in> aids B, b') \<and> book_rep b' (a_modify (get_id i) q sq B)"
proof -
  obtain G where inv: "book_inv b G" and B: "B = abs_book b G"
    using rep by (auto simp: book_rep_def)
  show ?thesis
  proof (cases "ob_lookup b (get_id i)")
    case None
    then have "book_modify_qty i q sq b = ret (False, b)" and i: "get_id i \<notin> aids B"
      using abs_book_ids [OF inv] by (simp_all add: book_modify_qty_def lookup_find_def B)
    moreover have "a_modify (get_id i) q sq B = B"
      unfolding a_modify_def by (rule map_queues_absent [OF book_rep_ok [OF rep] i local_changes(3)])
    ultimately show ?thesis
      using rep by simp
  next
    case (Some x)
    then have "get_id i \<in> aids B"
      using abs_book_ids [OF inv] by (simp add: B)
    then show ?thesis
      using book_modify_inv [OF inv Some] B unfolding book_rep_def by metis
  qed
qed

lemma book_fill_rep:
  assumes rep: "book_rep b B" and x: "order_mem b x = Some y" and q: "q \<le> lo_remaining_qty y"
  shows "\<exists>b'. book_fill_order (Some x) q b = ret b' \<and> book_rep b' (a_fill (rid (resting_of y)) q B)"
proof -
  obtain G where inv: "book_inv b G" and B: "B = abs_book b G"
    using rep by (auto simp: book_rep_def)
  have mem: "x \<in> set (gorders G)" and wf: "book_wf b G {}"
    using x book_inv_orders [OF inv] inv by (auto simp: book_inv_def)
  obtain s gs1 a xs ys gs2 where G: "G s = gs1 @ (a, xs @ x # ys) # gs2"
    by (rule book_located [OF wf mem])
  obtain b' G' where "book_fill_order (Some x) q b = ret b'" "book_inv b' G'"
    "abs_book b' G' = a_fill (rid (resting_of y)) q (abs_book b G)"
    using book_fill_located [OF inv G x q refl] by metis
  then show ?thesis
    unfolding book_rep_def B by metis
qed

text \<open>The readers of the book.\<close>

lemma best_level_rep:
  assumes "book_rep b B"
  shows "book_best_bid b = ret (if B Bids = [] then Price 0 else fst (hd (B Bids)))"
    and "book_best_ask b = ret (if B Asks = [] then Price 0 else fst (hd (B Asks)))"
proof -
  obtain G where inv: "book_inv b G" and B: "B = abs_book b G"
    using assms by (auto simp: book_rep_def)
  then have "side_shape (better_on s) (level_mem b) (side_at s b) (map fst (G s))" for s
    by (simp add: book_inv_def book_wf_def)
  note shape = this [of Bids] this [of Asks]
  show "book_best_bid b = ret (if B Bids = [] then Price 0 else fst (hd (B Bids)))"
    using shape(1) by (cases "G Bids")
      (auto simp: book_best_bid_def B abs_book_def abs_level_def side_shape_def price_at_def)
  show "book_best_ask b = ret (if B Asks = [] then Price 0 else fst (hd (B Asks)))"
    using shape(2) by (cases "G Asks")
      (auto simp: book_best_ask_def B abs_book_def abs_level_def side_shape_def price_at_def)
qed

lemma book_verify_rep:
  assumes "book_rep b B"
  shows "book_verify_invariants b = ret ()"
proof -
  obtain G where inv: "book_inv b G"
    using assms by (auto simp: book_rep_def)
  then have wf: "book_wf b G {}" and ne: "\<And>s g. g \<in> set (G s) \<Longrightarrow> snd g \<noteq> []"
    by (auto simp: book_inv_def)
  have heads: "il_head (pl_orders z) \<noteq> None \<and> il_tail (pl_orders z) \<noteq> None"
    if a: "a \<in> set (map fst (G s))" and z: "level_mem b a = Some z" for s a z
  proof -
    obtain g where g: "g \<in> set (G s)" "a = fst g"
      using a by force
    then have "level_ok (level_mem b) (order_mem b) g" "snd g \<noteq> []"
      using book_wf_level_ok [OF wf] ne by blast+
    then show ?thesis
      using z g(2) by (auto simp: level_ok_def il_rep_def)
  qed
  have "side_verify_invariants (\<le>) (ob_bids b) (level_mem b) = ret ()"
    using book_wf_shapes [OF wf, of Bids] heads [of _ Bids] by (intro side_verify_shape [of "(>)"]) auto
  moreover have "side_verify_invariants (\<ge>) (ob_asks b) (level_mem b) = ret ()"
    using book_wf_shapes [OF wf, of Asks] heads [of _ Asks] by (intro side_verify_shape [of "(<)"]) auto
  ultimately show ?thesis
    by (simp add: book_verify_invariants_def bid_verify_invariants_def ask_verify_invariants_def)
qed

subsection \<open>Clearing\<close>

lemma side_clear_levels:
  assumes shape: "side_shape better (storage lp) sb (map fst gs)"
    and ok: "\<forall>g \<in> set gs. level_ok (storage lp) (storage op) g"
    and dist: "distinct (concat (map snd gs))"
    and inv: "pool_inv LEVEL_POOL_CAPACITY lp" "pool_inv ORDER_POOL_CAPACITY op"
  shows "\<exists>lp' op'. side_clear sb lp op = ret (side_new, lp', op') \<and>
    pool_inv LEVEL_POOL_CAPACITY lp' \<and> pool_inv ORDER_POOL_CAPACITY op' \<and>
    storage lp' = (\<lambda>a. if a \<in> set (map fst gs) then None else storage lp a) \<and>
    storage op' = (\<lambda>x. if x \<in> set (concat (map snd gs)) then None else storage op x)"
proof -
  have chain: "level_chain (storage lp) None (map fst gs) None" and d: "distinct (map fst gs)"
    and best: "bs_best_level sb = front (map fst gs) None"
    using shape by (simp_all add: side_shape_def)
  have "\<forall>(a, xs) \<in> set gs. il_rep (storage op) (pl_orders (the (storage lp a))) xs"
    using ok by (auto simp: level_ok_def)
  from clear_levels_chain [OF chain d this dist inv]
  obtain lp' op' where run: "clear_levels (front (map fst gs) None) lp op = ret (lp', op')"
    and res: "pool_inv LEVEL_POOL_CAPACITY lp'" "pool_inv ORDER_POOL_CAPACITY op'"
      "storage lp' = (\<lambda>a. if a \<in> set (map fst gs) then None else storage lp a)"
      "storage op' = (\<lambda>x. if x \<in> set (concat (map snd gs)) then None else storage op x)"
    by blast
  have "side_clear sb lp op = ret (side_new, lp', op')"
    unfolding side_clear_def best run by (simp add: side_new_def)
  with res show ?thesis
    by blast
qed

lemma empty_book_inv:
  assumes "pool_inv LEVEL_POOL_CAPACITY (ob_level_pool b)" "pool_inv ORDER_POOL_CAPACITY (ob_order_pool b)"
    and "level_mem b = Map.empty" "order_mem b = Map.empty" "ob_lookup b = Map.empty"
    and "ob_bids b = side_new" "ob_asks b = side_new"
  shows "book_inv b (\<lambda>_. [])"
proof -
  have "side_at s b = side_new" for s
    using assms by (cases s) simp_all
  then show ?thesis
    using assms by (simp add: book_inv_def book_wf_def lookup_ok_def gorders_def glevels_def)
qed

lemma book_clear_rep:
  assumes "book_rep b B"
  shows "\<exists>b'. book_clear b = ret b' \<and> book_rep b' abook_new"
proof -
  obtain G where "book_inv b G"
    using assms by (auto simp: book_rep_def)
  then have wf: "book_wf b G {}"
    by (simp add: book_inv_def)
  have dist: "distinct (glevels G)" "distinct (gorders G)"
    and doms: "dom (level_mem b) = set (glevels G)" "dom (order_mem b) = set (gorders G)"
    and inv: "pool_inv LEVEL_POOL_CAPACITY (ob_level_pool b)" "pool_inv ORDER_POOL_CAPACITY (ob_order_pool b)"
    using wf by (simp_all add: book_wf_def)
  let ?lb = "set (map fst (G Bids))" and ?ob = "set (concat (map snd (G Bids)))"
  have disj: "?lb \<inter> set (map fst (G Asks)) = {}" "?ob \<inter> set (concat (map snd (G Asks))) = {}"
    and dists: "distinct (concat (map snd (G Bids)))" "distinct (concat (map snd (G Asks)))"
    using dist unfolding glevels_def gorders_def map_append concat_append distinct_append by blast+
  have "side_shape (better_on s) (level_mem b) (side_at s b) (map fst (G s))"
    and "\<forall>g \<in> set (G s). level_ok (level_mem b) (order_mem b) g" for s
    using wf by (simp_all add: book_wf_def)
  note sides = this(1) [of Bids] this(2) [of Bids] this(1) [of Asks] this(2) [of Asks]
  obtain lp op where run1: "side_clear (ob_bids b) (ob_level_pool b) (ob_order_pool b) = ret (side_new, lp, op)"
    and inv1: "pool_inv LEVEL_POOL_CAPACITY lp" "pool_inv ORDER_POOL_CAPACITY op"
    and mem1: "storage lp = (\<lambda>a. if a \<in> ?lb then None else level_mem b a)"
      "storage op = (\<lambda>x. if x \<in> ?ob then None else order_mem b x)"
    using side_clear_levels [OF sides(1,2) dists(1) inv] by auto
  have "side_shape (better_on Asks) (storage lp) (side_at Asks b) (map fst (G Asks))"
    using sides(3) disj(1) by (subst side_shape_frame [of _ _ "level_mem b"]) (auto simp: mem1)
  moreover have "level_ok (storage lp) (storage op) g" if g: "g \<in> set (G Asks)" for g
  proof -
    have "fst g \<notin> ?lb" "set (snd g) \<inter> ?ob = {}"
      using g disj by auto
    then show ?thesis
      using sides(4) g by (subst level_ok_cong [of _ _ "level_mem b" _ "order_mem b"]) (auto simp: mem1)
  qed
  ultimately obtain lp' op' where run2: "side_clear (ob_asks b) lp op = ret (side_new, lp', op')"
    and inv2: "pool_inv LEVEL_POOL_CAPACITY lp'" "pool_inv ORDER_POOL_CAPACITY op'"
    and mem2: "storage lp' = (\<lambda>a. if a \<in> set (map fst (G Asks)) then None else storage lp a)"
      "storage op' = (\<lambda>x. if x \<in> set (concat (map snd (G Asks))) then None else storage op x)"
    using side_clear_levels [OF _ _ dists(2) inv1, of "better_on Asks" "side_at Asks b"] by auto
  let ?b = "b\<lparr>ob_bids := side_new, ob_asks := side_new, ob_level_pool := lp', ob_order_pool := op',
    ob_lookup := Map.empty\<rparr>"
  have "level_mem b a = None" if "a \<notin> ?lb" "a \<notin> set (map fst (G Asks))" for a
    using that doms(1) unfolding glevels_def map_append set_append by blast
  moreover have "order_mem b x = None" if "x \<notin> ?ob" "x \<notin> set (concat (map snd (G Asks)))" for x
    using that doms(2) unfolding gorders_def map_append concat_append set_append by blast
  ultimately have "storage lp' = Map.empty" "storage op' = Map.empty"
    unfolding mem1 mem2 by (intro ext, simp only: split: if_split, blast)+
  then have "book_inv ?b (\<lambda>_. [])"
    using inv2 by (intro empty_book_inv) simp_all
  moreover have "book_clear b = ret ?b"
    by (simp add: book_clear_def run1 run2)
  ultimately show ?thesis
    unfolding book_rep_def by (intro exI [of _ ?b] conjI exI [of _ "\<lambda>_. []"]) (simp_all add: abs_book_def abook_new_def)
qed

end
