(* ===== verification/Abstract_Matching.thy ===== *)
theory Abstract_Matching
  imports Abstract_Book
begin

text \<open>
  Price-time priority matching on the abstract book: an incoming quantity consumes the best
  level first and within a level the oldest order first. The lemmas show what a matching of
  this kind guarantees; \<open>Matching_Refinement\<close> shows that the engine does it.
\<close>

section \<open>Specification\<close>

text \<open>The fills of one queue, with the quantity of each, what is left of the queue and of the
  incoming quantity.\<close>

fun match_queue :: "quantity \<Rightarrow> resting list \<Rightarrow> (resting \<times> quantity) list \<times> resting list \<times> quantity" where
  "match_queue q [] = ([], [], q)"
| "match_queue q (r # os) =
     (if q = 0 then ([], r # os, q)
      else let m = min q (ro_qty r)
           in if ro_qty r = m
              then let (fs, os', q') = match_queue (q - m) os in ((r, m) # fs, os', q')
              else ([(r, m)], r\<lparr>ro_qty := ro_qty r - m\<rparr> # os, q - m))"

fun match_levels :: "(price \<Rightarrow> bool) \<Rightarrow> quantity \<Rightarrow> (price \<times> resting list) list \<Rightarrow>
    (price \<times> resting \<times> quantity) list \<times> (price \<times> resting list) list \<times> quantity" where
  "match_levels crosses q [] = ([], [], q)"
| "match_levels crosses q ((p, os) # ls) =
     (if q = 0 \<or> \<not> crosses p then ([], (p, os) # ls, q)
      else let (fs, os', q') = match_queue q os
           in if os' = []
              then let (gs, ls', q'') = match_levels crosses q' ls
                   in (map (Pair p) fs @ gs, ls', q'')
              else (map (Pair p) fs, (p, os') # ls, q'))"

text \<open>A limit order crosses the prices at least as good as its own, any other order all.\<close>

definition crosses :: "order \<Rightarrow> price \<Rightarrow> bool" where
  "crosses ord p \<longleftrightarrow> ord_type ord \<noteq> Limit \<or>
     \<not> better_on (opp (bside_of (ord_side ord))) (ord_price ord) p"

text \<open>The fills of an order, the book after them and the quantity that is left; and the book
  after a limit order has come to rest.\<close>

definition a_match :: "order \<Rightarrow> abook \<Rightarrow> (price \<times> resting \<times> quantity) list \<times> abook \<times> quantity" where
  "a_match ord B =
     (let s = opp (bside_of (ord_side ord));
          (fs, ls, q) = match_levels (crosses ord) (ord_qty ord) (B s)
      in (fs, B(s := ls), q))"

definition a_submit :: "order \<Rightarrow> abook \<Rightarrow> abook" where
  "a_submit ord B =
     (let (fs, B', q) = a_match ord B
      in if q \<noteq> 0 \<and> ord_type ord = Limit
         then a_insert (bside_of (ord_side ord)) (resting_of_order ord (ord_seq_num ord)) B'
         else B')"

text \<open>Every bid is below every ask.\<close>

definition uncrossed :: "abook \<Rightarrow> bool" where
  "uncrossed B \<longleftrightarrow> (\<forall>p \<in> aprices B Bids. \<forall>q \<in> aprices B Asks. p < q)"

text \<open>The price and order of every resting order of a side, best first.\<close>

definition flat :: "(price \<times> resting list) list \<Rightarrow> (price \<times> resting) list" where
  "flat ls = concat (map (\<lambda>(p, os). map (Pair p) os) ls)"

definition filled :: "(price \<times> resting \<times> quantity) list \<Rightarrow> nat" where
  "filled fs = sum_list (map (\<lambda>(p, r, m). unat (units m)) fs)"

section \<open>One queue\<close>

text \<open>The four ways a queue is matched, as an induction rule: it is empty, nothing is wanted,
  the first order is taken whole, the first order is taken in part.\<close>

lemma match_queue_induct [consumes 1, case_names empty zero whole part]:
  assumes "match_queue q os = (fs, os', q')"
    and "\<And>q. P q [] [] [] q"
    and "\<And>r os. P 0 (r # os) [] (r # os) 0"
    and "\<And>q r os fs os' q'. q \<noteq> 0 \<Longrightarrow> ro_qty r \<le> q \<Longrightarrow> match_queue (q - ro_qty r) os = (fs, os', q') \<Longrightarrow>
      P (q - ro_qty r) os fs os' q' \<Longrightarrow> P q (r # os) ((r, ro_qty r) # fs) os' q'"
    and "\<And>q r os. q \<noteq> 0 \<Longrightarrow> q < ro_qty r \<Longrightarrow> P q (r # os) [(r, q)] (r\<lparr>ro_qty := ro_qty r - q\<rparr> # os) 0"
  shows "P q os fs os' q'"
  using assms(1)
proof (induction os arbitrary: q fs os' q')
  case (Cons r os)
  consider "q = 0" | (whole) "q \<noteq> 0" "ro_qty r \<le> q" | (part) "q \<noteq> 0" "q < ro_qty r"
    by fastforce
  then show ?case
  proof cases
    case whole
    obtain gs os1 q1 where rec: "match_queue (q - ro_qty r) os = (gs, os1, q1)"
      by (metis prod_cases3)
    moreover have "fs = (r, ro_qty r) # gs" "os' = os1" "q' = q1"
      using Cons.prems whole rec by (auto simp: min_absorb2)
    ultimately show ?thesis
      using assms(4) [OF whole rec] Cons.IH [OF rec] by simp
  next
    case part
    then have "ro_qty r \<noteq> q" "min q (ro_qty r) = q"
      by auto
    then have "fs = [(r, q)]" "os' = r\<lparr>ro_qty := ro_qty r - q\<rparr> # os" "q' = 0"
      using Cons.prems part(1) by auto
    then show ?thesis
      using assms(5) [OF part] by simp
  qed (use Cons.prems assms(3) in auto)
qed (use assms(2) in auto)

lemma match_queue_rest: "match_queue q os = (fs, os', q') \<Longrightarrow> os' = [] \<or> q' = 0"
  by (induction rule: match_queue_induct) simp_all

lemma match_queue_makers: "match_queue q os = (fs, os', q') \<Longrightarrow> map fst fs = take (length fs) os"
  by (induction rule: match_queue_induct) simp_all

lemma unat_units_diff: "m \<le> q \<Longrightarrow> unat (units m) + unat (units (q - m)) = unat (units q)"
  using unat_units_minus [of m q] by (simp add: less_eq_quantity_def word_le_nat_alt)

lemma match_queue_conserves:
  "match_queue q os = (fs, os', q') \<Longrightarrow>
     sum_list (map (\<lambda>(r, m). unat (units m)) fs) + unat (units q') = unat (units q)"
  by (induction rule: match_queue_induct) (auto simp: unat_units_diff [symmetric])

text \<open>Each fill is within its order, and all but the last take the whole order.\<close>

lemma match_queue_fills:
  "match_queue q os = (fs, os', q') \<Longrightarrow>
     (\<forall>(r, m) \<in> set fs. m \<le> ro_qty r) \<and> (\<forall>(r, m) \<in> set (butlast fs). m = ro_qty r)"
  by (induction rule: match_queue_induct) auto

text \<open>What is left of the queue is what was not filled.\<close>

lemma match_queue_left:
  "match_queue q os = (fs, os', q') \<Longrightarrow>
     (os' = drop (length fs) os \<and> (\<forall>(r, m) \<in> set fs. m = ro_qty r)) \<or>
     (\<exists>r m. fs \<noteq> [] \<and> last fs = (r, m) \<and> m < ro_qty r \<and> os' = r\<lparr>ro_qty := ro_qty r - m\<rparr> # drop (length fs) os)"
  by (induction rule: match_queue_induct) auto

section \<open>A side\<close>

lemma match_levels_induct [consumes 1, case_names empty stop level part]:
  assumes "match_levels c q ls = (fs, ls', q')"
    and "\<And>q. P q [] [] [] q"
    and "\<And>q p os ls. q = 0 \<or> \<not> c p \<Longrightarrow> P q ((p, os) # ls) [] ((p, os) # ls) q"
    and "\<And>q p os ls fs q1 gs ls' q'. q \<noteq> 0 \<Longrightarrow> c p \<Longrightarrow> match_queue q os = (fs, [], q1) \<Longrightarrow>
      match_levels c q1 ls = (gs, ls', q') \<Longrightarrow> P q1 ls gs ls' q' \<Longrightarrow>
      P q ((p, os) # ls) (map (Pair p) fs @ gs) ls' q'"
    and "\<And>q p os ls fs os'. q \<noteq> 0 \<Longrightarrow> c p \<Longrightarrow> match_queue q os = (fs, os', 0) \<Longrightarrow> os' \<noteq> [] \<Longrightarrow>
      P q ((p, os) # ls) (map (Pair p) fs) ((p, os') # ls) 0"
  shows "P q ls fs ls' q'"
  using assms(1)
proof (induction ls arbitrary: q fs ls' q')
  case (Cons l ls)
  obtain p os where l: "l = (p, os)"
    by (cases l)
  obtain gs os1 q1 where m: "match_queue q os = (gs, os1, q1)"
    by (metis prod_cases3)
  consider (stop) "q = 0 \<or> \<not> c p" | (level) "q \<noteq> 0" "c p" "os1 = []" | (part) "q \<noteq> 0" "c p" "os1 \<noteq> []"
    by blast
  then show ?case
  proof cases
    case stop
    then show ?thesis
      using Cons.prems assms(3) [OF stop] l by auto
  next
    case level
    obtain hs ls2 q2 where rec: "match_levels c q1 ls = (hs, ls2, q2)"
      by (metis prod_cases3)
    then show ?thesis
      using Cons.prems level m assms(4) [OF level(1,2) _ rec] Cons.IH [OF rec] l by auto
  next
    case part
    then have "q1 = 0"
      using match_queue_rest [OF m] by simp
    then show ?thesis
      using Cons.prems part m assms(5) [OF part(1,2)] l by auto
  qed
qed (use assms(2) in auto)

lemma filled_simps [simp]:
  "filled [] = 0" "filled (fs @ gs) = filled fs + filled gs"
  "filled (map (Pair p) hs) = sum_list (map (\<lambda>(r, m). unat (units m)) hs)"
  by (simp_all add: filled_def comp_def case_prod_unfold)

lemma match_levels_conserves:
  "match_levels c q ls = (fs, ls', q') \<Longrightarrow> filled fs + unat (units q') = unat (units q)"
  by (induction rule: match_levels_induct) (auto dest!: match_queue_conserves)

lemma match_levels_crosses: "match_levels c q ls = (fs, ls', q') \<Longrightarrow> \<forall>(p, r, m) \<in> set fs. c p"
  by (induction rule: match_levels_induct) auto

text \<open>Makers are served in the order of the book.\<close>

lemma flat_simps [simp]: "flat [] = []" "flat ((p, os) # ls) = map (Pair p) os @ flat ls"
  by (simp_all add: flat_def)

lemma match_queue_all: "match_queue q os = (fs, [], q') \<Longrightarrow> map fst fs = os"
  by (induction q os fs "[] :: resting list" q' rule: match_queue_induct) simp_all

lemma match_queue_whole: "match_queue q os = (fs, [], q') \<Longrightarrow> \<forall>(r, m) \<in> set fs. m = ro_qty r"
  by (induction q os fs "[] :: resting list" q' rule: match_queue_induct) auto

lemma match_levels_makers:
  "match_levels c q ls = (fs, ls', q') \<Longrightarrow> map (\<lambda>(p, r, m). (p, r)) fs = take (length fs) (flat ls)"
proof (induction rule: match_levels_induct)
  case (level q p os ls fs q1 gs ls' q')
  have fst: "map (\<lambda>x. (p, fst x)) fs = map (Pair p) os" "length fs = length os"
    using match_queue_all [OF level(3)] by auto
  with level show ?case
    by (simp add: comp_def case_prod_unfold)
next
  case (part q p os ls fs os')
  have "map (\<lambda>x. (p, fst x)) fs = map (Pair p) (take (length fs) os)"
    using match_queue_makers [OF part(3)] by (metis (no_types, lifting) comp_apply map_eq_conv map_map)
  moreover have "length fs \<le> length os"
    using match_queue_makers [OF part(3)] by (metis length_map length_take min.cobounded1)
  ultimately show ?case
    by (simp add: comp_def case_prod_unfold take_map)
qed simp_all

lemma match_levels_fills:
  "match_levels c q ls = (fs, ls', q') \<Longrightarrow>
     (\<forall>(p, r, m) \<in> set fs. m \<le> ro_qty r) \<and> (\<forall>(p, r, m) \<in> set (butlast fs). m = ro_qty r)"
proof (induction rule: match_levels_induct)
  case (level q p os ls fs q1 gs ls' q')
  then show ?case
    using match_queue_whole [OF level(3)] by (auto simp: butlast_append map_butlast [symmetric] dest: in_set_butlastD)
next
  case (part q p os ls fs os')
  then show ?case
    using match_queue_fills [OF part(3)] by (auto simp: map_butlast [symmetric])
qed simp_all

text \<open>If something is left, no level crosses any more.\<close>

lemma match_levels_exhausts:
  assumes "match_levels c q ls = (fs, ls', q')" and "sorted_wrt better (map fst ls)" and "q' \<noteq> 0"
    and "\<And>p p'. better p p' \<Longrightarrow> c p' \<Longrightarrow> c p"
  shows "\<forall>(p, os) \<in> set ls'. \<not> c p"
  using assms(1-3)
proof (induction rule: match_levels_induct)
  case (stop q p os ls)
  then show ?case
    using assms(4) by auto
qed auto

text \<open>The remaining levels are a suffix of the levels, the first perhaps shortened.\<close>

lemma match_levels_prices:
  "match_levels c q ls = (fs, ls', q') \<Longrightarrow> \<exists>n. map fst ls' = drop n (map fst ls)"
proof (induction rule: match_levels_induct)
  case (level q p os ls fs q1 gs ls' q')
  then show ?case
    by (metis drop_Suc_Cons list.simps(9))
qed (auto intro: exI [of _ 0])

end
