(* ===== verification/Matching_Refinement.thy ===== *)
theory Matching_Refinement
  imports Matching_Engine Book_Refinement Abstract_Matching
begin

text \<open>
  The matching loops of \<open>Matching_Engine\<close> do the matching of \<open>Abstract_Matching\<close>: on a
  represented book they return, fill the same orders in the same sequence, and leave the
  represented rest. What they record (trades, reports, counters, sequence numbers) is a fold
  of the fills.
\<close>

section \<open>One match\<close>

text \<open>The records of a match depend on the content of the resting order only.\<close>

definition live_of :: "resting \<Rightarrow> live_order" where
  "live_of r = \<lparr>lo_key = ro_key r, lo_price = ro_price r, lo_remaining_qty = ro_qty r,
                lo_priority_seq = ro_seq r, lo_next = None, lo_prev = None\<rparr>"

definition apply_fill :: "order \<Rightarrow> u64 \<Rightarrow> price \<times> resting \<times> quantity \<Rightarrow> match_state \<Rightarrow> match_state" where
  "apply_fill ord timestamp f st = (case f of (p, r, m) \<Rightarrow> record_match ord timestamp (live_of r) p m st)"

lemma record_match_resting:
  "record_match ord timestamp y p m st = apply_fill ord timestamp (p, resting_of y, m) st"
  by (simp add: apply_fill_def record_match_def build_match_def live_of_def)

lemma apply_fill_simps [simp]:
  "ms_book (apply_fill ord timestamp f st) = ms_book st"
  "apply_fill ord timestamp f (st\<lparr>ms_book := b\<rparr>) = (apply_fill ord timestamp f st)\<lparr>ms_book := b\<rparr>"
  "ms_remaining (apply_fill ord timestamp (p, r, m) st) = ms_remaining st - m"
  by (simp_all add: apply_fill_def record_match_def minus_quantity_def Let_def split: prod.splits)

lemma fold_apply_fill_book:
  "fold (apply_fill ord timestamp) fs (st\<lparr>ms_book := b\<rparr>) = (fold (apply_fill ord timestamp) fs st)\<lparr>ms_book := b\<rparr>"
  by (induction fs arbitrary: st) simp_all

lemma match_state_book_id: "ms_book st = b \<Longrightarrow> st\<lparr>ms_book := b\<rparr> = st"
  by simp

text \<open>The fill of the first order of the first level.\<close>

lemma book_fill_head:
  assumes inv: "book_inv b G" and G: "G s = (a, x # xs) # gs"
    and y: "order_mem b x = Some y" and q: "q \<le> lo_remaining_qty y"
    and os': "os' = (if lo_remaining_qty y = q then [] else [(resting_of y)\<lparr>ro_qty := lo_remaining_qty y - q\<rparr>]) @
      map (order_at (order_mem b)) xs"
    and G': "G' = (if lo_remaining_qty y = q then G(s := (if xs = [] then [] else [(a, xs)]) @ gs) else G)"
  shows "\<exists>b'. book_fill_order (Some x) q b = ret b' \<and> book_inv b' G' \<and>
    abs_book b' G' = (abs_book b G)(s := (if os' = [] then [] else [(price_at (level_mem b) a, os')]) @
      map (abs_level b) gs)"
proof -
  have G0: "G s = [] @ (a, [] @ x # xs) # gs"
    using G by simp
  have mem: "x \<in> set ([] @ x # xs)" and rid_x: "rid (order_at (order_mem b) x) = rid (resting_of y)"
    using y by (simp_all add: order_at_Some)
  have G'0: "G' = (if lo_remaining_qty y = q
      then G(s := [] @ (if [] @ xs = [] then [] else [(a, [] @ xs)]) @ gs) else G)"
    by (simp add: G')
  have fill: "a_fill (rid (resting_of y)) q (abs_book b G) = (abs_book b G)(s :=
      (if os' = [] then [] else [(price_at (level_mem b) a, os')]) @ map (abs_level b) gs)"
    using map_queues_book [OF inv G0 mem rid_x local_changes(2), of q, folded a_fill_def]
      fill_queue_at [of "[]" "map (order_at (order_mem b)) xs" "resting_of y" q] queue_ids [OF inv G0] y
    by (simp add: Let_def order_at_Some os')
  show ?thesis
    using book_fill_located [OF inv G0 y q G'0] unfolding fill .
qed

section \<open>The inner loop\<close>

lemma match_one_head:
  assumes inv: "book_inv (ms_book st) G" and G: "G s = (a, x # xs) # gs"
    and y: "order_mem (ms_book st) x = Some y"
    and m: "m = min (ms_remaining st) (lo_remaining_qty y)" and p: "p = price_at (level_mem (ms_book st)) a"
    and os': "os' = (if lo_remaining_qty y = m then [] else [(resting_of y)\<lparr>ro_qty := lo_remaining_qty y - m\<rparr>]) @
      map (order_at (order_mem (ms_book st))) xs"
    and G': "G' = (if lo_remaining_qty y = m then G(s := (if xs = [] then [] else [(a, xs)]) @ gs) else G)"
  shows "\<exists>b'. match_one ord timestamp a x st = ret ((apply_fill ord timestamp (p, resting_of y, m) st)\<lparr>ms_book := b'\<rparr>) \<and>
    book_inv b' G' \<and> abs_book b' G' = (abs_book (ms_book st) G)(s := (if os' = [] then [] else [(p, os')]) @
      map (abs_level (ms_book st)) gs)"
proof -
  let ?b = "ms_book st"
  have "book_wf ?b G {}"
    using inv by (simp add: book_inv_def)
  then have "level_ok (level_mem ?b) (order_mem ?b) (a, x # xs)"
    using book_wf_level_ok [of ?b G _ _ s] G by simp
  then obtain z where z: "level_mem ?b a = Some z"
    by (auto simp: level_ok_def)
  then have price: "pl_price z = p"
    by (simp add: p price_at_def)
  have qty: "Quantity (min (units (ms_remaining st)) (units (lo_remaining_qty y))) = m"
    by (cases "ms_remaining st"; cases "lo_remaining_qty y") (simp add: m min_def less_eq_quantity_def)
  have "m \<le> lo_remaining_qty y"
    by (simp add: m)
  from book_fill_head [OF inv G y this os' G']
  obtain b' where fill: "book_fill_order (Some x) m ?b = ret b'" and inv': "book_inv b' G'"
    and abs: "abs_book b' G' = (abs_book ?b G)(s := (if os' = [] then [] else [(p, os')]) @ map (abs_level ?b) gs)"
    unfolding p by blast
  have "match_one ord timestamp a x st = ret ((apply_fill ord timestamp (p, resting_of y, m) st)\<lparr>ms_book := b'\<rparr>)"
    unfolding match_one_def using y z fill by (simp add: qty price record_match_resting)
  with inv' abs show ?thesis
    by blast
qed

lemma match_level_done: "ms_remaining st = 0 \<Longrightarrow> match_level ord timestamp a r st = ret st"
  by (subst match_level.simps) (simp split: option.split)

lemma match_level_refines:
  assumes "book_inv (ms_book st) G" and "G s = (if xs = [] then [] else [(a, xs)]) @ gs"
    and "os = map (order_at (order_mem (ms_book st))) xs"
    and "abs_book (ms_book st) G s = (if os = [] then [] else [(p, os)]) @ ls"
    and "match_queue (ms_remaining st) os = (fs, os', q')"
  shows "\<exists>b' G'. match_level ord timestamp a (front xs None) st =
      ret ((fold (apply_fill ord timestamp) (map (Pair p) fs) st)\<lparr>ms_book := b'\<rparr>) \<and> book_inv b' G' \<and>
    abs_book b' G' = (abs_book (ms_book st) G)(s := (if os' = [] then [] else [(p, os')]) @ ls)"
  using assms
proof (induction xs arbitrary: st G os fs)
  case Nil
  then have "fs = []" "os' = []" "(abs_book (ms_book st) G)(s := ls) = abs_book (ms_book st) G"
    by auto
  then show ?case
    using Nil.prems(1) by (subst match_level.simps) (intro exI [of _ "ms_book st"] exI [of _ G], simp)
next
  case (Cons x xs)
  let ?b = "ms_book st" and ?q = "ms_remaining st"
  have inv: "book_inv ?b G" and G: "G s = (a, x # xs) # gs"
    using Cons.prems by simp_all
  have "book_wf ?b G {}"
    using inv by (simp add: book_inv_def)
  then have "level_ok (level_mem ?b) (order_mem ?b) (a, x # xs)"
    using book_wf_level_ok [of ?b G _ _ s] G by simp
  then obtain y where y: "order_mem ?b x = Some y" "lo_next y = front xs None"
    by (auto simp: level_ok_def il_rep_def)
  define rest where "rest = map (order_at (order_mem ?b)) xs"
  have os: "os = resting_of y # rest"
    using Cons.prems(3) y by (simp add: rest_def order_at_Some)
  have p: "p = price_at (level_mem ?b) a" and ls: "ls = map (abs_level ?b) gs"
    using Cons.prems(4) G os by (simp_all add: abs_book_def abs_level_def)
  show ?case
  proof (cases "?q = 0")
    case True
    then have "fs = []" "os' = os" "(abs_book ?b G)(s := (p, os) # ls) = abs_book ?b G"
      using Cons.prems(4,5) os by auto
    then show ?thesis
      using match_level_done [OF True] inv os by (intro exI [of _ ?b] exI [of _ G]) simp
  next
    case False
    define m where "m = min ?q (lo_remaining_qty y)"
    define os1 where "os1 = (if lo_remaining_qty y = m then []
      else [(resting_of y)\<lparr>ro_qty := lo_remaining_qty y - m\<rparr>]) @ rest"
    define G1 where "G1 = (if lo_remaining_qty y = m then G(s := (if xs = [] then [] else [(a, xs)]) @ gs) else G)"
    obtain b1 where one: "match_one ord timestamp a x st = ret ((apply_fill ord timestamp (p, resting_of y, m) st)\<lparr>ms_book := b1\<rparr>)"
      and inv1: "book_inv b1 G1"
      and abs1: "abs_book b1 G1 = (abs_book ?b G)(s := (if os1 = [] then [] else [(p, os1)]) @ ls)"
      using match_one_head [OF inv G y(1) m_def p os1_def [unfolded rest_def] G1_def] unfolding ls by blast
    define st1 where "st1 = (apply_fill ord timestamp (p, resting_of y, m) st)\<lparr>ms_book := b1\<rparr>"
    have step: "match_level ord timestamp a (front (x # xs) None) st = match_level ord timestamp a (front xs None) st1"
      using False y one by (subst match_level.simps) (simp add: can_self_trade_def st1_def quantity_eq_0_iff)
    show ?thesis
    proof (cases "lo_remaining_qty y = m")
      case True
      obtain fs1 where rec: "match_queue (ms_remaining st1) rest = (fs1, os', q')" and fs: "fs = (resting_of y, m) # fs1"
        using Cons.prems(5) False True unfolding os by (auto simp: m_def [symmetric] st1_def Let_def split: prod.splits)
      have os1: "os1 = rest" and G1: "G1 s = (if xs = [] then [] else [(a, xs)]) @ gs"
        using True by (simp_all add: os1_def G1_def)
      then have q1: "rest = map (order_at (order_mem b1)) xs"
        using fun_cong [OF abs1, of s] by (cases xs) (auto simp: rest_def abs_book_def abs_level_def)
      have b1: "ms_book st1 = b1" and l1: "abs_book b1 G1 s = (if rest = [] then [] else [(p, rest)]) @ ls"
        by (simp_all add: st1_def abs1 os1)
      obtain b' G' where "match_level ord timestamp a (front xs None) st1 =
          ret ((fold (apply_fill ord timestamp) (map (Pair p) fs1) st1)\<lparr>ms_book := b'\<rparr>)" "book_inv b' G'"
        "abs_book b' G' = (abs_book b1 G1)(s := (if os' = [] then [] else [(p, os')]) @ ls)"
        using Cons.IH [of st1 G1 rest fs1, unfolded b1, OF inv1 G1 q1 l1 rec] by blast
      then show ?thesis
        unfolding step fs abs1 by (intro exI [of _ b'] exI [of _ G']) (simp add: st1_def fold_apply_fill_book)
    next
      case part: False
      then have "m = ?q" and rem: "ms_remaining st1 = 0"
        by (auto simp: m_def st1_def min_def split: if_splits)
      then have fs: "fs = [(resting_of y, m)]" and os': "os' = os1"
        using Cons.prems(5) False part unfolding os by (auto simp: m_def [symmetric] os1_def Let_def)
      show ?thesis
        unfolding step match_level_done [OF rem] os' using inv1 abs1
        by (intro exI [of _ b1] exI [of _ G1]) (simp add: st1_def fs)
    qed
  qed
qed

section \<open>The outer loop\<close>

lemma match_queue_remaining:
  "match_queue q os = (fs, os', q') \<Longrightarrow> ms_remaining st = q \<Longrightarrow>
     ms_remaining (fold (apply_fill ord timestamp) (map (Pair p) fs) st) = q'"
  by (induction arbitrary: st rule: match_queue_induct) simp_all

lemma match_side_done: "ms_remaining st = 0 \<Longrightarrow> match_side best stop ord timestamp st = ret st"
  by (subst match_side.simps) simp

lemma match_side_refines:
  assumes best: "\<And>b. best b = bs_best_level (side_at s b)"
    and c: "\<And>p. c p \<longleftrightarrow> \<not> (ord_type ord = Limit \<and> stop (ord_price ord) p)"
    and "book_inv (ms_book st) G" and "abs_book (ms_book st) G s = ls"
    and "match_levels c (ms_remaining st) ls = (fs, ls', q')"
  shows "\<exists>b' G'. match_side best stop ord timestamp st =
      ret ((fold (apply_fill ord timestamp) fs st)\<lparr>ms_book := b'\<rparr>) \<and> book_inv b' G' \<and>
    abs_book b' G' = (abs_book (ms_book st) G)(s := ls')"
  using assms(3-)
proof (induction ls arbitrary: st G fs)
  case Nil
  have "bs_best_level (side_at s (ms_book st)) = None"
    using Nil.prems(1,2) by (simp add: book_inv_def book_wf_def side_shape_def abs_book_def)
  moreover have "fs = []" "ls' = []" "(abs_book (ms_book st) G)(s := []) = abs_book (ms_book st) G"
    using Nil.prems(2,3) by auto
  ultimately show ?case
    using Nil.prems(1) by (subst match_side.simps) (intro exI [of _ "ms_book st"] exI [of _ G], simp add: best)
next
  case (Cons l ls)
  let ?b = "ms_book st"
  obtain p os where l: "l = (p, os)"
    by (cases l)
  obtain a xs gs where G: "G s = (a, xs) # gs" and ax: "abs_level ?b (a, xs) = (p, os)" and ls: "map (abs_level ?b) gs = ls"
    using Cons.prems(2) l by (auto simp: abs_book_def)
  have wf: "book_wf ?b G {}" and "snd (a, xs) \<noteq> []"
    using Cons.prems(1) G unfolding book_inv_def by (auto dest!: spec [of _ s])
  then have "xs \<noteq> []"
    by simp
  have os: "os = map (order_at (order_mem ?b)) xs" and p: "p = price_at (level_mem ?b) a"
    using ax by (simp_all add: abs_level_def)
  have "level_ok (level_mem ?b) (order_mem ?b) (a, xs)"
    using book_wf_level_ok [OF wf, of _ s] G by simp
  then obtain z where z: "level_mem ?b a = Some z" "il_head (pl_orders z) = front xs None"
    by (auto simp: level_ok_def il_rep_def)
  have head: "best ?b = Some a"
    using book_wf_shapes [OF wf, of s] G by (simp add: best side_shape_def)
  have same: "(abs_book ?b G)(s := (p, os) # ls) = abs_book ?b G"
    using Cons.prems(2) l by auto
  show ?case
  proof (cases "ms_remaining st = 0 \<or> \<not> c p")
    case True
    then have "match_side best stop ord timestamp st = ret st"
      using head z p c by (subst match_side.simps) (auto simp: quantity_eq_0_iff price_at_def)
    moreover have "fs = []" "ls' = (p, os) # ls"
      using Cons.prems(3) True by (auto simp: l)
    ultimately show ?thesis
      using Cons.prems(1) same by (intro exI [of _ ?b] exI [of _ G]) simp
  next
    case False
    obtain fs1 os1 q1 where m: "match_queue (ms_remaining st) os = (fs1, os1, q1)"
      by (metis prod_cases3)
    obtain b1 G1 where inner: "match_level ord timestamp a (front xs None) st =
        ret ((fold (apply_fill ord timestamp) (map (Pair p) fs1) st)\<lparr>ms_book := b1\<rparr>)" and inv1: "book_inv b1 G1"
      and abs1: "abs_book b1 G1 = (abs_book ?b G)(s := (if os1 = [] then [] else [(p, os1)]) @ ls)"
      using match_level_refines [OF Cons.prems(1) _ os _ m, of s a gs p ls ord timestamp] G Cons.prems(2) l \<open>xs \<noteq> []\<close> os
      by auto
    define st1 where "st1 = (fold (apply_fill ord timestamp) (map (Pair p) fs1) st)\<lparr>ms_book := b1\<rparr>"
    have b1: "ms_book st1 = b1" and rem: "ms_remaining st1 = q1"
      using match_queue_remaining [OF m refl] by (simp_all add: st1_def)
    have step: "match_side best stop ord timestamp st = match_side best stop ord timestamp st1"
      using False head z p c inner by (subst match_side.simps) (auto simp: quantity_eq_0_iff price_at_def st1_def)
    show ?thesis
    proof (cases "os1 = []")
      case True
      obtain gs1 where rec: "match_levels c (ms_remaining st1) ls = (gs1, ls', q')" and fs: "fs = map (Pair p) fs1 @ gs1"
        using Cons.prems(3) False True m by (auto simp: l rem split: prod.splits)
      have "abs_book (ms_book st1) G1 s = ls"
        using True by (simp add: b1 abs1)
      from Cons.IH [OF _ this rec] inv1 obtain b' G' where "match_side best stop ord timestamp st1 =
          ret ((fold (apply_fill ord timestamp) gs1 st1)\<lparr>ms_book := b'\<rparr>)" "book_inv b' G'"
        "abs_book b' G' = (abs_book b1 G1)(s := ls')"
        unfolding b1 by blast
      then show ?thesis
        unfolding step fs abs1 by (intro exI [of _ b'] exI [of _ G']) (simp add: st1_def fold_apply_fill_book)
    next
      case part: False
      then have "ms_remaining st1 = 0"
        using match_queue_rest [OF m] by (simp add: rem)
      moreover have "fs = map (Pair p) fs1" "ls' = (p, os1) # ls"
        using Cons.prems(3) False part m by (auto simp: l)
      ultimately show ?thesis
        unfolding step using inv1 abs1 part
        by (intro exI [of _ b1] exI [of _ G1]) (simp add: match_side_done st1_def)
    qed
  qed
qed

section \<open>The abstract matching of an order\<close>

lemma match_queue_sub:
  "match_queue q os = (fs, os', q') \<Longrightarrow> length os' \<le> length os \<and> rid ` set os' \<subseteq> rid ` set os"
  by (induction rule: match_queue_induct) (auto simp: rid_def)

definition level_ids :: "(price \<times> resting list) list \<Rightarrow> u64 set" where
  "level_ids ls = rid ` set (concat (map snd ls))"

lemma level_ids_simps:
  "level_ids [] = {}" "level_ids ((p, os) # ls) = rid ` set os \<union> level_ids ls"
  by (simp_all add: level_ids_def image_Un)

lemma aids_levels: "aids B = level_ids (B Bids) \<union> level_ids (B Asks)"
  by (simp add: aids_def aorders_def level_ids_def image_Un)

lemma match_levels_sub:
  "match_levels c q ls = (fs, ls', q') \<Longrightarrow> length ls' \<le> length ls \<and>
     length (concat (map snd ls')) \<le> length (concat (map snd ls)) \<and> level_ids ls' \<subseteq> level_ids ls"
proof (induction rule: match_levels_induct)
  case (part q p os ls fs os')
  then show ?case
    using match_queue_sub [OF part(3)] by (auto simp: level_ids_simps)
qed (auto simp: level_ids_simps)

lemma a_match_levels:
  assumes "a_match ord B = (fs, B', q')"
  obtains ls' where
    "match_levels (crosses ord) (ord_qty ord) (B (opp (bside_of (ord_side ord)))) = (fs, ls', q')"
    and "B' = B(opp (bside_of (ord_side ord)) := ls')"
  using assms by (auto simp: a_match_def Let_def split: prod.splits)

lemma a_match_sub:
  assumes "a_match ord B = (fs, B', q')"
  shows "aids B' \<subseteq> aids B" and "length (aorders B') \<le> length (aorders B)"
    and "length (B' Bids @ B' Asks) \<le> length (B Bids @ B Asks)"
    and "aprices B' s \<subseteq> aprices B s"
proof -
  let ?s = "opp (bside_of (ord_side ord))"
  obtain ls' where m: "match_levels (crosses ord) (ord_qty ord) (B ?s) = (fs, ls', q')" and B': "B' = B(?s := ls')"
    using assms by (rule a_match_levels)
  note sub = match_levels_sub [OF m]
  show "aids B' \<subseteq> aids B"
    using sub by (cases ?s) (auto simp: B' aids_levels)
  show "length (aorders B') \<le> length (aorders B)" "length (B' Bids @ B' Asks) \<le> length (B Bids @ B Asks)"
    using sub by (cases ?s; simp add: B' aorders_def)+
  obtain n where "map fst ls' = drop n (map fst (B ?s))"
    using match_levels_prices [OF m] by blast
  then have "set (map fst ls') \<subseteq> set (map fst (B ?s))"
    by (metis set_drop_subset)
  then show "aprices B' s \<subseteq> aprices B s"
    by (auto simp: B' aprices_def)
qed

text \<open>When something is left of an order, the opposite side has no crossing price.\<close>

lemma a_match_exhausts:
  assumes ok: "abook_ok B" and m: "a_match ord B = (fs, B', q')" and q': "q' \<noteq> 0"
    and p: "p \<in> aprices B' (opp (bside_of (ord_side ord)))"
  shows "\<not> crosses ord p"
proof -
  let ?s = "opp (bside_of (ord_side ord))"
  obtain ls' where m: "match_levels (crosses ord) (ord_qty ord) (B ?s) = (fs, ls', q')" and B': "B' = B(?s := ls')"
    using m by (rule a_match_levels)
  have sorted: "sorted_wrt (better_on ?s) (map fst (B ?s))"
    using ok by (simp add: abook_ok_def)
  have "\<forall>(p, os) \<in> set ls'. \<not> crosses ord p"
    by (rule match_levels_exhausts [OF m sorted q']) (cases ?s; auto simp: crosses_def)
  then show ?thesis
    using p by (auto simp: B' aprices_def)
qed

lemma crosses_own_price: "crosses ord (ord_price ord)"
  by (cases "opp (bside_of (ord_side ord))") (simp_all add: crosses_def)

section \<open>The whole submission\<close>

lemma match_levels_remaining:
  "match_levels c q ls = (fs, ls', q') \<Longrightarrow> ms_remaining st = q \<Longrightarrow>
     ms_remaining (fold (apply_fill ord timestamp) fs st) = q'"
proof (induction arbitrary: st rule: match_levels_induct)
  case (level q p os ls fs q1 gs ls' q')
  then show ?case
    using match_queue_remaining [OF level(3)] by simp
next
  case (part q p os ls fs os')
  then show ?case
    using match_queue_remaining [OF part(3)] by simp
qed simp_all

lemma match_order_rep:
  assumes rep: "book_rep (ms_book st) B" and m: "a_match ord B = (fs, B', q')" and q: "ms_remaining st = ord_qty ord"
  shows "\<exists>b'. match_order ord timestamp st = ret ((fold (apply_fill ord timestamp) fs st)\<lparr>ms_book := b'\<rparr>) \<and>
    book_rep b' B'"
proof -
  obtain G where inv: "book_inv (ms_book st) G" and B: "B = abs_book (ms_book st) G"
    using rep by (auto simp: book_rep_def)
  let ?s = "opp (bside_of (ord_side ord))"
  obtain ls' where lv: "match_levels (crosses ord) (ms_remaining st) (abs_book (ms_book st) G ?s) = (fs, ls', q')"
    and B': "B' = B(?s := ls')"
    using a_match_levels [OF m] q B by metis
  show ?thesis
  proof (cases "ord_side ord = Buy")
    case True
    then have s: "?s = Asks"
      by simp
    have "\<exists>b' G'. match_side best_ask_level (<) ord timestamp st =
        ret ((fold (apply_fill ord timestamp) fs st)\<lparr>ms_book := b'\<rparr>) \<and> book_inv b' G' \<and>
      abs_book b' G' = (abs_book (ms_book st) G)(Asks := ls')"
      by (rule match_side_refines [OF _ _ inv refl lv [unfolded s]]) (auto simp: best_ask_level_def crosses_def True)
    then show ?thesis
      unfolding match_order_def book_rep_def B' B s if_P [OF True] by metis
  next
    case False
    then have s: "?s = Bids"
      by (cases "ord_side ord") simp_all
    have "\<exists>b' G'. match_side best_bid_level (>) ord timestamp st =
        ret ((fold (apply_fill ord timestamp) fs st)\<lparr>ms_book := b'\<rparr>) \<and> book_inv b' G' \<and>
      abs_book b' G' = (abs_book (ms_book st) G)(Bids := ls')"
      by (rule match_side_refines [OF _ _ inv refl lv [unfolded s]]) (use s in \<open>auto simp: best_bid_level_def crosses_def\<close>)
    then show ?thesis
      unfolding match_order_def book_rep_def B' B s if_not_P [OF False] by metis
  qed
qed

text \<open>The status of a submission and what is recorded after the matching.\<close>

definition submit_status :: "order \<Rightarrow> quantity \<Rightarrow> matching_status" where
  "submit_status ord q =
     (if q = 0 then Filled
      else if ord_type ord = Limit then (if q = ord_qty ord then Success else PartiallyFilled)
      else if ord_type ord = Market then Expired else Success)"

definition finish :: "order \<Rightarrow> u64 \<Rightarrow> match_state \<Rightarrow> match_state" where
  "finish ord timestamp st =
     (if ms_remaining st = 0
      then st\<lparr>ms_stats := (ms_stats st)\<lparr>st_orders_matched := st_orders_matched (ms_stats st) + 1\<rparr>\<rparr>
      else if ord_type ord = Market
      then st\<lparr>ms_ctx := build_expiration (ms_exec_seq st) ord (ms_remaining st) timestamp (ms_ctx st),
              ms_exec_seq := ms_exec_seq st + 1\<rparr>
      else st)"

definition can_rest :: "order \<Rightarrow> abook \<Rightarrow> bool" where
  "can_rest ord B \<longleftrightarrow> get_id (ord_order_id ord) \<notin> aids B \<and>
     length (aorders B) < ORDER_POOL_CAPACITY \<and> length (B Bids @ B Asks) < LEVEL_POOL_CAPACITY"

lemma post_match_rep:
  assumes rep: "book_rep (ms_book st) B'" and ok: "abook_ok B" and m: "a_match ord B = (fs, B', q')"
    and q: "ms_remaining st = q'" and rest: "ord_type ord = Limit \<Longrightarrow> can_rest ord B"
  shows "\<exists>b'. post_match ord timestamp st = ret (submit_status ord q', (finish ord timestamp st)\<lparr>ms_book := b'\<rparr>) \<and>
    book_rep b' (a_submit ord B)"
proof (cases "q' \<noteq> 0 \<and> ord_type ord = Limit")
  case True
  let ?s = "bside_of (ord_side ord)"
  have "\<not> crosses ord p" if "p \<in> aprices B' (opp ?s)" for p
    using a_match_exhausts [OF ok m _ that] True by blast
  then have price: "ord_price ord \<notin> aprices B' (opp ?s)"
    using crosses_own_price by blast
  have "get_id (ord_order_id ord) \<notin> aids B'" "length (aorders B') < ORDER_POOL_CAPACITY"
    "length (B' Bids @ B' Asks) < LEVEL_POOL_CAPACITY"
    using a_match_sub [OF m] rest True by (auto simp: can_rest_def)
  from book_insert_rep [OF rep this(1) price this(2,3), of "ord_seq_num ord"]
  obtain x b' where "book_insert ord (ord_seq_num ord) (ms_book st) = ret (x, b')"
    and "book_rep b' (a_insert ?s (resting_of_order ord (ord_seq_num ord)) B')"
    by blast
  then show ?thesis
    using True m q by (intro exI [of _ b'])
      (simp add: post_match_def a_submit_def finish_def submit_status_def quantity_eq_0_iff word_neq_0_conv [symmetric])
next
  case False
  then show ?thesis
    using rep m q by (intro exI [of _ "ms_book st"])
      (auto simp: post_match_def a_submit_def finish_def submit_status_def quantity_eq_0_iff word_neq_0_conv [symmetric])
qed

lemma submit_order_rep:
  assumes rep: "book_rep (me_book e) B" and m: "a_match ord B = (fs, B', q')"
    and rest: "ord_type ord = Limit \<Longrightarrow> can_rest ord B"
    and st: "st = finish ord timestamp (fold (apply_fill ord timestamp) fs (start_state ord timestamp e ctx))"
  shows "\<exists>b'. submit_order t0 timestamp t1 ord ctx e =
      ret (\<lparr>mr_status = submit_status ord q', mr_trades_generated = ms_trades_generated st\<rparr>, ms_ctx st,
        \<lparr>me_book = b', me_stats = record_latency (t1 - t0) (ms_stats st),
         me_trade_seq = ms_trade_seq st, me_exec_seq = ms_exec_seq st\<rparr>) \<and>
    book_rep b' (a_submit ord B)"
proof -
  let ?st0 = "start_state ord timestamp e ctx"
  let ?st1 = "fold (apply_fill ord timestamp) fs ?st0"
  have "book_rep (ms_book ?st0) B" "ms_remaining ?st0 = ord_qty ord"
    using rep by (simp_all add: start_state_def)
  from match_order_rep [OF this(1) m this(2)]
  obtain b1 where run1: "match_order ord timestamp ?st0 = ret (?st1\<lparr>ms_book := b1\<rparr>)" and rep1: "book_rep b1 B'"
    by blast
  obtain ls' where "match_levels (crosses ord) (ord_qty ord) (B (opp (bside_of (ord_side ord)))) = (fs, ls', q')"
    using m by (rule a_match_levels)
  from match_levels_remaining [OF this] have q: "ms_remaining ?st1 = q'"
    by (simp add: start_state_def)
  have "book_rep (ms_book (?st1\<lparr>ms_book := b1\<rparr>)) B'" "ms_remaining (?st1\<lparr>ms_book := b1\<rparr>) = q'"
    using rep1 q by simp_all
  from post_match_rep [OF this(1) book_rep_ok [OF rep] m this(2) rest]
  obtain b' where run2: "post_match ord timestamp (?st1\<lparr>ms_book := b1\<rparr>) =
      ret (submit_status ord q', (finish ord timestamp (?st1\<lparr>ms_book := b1\<rparr>))\<lparr>ms_book := b'\<rparr>)"
    and rep': "book_rep b' (a_submit ord B)"
    by blast
  have "(finish ord timestamp (?st1\<lparr>ms_book := b1\<rparr>))\<lparr>ms_book := b'\<rparr> = st\<lparr>ms_book := b'\<rparr>"
    by (simp add: finish_def st)
  then have "submit_order t0 timestamp t1 ord ctx e =
      ret (\<lparr>mr_status = submit_status ord q', mr_trades_generated = ms_trades_generated st\<rparr>, ms_ctx st,
        \<lparr>me_book = b', me_stats = record_latency (t1 - t0) (ms_stats st),
         me_trade_seq = ms_trade_seq st, me_exec_seq = ms_exec_seq st\<rparr>)"
    by (simp add: submit_order_def run1 run2)
  with rep' show ?thesis
    by blast
qed

section \<open>What a submission does to the book\<close>

lemma aprices_upd: "aprices (B(s := ls)) t = (if t = s then fst ` set ls else aprices B t)"
  by (simp add: aprices_def)

lemma add_order_prices: "fst ` set (add_order better p r ls) = insert p (fst ` set ls)"
proof (cases "p \<in> fst ` set ls")
  case True
  then show ?thesis
    by (force simp: add_order_def image_image case_prod_unfold)
next
  case False
  have "set (takeWhile P ls) \<union> set (dropWhile P ls) = set ls" for P
    by (metis set_append takeWhile_dropWhile_id)
  with False show ?thesis
    by (auto simp: add_order_def image_Un [symmetric])
qed

lemma a_insert_prices:
  "aprices (a_insert s r B) t = (if t = s then insert (ro_price r) (aprices B s) else aprices B t)"
  by (simp add: a_insert_def aprices_upd add_order_prices) (simp add: aprices_def)

lemma a_submit_uncrossed:
  assumes ok: "abook_ok B" and un: "uncrossed B"
  shows "uncrossed (a_submit ord B)"
proof -
  obtain fs B' q' where m: "a_match ord B = (fs, B', q')"
    by (metis prod_cases3)
  have un': "uncrossed B'"
    using un a_match_sub(4) [OF m] by (meson subsetD uncrossed_def)
  show ?thesis
  proof (cases "q' \<noteq> 0 \<and> ord_type ord = Limit")
    case True
    have "\<not> crosses ord p" if "p \<in> aprices B' (opp (bside_of (ord_side ord)))" for p
      using a_match_exhausts [OF ok m _ that] True by blast
    then have "better_on (opp (bside_of (ord_side ord))) (ord_price ord) p"
      if "p \<in> aprices B' (opp (bside_of (ord_side ord)))" for p
      using that by (auto simp: crosses_def)
    moreover have "a_submit ord B = a_insert (bside_of (ord_side ord)) (resting_of_order ord (ord_seq_num ord)) B'"
      using True m by (simp add: a_submit_def)
    ultimately show ?thesis
      using un' by (cases "bside_of (ord_side ord)")
        (auto simp: uncrossed_def a_insert_prices resting_of_order_def)
  next
    case False
    then show ?thesis
      using un' m by (auto simp: a_submit_def)
  qed
qed

section \<open>What a submission records\<close>

definition fill_trade :: "order \<Rightarrow> u64 \<Rightarrow> u64 \<Rightarrow> price \<times> resting \<times> quantity \<Rightarrow> trade" where
  "fill_trade ord timestamp sq f = (case f of (p, r, m) \<Rightarrow>
     \<lparr>tr_trade_id = StrongId sq,
      tr_buy_order_id = (if ord_side ord = Buy then ord_order_id ord else key_order_id (ro_key r)),
      tr_sell_order_id = (if ord_side ord = Buy then key_order_id (ro_key r) else ord_order_id ord),
      tr_price = p, tr_qty = m, tr_timestamp = timestamp, tr_symbol_id = ord_symbol_id ord\<rparr>)"

fun fill_trades :: "order \<Rightarrow> u64 \<Rightarrow> u64 \<Rightarrow> (price \<times> resting \<times> quantity) list \<Rightarrow> trade list" where
  "fill_trades ord timestamp sq [] = []"
| "fill_trades ord timestamp sq (f # fs) = fill_trade ord timestamp sq f # fill_trades ord timestamp (sq + 1) fs"

text \<open>The report of the taker, then the report of the maker.\<close>

definition fill_reports :: "order \<Rightarrow> u64 \<Rightarrow> u64 \<Rightarrow> quantity \<Rightarrow> price \<times> resting \<times> quantity \<Rightarrow> execution_report list" where
  "fill_reports ord timestamp sq q f = (case f of (p, r, m) \<Rightarrow>
     [\<lparr>er_exec_id = StrongId sq, er_order_id = ord_order_id ord, er_price = p, er_last_qty = m,
       er_remaining_qty = q - m, er_timestamp = timestamp, er_client_id = ord_client_id ord,
       er_account_id = ord_account_id ord, er_symbol_id = ord_symbol_id ord,
       er_reject_reason = RejectNone, er_exec_type = ExecTrade\<rparr>,
      \<lparr>er_exec_id = StrongId (sq + 1), er_order_id = key_order_id (ro_key r), er_price = p, er_last_qty = m,
       er_remaining_qty = ro_qty r - m, er_timestamp = timestamp, er_client_id = StrongId 0,
       er_account_id = StrongId 0, er_symbol_id = key_symbol_id (ro_key r),
       er_reject_reason = RejectNone, er_exec_type = ExecTrade\<rparr>])"

fun match_reports :: "order \<Rightarrow> u64 \<Rightarrow> u64 \<Rightarrow> quantity \<Rightarrow> (price \<times> resting \<times> quantity) list \<Rightarrow> execution_report list" where
  "match_reports ord timestamp sq q [] = []"
| "match_reports ord timestamp sq q (f # fs) =
     fill_reports ord timestamp sq q f @ match_reports ord timestamp (sq + 2) (q - snd (snd f)) fs"

definition ack_report :: "order \<Rightarrow> u64 \<Rightarrow> u64 \<Rightarrow> execution_report" where
  "ack_report ord timestamp sq =
     \<lparr>er_exec_id = StrongId sq, er_order_id = ord_order_id ord, er_price = ord_price ord,
      er_last_qty = 0, er_remaining_qty = ord_qty ord, er_timestamp = timestamp,
      er_client_id = ord_client_id ord, er_account_id = ord_account_id ord,
      er_symbol_id = ord_symbol_id ord, er_reject_reason = RejectNone, er_exec_type = ExecNew\<rparr>"

lemma take_take_append [simp]: "take n (take n xs @ ys) = take n (xs @ ys)"
  by (cases "n \<le> length xs") simp_all

lemma put_report_put_report:
  assumes ok: "ctx_ok ctx" and f: "\<And>r. f r = r1" and g: "\<And>r. g r = r2"
  shows "ctx_ok (put_report g (put_report f ctx))"
    and "reports_of (put_report g (put_report f ctx)) = take MAX_REPORTS (reports_of ctx @ [r1, r2])"
    and "trades_of (put_report g (put_report f ctx)) = trades_of ctx"
  using put_report_ok [where f = f, OF ok f] put_report_ok [where f = g, OF _ g] by (simp_all del: take_append)

lemma apply_fill_ctx:
  assumes ok: "ctx_ok (ms_ctx st)"
  shows "ctx_ok (ms_ctx (apply_fill ord timestamp f st))"
    and "trades_of (ms_ctx (apply_fill ord timestamp f st)) =
      take MAX_TRADES (trades_of (ms_ctx st) @ [fill_trade ord timestamp (ms_trade_seq st) f])"
    and "reports_of (ms_ctx (apply_fill ord timestamp f st)) =
      take MAX_REPORTS (reports_of (ms_ctx st) @ fill_reports ord timestamp (ms_exec_seq st) (ms_remaining st) f)"
proof -
  obtain p r m where f: "f = (p, r, m)"
    by (metis prod_cases3)
  let ?t = "\<lambda>t. t\<lparr>tr_trade_id := StrongId (ms_trade_seq st),
      tr_buy_order_id := (if ord_side ord = Buy then ord_order_id ord else key_order_id (ro_key r)),
      tr_sell_order_id := (if ord_side ord = Buy then key_order_id (ro_key r) else ord_order_id ord),
      tr_price := p, tr_qty := m, tr_timestamp := timestamp, tr_symbol_id := ord_symbol_id ord\<rparr>"
  let ?r1 = "\<lambda>e. e\<lparr>er_exec_id := StrongId (ms_exec_seq st), er_order_id := ord_order_id ord,
      er_client_id := ord_client_id ord, er_account_id := ord_account_id ord, er_symbol_id := ord_symbol_id ord,
      er_price := p, er_last_qty := m, er_remaining_qty := Quantity (units (ms_remaining st) - units m),
      er_timestamp := timestamp, er_exec_type := ExecTrade, er_reject_reason := RejectNone\<rparr>"
  let ?r2 = "\<lambda>e. e\<lparr>er_exec_id := StrongId (ms_exec_seq st + 1), er_order_id := key_order_id (ro_key r),
      er_client_id := StrongId 0, er_account_id := StrongId 0, er_symbol_id := key_symbol_id (ro_key r),
      er_price := p, er_last_qty := m, er_remaining_qty := Quantity (units (ro_qty r) - units m),
      er_timestamp := timestamp, er_exec_type := ExecTrade, er_reject_reason := RejectNone\<rparr>"
  have run: "ms_ctx (apply_fill ord timestamp f st) = put_report ?r2 (put_report ?r1 (put_trade ?t (ms_ctx st)))"
    by (simp add: apply_fill_def f record_match_def build_match_def live_of_def Let_def)
  have "?t t = fill_trade ord timestamp (ms_trade_seq st) f" for t
    by (simp add: fill_trade_def f)
  note trade = put_trade_ok [OF ok, of ?t, OF this]
  have "?r1 e = fill_reports ord timestamp (ms_exec_seq st) (ms_remaining st) f ! 0"
    "?r2 e = fill_reports ord timestamp (ms_exec_seq st) (ms_remaining st) f ! 1" for e
    by (simp_all add: fill_reports_def f minus_quantity_def)
  note reports = put_report_put_report [of _ ?r1 _ ?r2, OF trade(1) this]
  have two: "[fill_reports ord timestamp (ms_exec_seq st) (ms_remaining st) f ! 0,
      fill_reports ord timestamp (ms_exec_seq st) (ms_remaining st) f ! 1] =
    fill_reports ord timestamp (ms_exec_seq st) (ms_remaining st) f"
    by (simp add: fill_reports_def f)
  show "ctx_ok (ms_ctx (apply_fill ord timestamp f st))"
    unfolding run by (rule reports(1))
  show "trades_of (ms_ctx (apply_fill ord timestamp f st)) =
      take MAX_TRADES (trades_of (ms_ctx st) @ [fill_trade ord timestamp (ms_trade_seq st) f])"
    unfolding run reports(3) trade(2) ..
  show "reports_of (ms_ctx (apply_fill ord timestamp f st)) =
      take MAX_REPORTS (reports_of (ms_ctx st) @ fill_reports ord timestamp (ms_exec_seq st) (ms_remaining st) f)"
    unfolding run reports(2) trade(3) two ..
qed

lemma apply_fill_counters:
  "ms_trade_seq (apply_fill ord timestamp f st) = ms_trade_seq st + 1"
  "ms_exec_seq (apply_fill ord timestamp f st) = ms_exec_seq st + 2"
  "ms_trades_generated (apply_fill ord timestamp f st) = ms_trades_generated st + 1"
  "ms_remaining (apply_fill ord timestamp f st) = ms_remaining st - snd (snd f)"
  "st_shares_executed (ms_stats (apply_fill ord timestamp f st)) = st_shares_executed (ms_stats st) + units (snd (snd f))"
  by (cases f; simp add: apply_fill_def record_match_def Let_def minus_quantity_def)+

lemma fold_fills_ctx:
  "ctx_ok (ms_ctx st) \<Longrightarrow>
     ctx_ok (ms_ctx (fold (apply_fill ord timestamp) fs st)) \<and>
     trades_of (ms_ctx (fold (apply_fill ord timestamp) fs st)) =
       take MAX_TRADES (trades_of (ms_ctx st) @ fill_trades ord timestamp (ms_trade_seq st) fs) \<and>
     reports_of (ms_ctx (fold (apply_fill ord timestamp) fs st)) =
       take MAX_REPORTS (reports_of (ms_ctx st) @ match_reports ord timestamp (ms_exec_seq st) (ms_remaining st) fs)"
proof (induction fs arbitrary: st)
  case Nil
  then show ?case
    by (simp add: ctx_ok_def trades_of_def reports_of_def)
next
  case (Cons f fs)
  then show ?case
    using Cons.IH [OF apply_fill_ctx(1) [OF Cons.prems]]
    by (simp add: apply_fill_ctx [OF Cons.prems] apply_fill_counters del: take_append)
qed

lemma fold_fills_counters:
  "ms_trade_seq (fold (apply_fill ord timestamp) fs st) = ms_trade_seq st + of_nat (length fs)"
  "ms_exec_seq (fold (apply_fill ord timestamp) fs st) = ms_exec_seq st + 2 * of_nat (length fs)"
  "ms_trades_generated (fold (apply_fill ord timestamp) fs st) = ms_trades_generated st + of_nat (length fs)"
  "st_shares_executed (ms_stats (fold (apply_fill ord timestamp) fs st)) =
     st_shares_executed (ms_stats st) + of_nat (filled fs)"
  by (induction fs arbitrary: st) (simp_all add: apply_fill_counters filled_def algebra_simps case_prod_unfold)

lemma start_state_ctx:
  assumes "ctx_ok ctx"
  shows "ctx_ok (ms_ctx (start_state ord timestamp e ctx))"
    "trades_of (ms_ctx (start_state ord timestamp e ctx)) = trades_of ctx"
    "reports_of (ms_ctx (start_state ord timestamp e ctx)) =
       take MAX_REPORTS (reports_of ctx @ [ack_report ord timestamp (me_exec_seq e)])"
  using put_report_ok [OF assms, of _ "ack_report ord timestamp (me_exec_seq e)"]
  by (simp_all add: start_state_def build_ack_def ack_report_def zero_quantity_def)

section \<open>Reading a represented book\<close>

lemma book_rep_lookup:
  assumes "book_rep b B" and "r \<in> set (aorders B)"
  shows "\<exists>x lo. ob_lookup b (rid r) = Some x \<and> order_mem b x = Some lo \<and> resting_of lo = r"
proof -
  obtain G where inv: "book_inv b G" and B: "B = abs_book b G"
    using assms(1) by (auto simp: book_rep_def)
  obtain x where x: "x \<in> set (gorders G)" "r = order_at (order_mem b) x"
    using assms(2) by (auto simp: B abs_book_counts(3))
  have "x \<in> dom (order_mem b)"
    using x(1) book_inv_orders [OF inv] by simp
  then obtain lo where lo: "order_mem b x = Some lo"
    by blast
  moreover have "ob_lookup b (rid r) = Some x"
    using inv x(2) \<open>x \<in> dom (order_mem b)\<close> by (simp add: book_inv_def lookup_ok_def)
  ultimately show ?thesis
    using x(2) by (auto simp: order_at_Some)
qed

lemma book_rep_level:
  assumes "book_rep b B" and "level_mem b a = Some z"
  shows "\<exists>s os. (pl_price z, os) \<in> set (B s) \<and> level_sums z os"
proof -
  obtain G where inv: "book_inv b G" and B: "B = abs_book b G"
    using assms(1) by (auto simp: book_rep_def)
  have wf: "book_wf b G {}"
    using inv by (simp add: book_inv_def)
  then have "a \<in> set (glevels G)"
    using assms(2) by (auto simp: book_wf_def)
  then obtain s g where g: "g \<in> set (G s)" "fst g = a"
    by (auto simp: glevels_def)
  have "level_sums z (map (order_at (order_mem b)) (snd g))"
    using book_wf_level_ok [OF wf g(1)] assms(2) g(2) by (auto simp: level_ok_def)
  moreover have "abs_level b g = (pl_price z, map (order_at (order_mem b)) (snd g))"
    using assms(2) g(2) by (simp add: abs_level_def price_at_def)
  then have "(pl_price z, map (order_at (order_mem b)) (snd g)) \<in> set (B s)"
    using g(1) unfolding B abs_book_def by (metis image_eqI list.set_map)
  ultimately show ?thesis
    by blast
qed

context price_priority
begin

lemma sorted_distinct: "sorted_wrt better ps \<Longrightarrow> distinct ps"
  using better_irrefl by (induction ps) auto

end

text \<open>Cancelling what was just inserted restores the book.\<close>

lemma map_queues_same:
  assumes "\<And>p os. (p, os) \<in> set ls \<Longrightarrow> os \<noteq> [] \<and> i \<notin> rid ` set os"
  shows "map_queues (cancel_queue i) ls = ls"
  using assms local_changes(1) [of i] by (intro map_queues_id) (auto simp: local_change_def)

lemma map_queues_add_order:
  assumes q: "\<And>p os. (p, os) \<in> set ls \<Longrightarrow> os \<noteq> [] \<and> rid r \<notin> rid ` set os" and d: "distinct (map fst ls)"
  shows "map_queues (cancel_queue (rid r)) (add_order better p r ls) = ls"
proof (cases "p \<in> fst ` set ls")
  case True
  then obtain os where "(p, os) \<in> set ls"
    by force
  then obtain ls1 ls2 where ls: "ls = ls1 @ (p, os) # ls2"
    by (rule split_list_pair)
  have "cancel_queue (rid r) (os @ [r]) = os" "os \<noteq> []"
    using q [of p os] by (auto simp: ls cancel_queue_def filter_id_conv image_iff)
  moreover have "map_queues (cancel_queue (rid r)) ls1 = ls1" "map_queues (cancel_queue (rid r)) ls2 = ls2"
    using q by (auto simp: ls intro!: map_queues_same)
  ultimately show ?thesis
    using d unfolding ls by (subst add_order_found) (simp_all add: map_queues_append map_queues_Cons)
next
  case False
  have "map_queues (cancel_queue (rid r)) (takeWhile P ls) = takeWhile P ls"
    "map_queues (cancel_queue (rid r)) (dropWhile P ls) = dropWhile P ls" for P
    using q by (auto intro!: map_queues_same dest: set_takeWhileD set_dropWhileD)
  then show ?thesis
    using False by (simp add: add_order_new map_queues_append map_queues_Cons cancel_queue_def)
qed

lemma a_cancel_insert:
  assumes ok: "abook_ok B" and i: "rid r \<notin> aids B"
  shows "a_cancel (rid r) (a_insert s r B) = B"
proof
  fix t
  have q: "os \<noteq> [] \<and> rid r \<notin> rid ` set os" if "(p, os) \<in> set (B u)" for u p os
  proof -
    have "set os \<subseteq> set (aorders B)"
      using that by (cases u) (auto simp: aorders_def)
    then show ?thesis
      using ok that i by (auto simp: abook_ok_def aids_def)
  qed
  have "sorted_wrt (better_on s) (map fst (B s))"
    using ok by (simp add: abook_ok_def)
  then have "distinct (map fst (B s))"
    by (rule price_priority.sorted_distinct [OF better_on_priority])
  then show "a_cancel (rid r) (a_insert s r B) t = B t"
    using q by (cases "t = s") (simp_all add: a_cancel_def a_insert_def map_queues_add_order map_queues_same)
qed

end
