(* ===== verification/Book_Properties.thy ===== *)
theory Book_Properties
  imports Matching_Refinement
begin

text \<open>
  What the order book guarantees, operation by operation, in terms of the abstract book:
  \<^const>\<open>book_rep\<close> relates the pools, linked levels, intrusive queues, index and lookup table of
  a \<open>LimitOrderBook\<close> to the price levels and queues they stand for. Every statement says that
  the operation returns: no null or dangling pointer, no failed assertion, no endless loop.
\<close>

section \<open>Sample orders and books\<close>

definition sample_order :: "u64 \<Rightarrow> side \<Rightarrow> order_type \<Rightarrow> s64 \<Rightarrow> u64 \<Rightarrow> order" where
  "sample_order i s t p q =
     \<lparr>ord_order_id = StrongId i, ord_price = Price p, ord_qty = Quantity q, ord_seq_num = i,
      ord_client_timestamp = 0, ord_exchange_timestamp = 0, ord_client_id = StrongId 7,
      ord_account_id = StrongId 9, ord_symbol_id = StrongId 1, ord_side = s, ord_type = t,
      ord_tif = GTC, ord_flags = flags_None\<rparr>"

lemmas abook_eval = a_insert_def add_order_def abook_new_def aids_def aorders_def aprices_def
  resting_of_order_def rid_def sample_order_def

definition sample_asks :: abook where
  "sample_asks = a_insert Asks (resting_of_order (sample_order 5 Sell Limit 100 3) 5) abook_new"

lemma sample_asks_eq:
  "sample_asks = abook_new(Asks := [(Price 100, [resting_of_order (sample_order 5 Sell Limit 100 3) 5])])"
  by (simp add: sample_asks_def abook_eval)

lemma sample_asks_rep: "\<exists>b. book_rep b sample_asks"
proof -
  have "\<exists>x b'. book_insert (sample_order 5 Sell Limit 100 3) 5 (book_new False) = ret (x, b') \<and>
      book_find_order (ord_order_id (sample_order 5 Sell Limit 100 3)) b' = Some x \<and>
      book_rep b' (a_insert (bside_of (ord_side (sample_order 5 Sell Limit 100 3)))
        (resting_of_order (sample_order 5 Sell Limit 100 3) 5) abook_new)"
    by (rule book_insert_rep [OF book_new_rep])
      (simp_all add: abook_eval ORDER_POOL_CAPACITY_def LEVEL_POOL_CAPACITY_def)
  then show ?thesis
    by (auto simp: sample_asks_def sample_order_def)
qed

section \<open>Inserting\<close>

text \<open>C7. Inserting an order whose id is new and whose price does not rest on the other side,
  into a book with room, returns the order object, makes it findable under its id, and puts
  it at the end of the queue of its price, in a new level at its place in the price order if
  the price is new.\<close>

theorem insert_refines:
  assumes "book_rep b B" and "get_id (ord_order_id ord) \<notin> aids B"
    and "ord_price ord \<notin> aprices B (opp (bside_of (ord_side ord)))"
    and "length (aorders B) < ORDER_POOL_CAPACITY"
    and "ord_price ord \<in> aprices B (bside_of (ord_side ord)) \<or> length (B Bids @ B Asks) < LEVEL_POOL_CAPACITY"
  shows "\<exists>x b'. book_insert ord sq b = ret (x, b') \<and> book_find_order (ord_order_id ord) b' = Some x \<and>
    book_rep b' (a_insert (bside_of (ord_side ord)) (resting_of_order ord sq) B)"
  using assms by (rule book_insert_room_rep)

theorem insert_refines_witness:
  "\<exists>b x b'. book_rep b sample_asks \<and> book_insert (sample_order 6 Buy Limit 99 4) 1 b = ret (x, b') \<and>
    book_find_order (StrongId 6) b' = Some x \<and>
    book_rep b' (sample_asks(Bids := [(Price 99, [resting_of_order (sample_order 6 Buy Limit 99 4) 1])]))"
proof -
  obtain b where b: "book_rep b sample_asks"
    using sample_asks_rep by blast
  have "\<exists>x b'. book_insert (sample_order 6 Buy Limit 99 4) 1 b = ret (x, b') \<and>
      book_find_order (ord_order_id (sample_order 6 Buy Limit 99 4)) b' = Some x \<and>
      book_rep b' (a_insert (bside_of (ord_side (sample_order 6 Buy Limit 99 4)))
        (resting_of_order (sample_order 6 Buy Limit 99 4) 1) sample_asks)"
    by (rule insert_refines [OF b])
      (simp_all add: sample_asks_eq abook_eval ORDER_POOL_CAPACITY_def LEVEL_POOL_CAPACITY_def)
  moreover have "a_insert (bside_of (ord_side (sample_order 6 Buy Limit 99 4)))
        (resting_of_order (sample_order 6 Buy Limit 99 4) 1) sample_asks =
      sample_asks(Bids := [(Price 99, [resting_of_order (sample_order 6 Buy Limit 99 4) 1])])"
    by (simp add: sample_asks_eq abook_eval)
  ultimately show ?thesis
    using b by (auto simp: sample_order_def)
qed

text \<open>Inserting into a book whose pool of orders is used up ends the process:
  \<open>ObjectPool::allocate\<close> throws \<open>std::bad_alloc\<close> and \<open>insert\<close> is \<open>noexcept\<close>.\<close>

theorem insert_exhausted:
  assumes "book_rep b B" and "length (aorders B) = ORDER_POOL_CAPACITY"
  shows "book_insert ord sq b = fail BadAlloc"
proof -
  obtain G where inv: "book_inv b G" and B: "B = abs_book b G"
    using assms(1) by (auto simp: book_rep_def)
  have wf: "book_wf b G {}"
    using inv by (simp add: book_inv_def)
  then have "card (dom (order_mem b)) = ORDER_POOL_CAPACITY" and p: "pool_inv ORDER_POOL_CAPACITY (ob_order_pool b)"
    using assms(2) unfolding B abs_book_counts(1) by (simp_all add: book_wf_def distinct_card)
  then have "pool_available (ob_order_pool b) = 0"
    using pool_available_plus_live [OF p] by simp
  then have "pool_allocate live_order_default (ob_order_pool b) = fail BadAlloc"
    by (rule pool.alloc_full [OF p])
  then show ?thesis
    by (simp add: book_insert_def stage_order_def)
qed

text \<open>A book with any number of orders the pool can hold: they rest at one price.\<close>

definition numbered_book :: "nat \<Rightarrow> abook" where
  "numbered_book n = (\<lambda>s. if s = Asks \<and> n \<noteq> 0
     then [(Price 100, map (\<lambda>i. resting_of_order (sample_order (of_nat i) Sell Limit 100 1) 0) [0..<n])] else [])"

lemma numbered_book_orders:
  "aorders (numbered_book n) = map (\<lambda>i. resting_of_order (sample_order (of_nat i) Sell Limit 100 1) 0) [0..<n]"
  by (simp add: aorders_def numbered_book_def)

lemma numbered_book_insert:
  "a_insert Asks (resting_of_order (sample_order (of_nat n) Sell Limit 100 1) 0) (numbered_book n) = numbered_book (Suc n)"
  by (auto simp: a_insert_def add_order_def numbered_book_def resting_of_order_def sample_order_def)

lemma numbered_book_rep: "n \<le> ORDER_POOL_CAPACITY \<Longrightarrow> \<exists>b. book_rep b (numbered_book n)"
proof (induction n)
  case 0
  have "numbered_book 0 = abook_new"
    by (auto simp: numbered_book_def abook_new_def)
  then show ?case
    using book_new_rep by auto
next
  case (Suc n)
  let ?o = "sample_order (of_nat n) Sell Limit 100 1"
  obtain b where b: "book_rep b (numbered_book n)"
    using Suc by auto
  have "of_nat n \<noteq> (of_nat i :: u64)" if "i < n" for i
    using that Suc.prems by (simp add: ORDER_POOL_CAPACITY_def word_of_nat_eq_iff take_bit_nat_eq_self)
  then have "of_nat n \<notin> (of_nat :: nat \<Rightarrow> u64) ` {..<n}"
    by blast
  then have "get_id (ord_order_id ?o) \<notin> aids (numbered_book n)"
    by (simp add: aids_def numbered_book_orders rid_def resting_of_order_def sample_order_def image_image
        atLeast0LessThan)
  then have "\<exists>x b'. book_insert ?o 0 b = ret (x, b') \<and> book_find_order (ord_order_id ?o) b' = Some x \<and>
      book_rep b' (a_insert (bside_of (ord_side ?o)) (resting_of_order ?o 0) (numbered_book n))"
    by (rule book_insert_rep [OF b])
      (use Suc.prems in \<open>simp_all add: numbered_book_orders, simp_all add: numbered_book_def aprices_def sample_order_def LEVEL_POOL_CAPACITY_def\<close>)
  moreover have "bside_of (ord_side ?o) = Asks"
    by (simp add: sample_order_def)
  ultimately show ?case
    unfolding numbered_book_insert [symmetric] by auto
qed

theorem insert_exhausted_witness:
  "\<exists>b. book_rep b (numbered_book 10240) \<and> book_insert (sample_order 99999 Buy Limit 99 4) 1 b = fail BadAlloc"
proof -
  obtain b where b: "book_rep b (numbered_book 10240)"
    using numbered_book_rep [of 10240] by (auto simp: ORDER_POOL_CAPACITY_def)
  have "length (aorders (numbered_book 10240)) = ORDER_POOL_CAPACITY"
    unfolding numbered_book_orders length_map length_upt by (simp add: ORDER_POOL_CAPACITY_def)
  from insert_exhausted [OF b this] b show ?thesis
    by blast
qed

section \<open>Cancelling, modifying and filling\<close>

text \<open>C8. Cancelling reports whether the id rests in the book; the order leaves its queue, a
  level that becomes empty leaves the book, and nothing else changes.\<close>

theorem cancel_refines:
  assumes "book_rep b B"
  shows "\<exists>b'. book_cancel i b = ret (get_id i \<in> aids B, b') \<and> book_rep b' (a_cancel (get_id i) B)"
  using assms by (rule book_cancel_rep)

theorem cancel_refines_witness:
  "\<exists>b b'. book_rep b sample_asks \<and> book_cancel (StrongId 5) b = ret (True, b') \<and> book_rep b' abook_new"
proof -
  obtain b where b: "book_rep b sample_asks"
    using sample_asks_rep by blast
  have "get_id (StrongId 5) \<in> aids sample_asks" "a_cancel (get_id (StrongId 5)) sample_asks = abook_new"
    by (auto simp: sample_asks_eq abook_eval a_cancel_def map_queues_def cancel_queue_def)
  then show ?thesis
    using b cancel_refines [OF b, of "StrongId 5"] by auto
qed



text \<open>C10. Filling a resting order with at most its remaining quantity lowers that quantity; an
  order filled completely leaves its queue, and an empty level leaves the book.\<close>

theorem fill_refines:
  assumes "book_rep b B" and "order_mem b x = Some y" and "q \<le> lo_remaining_qty y"
  shows "\<exists>b'. book_fill_order (Some x) q b = ret b' \<and> book_rep b' (a_fill (rid (resting_of y)) q B)"
  using assms by (rule book_fill_rep)

theorem fill_refines_witness:
  "\<exists>b x b'. book_rep b sample_asks \<and> book_fill_order (Some x) (Quantity 3) b = ret b' \<and> book_rep b' abook_new"
proof -
  let ?r = "resting_of_order (sample_order 5 Sell Limit 100 3) 5"
  obtain b where b: "book_rep b sample_asks"
    using sample_asks_rep by blast
  have "?r \<in> set (aorders sample_asks)"
    by (simp add: sample_asks_eq aorders_def)
  from book_rep_lookup [OF b this] obtain x y where y: "order_mem b x = Some y" "resting_of y = ?r"
    by blast
  then have "Quantity 3 \<le> lo_remaining_qty y"
    by (simp add: resting_of_def resting_of_order_def sample_order_def less_eq_quantity_def)
  moreover have "a_fill (rid ?r) (Quantity 3) sample_asks = abook_new"
    by (auto simp: sample_asks_eq abook_eval a_fill_def map_queues_def fill_queue_def minus_quantity_def zero_quantity_def)
  ultimately show ?thesis
    using b fill_refines [OF b y(1), of "Quantity 3"] y(2) by auto
qed

text \<open>Cancelling an order that was just inserted restores the book: the round trip of
  insert and cancel is the identity on levels, queues and their order.\<close>

theorem insert_cancel_roundtrip:
  assumes "book_rep b B" and "get_id (ord_order_id ord) \<notin> aids B"
    and "ord_price ord \<notin> aprices B (opp (bside_of (ord_side ord)))"
    and "length (aorders B) < ORDER_POOL_CAPACITY" and "length (B Bids @ B Asks) < LEVEL_POOL_CAPACITY"
  shows "\<exists>x b1 b2. book_insert ord sq b = ret (x, b1) \<and> book_cancel (ord_order_id ord) b1 = ret (True, b2) \<and>
    book_rep b2 B"
proof -
  let ?B1 = "a_insert (bside_of (ord_side ord)) (resting_of_order ord sq) B"
  have id: "rid (resting_of_order ord sq) = get_id (ord_order_id ord)"
    by (simp add: rid_def resting_of_order_def)
  obtain x b1 where ins: "book_insert ord sq b = ret (x, b1)" and find: "book_find_order (ord_order_id ord) b1 = Some x"
    and rep: "book_rep b1 ?B1"
    using book_insert_rep [OF assms] by blast
  obtain G where G: "book_inv b1 G" "?B1 = abs_book b1 G"
    using rep by (auto simp: book_rep_def)
  have "get_id (ord_order_id ord) \<in> aids ?B1"
    unfolding G(2) using find by (auto simp: abs_book_ids [OF G(1)] book_find_order_def lookup_find_def)
  then obtain b2 where "book_cancel (ord_order_id ord) b1 = ret (True, b2)"
    "book_rep b2 (a_cancel (get_id (ord_order_id ord)) ?B1)"
    using book_cancel_rep [OF rep, of "ord_order_id ord"] by auto
  then show ?thesis
    using ins a_cancel_insert [OF book_rep_ok [OF assms(1)], of "resting_of_order ord sq"] assms(2)
    unfolding id by auto
qed

theorem insert_cancel_roundtrip_witness:
  "\<exists>b x b1 b2. book_rep b sample_asks \<and> book_insert (sample_order 6 Buy Limit 99 4) 1 b = ret (x, b1) \<and>
     book_cancel (StrongId 6) b1 = ret (True, b2) \<and> book_rep b2 sample_asks"
proof -
  obtain b where b: "book_rep b sample_asks"
    using sample_asks_rep by blast
  have "\<exists>x b1 b2. book_insert (sample_order 6 Buy Limit 99 4) 1 b = ret (x, b1) \<and>
     book_cancel (ord_order_id (sample_order 6 Buy Limit 99 4)) b1 = ret (True, b2) \<and> book_rep b2 sample_asks"
    by (rule insert_cancel_roundtrip [OF b])
      (simp_all add: sample_asks_eq abook_eval ORDER_POOL_CAPACITY_def LEVEL_POOL_CAPACITY_def)
  then show ?thesis
    using b by (auto simp: sample_order_def)
qed

section \<open>Reading, checking and clearing\<close>

text \<open>C11. \<open>best_bid\<close> is the highest price of a resting bid and \<open>best_ask\<close> the lowest price of a
  resting ask; both are the null price when the side is empty.\<close>

theorem best_prices:
  assumes "book_rep b B"
  shows "\<exists>p q. book_best_bid b = ret p \<and> book_best_ask b = ret q \<and>
    (if B Bids = [] then p = Price 0 else p \<in> aprices B Bids \<and> (\<forall>p' \<in> aprices B Bids. p' \<le> p)) \<and>
    (if B Asks = [] then q = Price 0 else q \<in> aprices B Asks \<and> (\<forall>q' \<in> aprices B Asks. q \<le> q'))"
proof -
  have "sorted_wrt (>) (map fst (B Bids))" "sorted_wrt (<) (map fst (B Asks))"
    using book_rep_ok [OF assms] by (simp_all add: abook_ok_def all_bside [of _ Bids])
  then have "B Bids \<noteq> [] \<Longrightarrow> \<forall>p' \<in> aprices B Bids. p' \<le> fst (hd (B Bids))"
    and "B Asks \<noteq> [] \<Longrightarrow> \<forall>q' \<in> aprices B Asks. fst (hd (B Asks)) \<le> q'"
    by (cases "B Bids"; cases "B Asks"; force simp: aprices_def)+
  moreover have "B s \<noteq> [] \<Longrightarrow> fst (hd (B s)) \<in> aprices B s" for s
    by (simp add: aprices_def)
  ultimately show ?thesis
    using best_level_rep [OF assms] by auto
qed

theorem best_prices_witness:
  "\<exists>b. book_rep b sample_asks \<and> book_best_bid b = ret (Price 0) \<and> book_best_ask b = ret (Price 100)"
proof -
  obtain b where b: "book_rep b sample_asks"
    using sample_asks_rep by blast
  have "sample_asks Bids = []" "sample_asks Asks \<noteq> []" "aprices sample_asks Asks = {Price 100}"
    by (simp_all add: sample_asks_eq abook_eval)
  then show ?thesis
    using b best_prices [OF b] by auto
qed

text \<open>C12. \<open>verify_invariants\<close> never fails on a represented book: all the assertions of both
  sides hold (the best level is the first of its chain, prices strictly ordered, back links
  right, no empty level), and its loops end.\<close>

theorem verify_never_fails:
  assumes "book_rep b B"
  shows "book_verify_invariants b = ret ()"
  using assms by (rule book_verify_rep)

theorem verify_never_fails_witness: "\<exists>b. book_rep b sample_asks \<and> book_verify_invariants b = ret ()"
  using sample_asks_rep verify_never_fails by blast

text \<open>The running totals are right: every level object that is alive carries the price of a
  level of the book, the sum of the remaining quantities of its queue as \<open>total_qty\<close> and their
  number as \<open>order_count\<close>, both modulo their width.\<close>

theorem level_totals:
  assumes "book_rep b B" and "level_mem b a = Some z"
  shows "\<exists>s os. (pl_price z, os) \<in> set (B s) \<and>
    pl_total_qty z = sum_list (map ro_qty os) \<and> pl_order_count z = of_nat (length os)"
  using book_rep_level [OF assms] unfolding level_sums_def by blast

theorem level_totals_witness:
  "\<exists>b a z. book_rep b sample_asks \<and> level_mem b a = Some z \<and> pl_price z = Price 100 \<and>
     pl_total_qty z = Quantity 3 \<and> pl_order_count z = 1"
proof -
  obtain b where b: "book_rep b sample_asks"
    using sample_asks_rep by blast
  have "book_best_ask b = ret (Price 100)"
    using best_level_rep(2) [OF b] by (simp add: sample_asks_eq)
  then obtain a z where "level_mem b a = Some z"
    by (auto simp: book_best_ask_def deref_def bind_run_eq_ret split: option.splits)
  with level_totals [OF b this] b show ?thesis
    by (auto simp: sample_asks_eq abook_eval fun_upd_def plus_quantity_def zero_quantity_def split: if_splits)
qed

text \<open>C13. Clearing returns an empty book, whatever it held, and gives every order and level
  object back to its pool.\<close>

theorem clear_empties:
  assumes "book_rep b B"
  shows "\<exists>b'. book_clear b = ret b' \<and> book_rep b' abook_new \<and>
    pool_available (ob_order_pool b') = ORDER_POOL_CAPACITY \<and> pool_available (ob_level_pool b') = LEVEL_POOL_CAPACITY"
proof -
  obtain b' where run: "book_clear b = ret b'" and rep: "book_rep b' abook_new"
    using book_clear_rep [OF assms] by blast
  obtain G where inv: "book_inv b' G" and G: "abook_new = abs_book b' G"
    using rep by (auto simp: book_rep_def)
  have "length (gorders G) = 0" "length (glevels G) = 0"
    unfolding abs_book_counts(1,2) [of b' G, symmetric] G [symmetric] by (simp_all add: aorders_def abook_new_def)
  then have "dom (order_mem b') = {}" "dom (level_mem b') = {}"
    and p: "pool_inv ORDER_POOL_CAPACITY (ob_order_pool b')" "pool_inv LEVEL_POOL_CAPACITY (ob_level_pool b')"
    using inv by (simp_all add: book_inv_def book_wf_def)
  then show ?thesis
    using run rep pool_available_plus_live [OF p(1)] pool_available_plus_live [OF p(2)] by simp
qed

theorem clear_empties_witness:
  "\<exists>b b'. book_rep b sample_asks \<and> book_clear b = ret b' \<and> book_rep b' abook_new"
  using sample_asks_rep clear_empties by blast

end
