(* ===== verification/Matching_Properties.thy ===== *)
theory Matching_Properties
  imports Book_Properties
begin

text \<open>
  What a submission, a cancellation, a modification and a reset of the matching engine do.
  The statements are about the outcome of the modelled C++ functions: status, counters,
  trades and reports in the execution context, and the book afterwards. \<open>a_match ord B\<close> is the
  list of fills in price-time priority, the book after them and the quantity left.
\<close>

section \<open>One lemma for the outcome of a submission\<close>

definition expiration_report :: "order \<Rightarrow> u64 \<Rightarrow> u64 \<Rightarrow> execution_report" where
  "expiration_report ord timestamp sq =
     \<lparr>er_exec_id = StrongId sq, er_order_id = ord_order_id ord, er_price = ord_price ord,
      er_last_qty = 0, er_remaining_qty = 0, er_timestamp = timestamp,
      er_client_id = ord_client_id ord, er_account_id = ord_account_id ord,
      er_symbol_id = ord_symbol_id ord, er_reject_reason = RejectNone, er_exec_type = ExecCancel\<rparr>"

text \<open>The reports of a submission: the acknowledgement, two per fill, and one more for what is
  left of a market order.\<close>

definition submit_reports :: "order \<Rightarrow> u64 \<Rightarrow> u64 \<Rightarrow> (price \<times> resting \<times> quantity) list \<Rightarrow> quantity \<Rightarrow> execution_report list" where
  "submit_reports ord timestamp sq fs q' =
     ack_report ord timestamp sq # match_reports ord timestamp (sq + 1) (ord_qty ord) fs @
     (if q' \<noteq> 0 \<and> ord_type ord = Market
      then [expiration_report ord timestamp (sq + 1 + 2 * of_nat (length fs))] else [])"

lemma finish_ctx:
  assumes "ctx_ok (ms_ctx st)"
  shows "ctx_ok (ms_ctx (finish ord timestamp st))"
    and "trades_of (ms_ctx (finish ord timestamp st)) = trades_of (ms_ctx st)"
    and "reports_of (ms_ctx (finish ord timestamp st)) = take MAX_REPORTS (reports_of (ms_ctx st) @
      (if ms_remaining st \<noteq> 0 \<and> ord_type ord = Market
       then [expiration_report ord timestamp (ms_exec_seq st)] else []))"
  using put_report_ok [OF assms, of _ "expiration_report ord timestamp (ms_exec_seq st)"] assms
  by (simp_all add: finish_def build_expiration_def expiration_report_def zero_quantity_def)
    (simp_all add: ctx_ok_def reports_of_def)

lemma finish_counters:
  "ms_trades_generated (finish ord timestamp st) = ms_trades_generated st"
  "ms_trade_seq (finish ord timestamp st) = ms_trade_seq st"
  "st_shares_executed (ms_stats (finish ord timestamp st)) = st_shares_executed (ms_stats st)"
  by (simp_all add: finish_def)

lemma submit_order_outcome:
  assumes rep: "book_rep (me_book e) B" and m: "a_match ord B = (fs, B', q')"
    and rest: "ord_type ord = Limit \<Longrightarrow> can_rest ord B" and ctx: "ctx_ok ctx"
  obtains res ctx' e' where
    "submit_order t0 timestamp t1 ord ctx e = ret (res, ctx', e')"
    "book_rep (me_book e') (a_submit ord B)"
    "mr_status res = submit_status ord q'" "mr_trades_generated res = of_nat (length fs)"
    "me_trade_seq e' = me_trade_seq e + of_nat (length fs)"
    "st_shares_executed (me_stats e') = st_shares_executed (me_stats e) + of_nat (filled fs)"
    "ctx_ok ctx'"
    "trades_of ctx' = take MAX_TRADES (trades_of ctx @ fill_trades ord timestamp (me_trade_seq e) fs)"
    "reports_of ctx' = take MAX_REPORTS (reports_of ctx @ submit_reports ord timestamp (me_exec_seq e) fs q')"
proof -
  let ?st0 = "start_state ord timestamp e ctx"
  let ?st1 = "fold (apply_fill ord timestamp) fs ?st0"
  let ?fin = "finish ord timestamp ?st1"
  obtain b' where run: "submit_order t0 timestamp t1 ord ctx e =
      ret (\<lparr>mr_status = submit_status ord q', mr_trades_generated = ms_trades_generated ?fin\<rparr>, ms_ctx ?fin,
        \<lparr>me_book = b', me_stats = record_latency (t1 - t0) (ms_stats ?fin),
         me_trade_seq = ms_trade_seq ?fin, me_exec_seq = ms_exec_seq ?fin\<rparr>)"
    and rep': "book_rep b' (a_submit ord B)"
    using submit_order_rep [OF rep m rest refl] by blast
  have ok0: "ctx_ok (ms_ctx ?st0)"
    using ctx by (rule start_state_ctx)
  note fold = fold_fills_ctx [OF ok0, of ord timestamp fs]
  obtain ls' where "match_levels (crosses ord) (ord_qty ord) (B (opp (bside_of (ord_side ord)))) = (fs, ls', q')"
    using m by (rule a_match_levels)
  from match_levels_remaining [OF this] have q: "ms_remaining ?st1 = q'"
    by (simp add: start_state_def)
  have st0: "ms_trade_seq ?st0 = me_trade_seq e" "ms_exec_seq ?st0 = me_exec_seq e + 1"
    "ms_remaining ?st0 = ord_qty ord" "ms_trades_generated ?st0 = 0"
    "st_shares_executed (ms_stats ?st0) = st_shares_executed (me_stats e)"
    by (simp_all add: start_state_def)
  have tr: "trades_of (ms_ctx ?fin) = take MAX_TRADES (trades_of ctx @ fill_trades ord timestamp (me_trade_seq e) fs)"
    using finish_ctx(2) [of ?st1 ord timestamp] fold start_state_ctx(2) [OF ctx] st0 by simp
  have rp: "reports_of (ms_ctx ?fin) = take MAX_REPORTS (reports_of ctx @ submit_reports ord timestamp (me_exec_seq e) fs q')"
    using finish_ctx(3) [of ?st1 ord timestamp] fold start_state_ctx(3) [OF ctx, of ord timestamp e] st0
    by (simp add: submit_reports_def q fold_fills_counters del: take_append)
  show thesis
    by (rule that [OF run])
      (use rep' tr rp finish_ctx(1) fold in \<open>simp_all add: finish_counters fold_fills_counters st0 record_latency_def Let_def\<close>)
qed

section \<open>A sample submission\<close>

abbreviation sample_ask :: resting where
  "sample_ask \<equiv> resting_of_order (sample_order 5 Sell Limit 100 3) 5"

abbreviation sample_buy :: order where
  "sample_buy \<equiv> sample_order 6 Buy Limit 101 5"

lemma sample_engine: "\<exists>e :: matching_engine. book_rep (me_book e) sample_asks \<and> me_stats e = stats_new \<and> me_trade_seq e = 1 \<and> me_exec_seq e = 1"
proof -
  obtain b where "book_rep b sample_asks"
    using sample_asks_rep by blast
  then show ?thesis
    by - (rule exI [of _ "(engine_new False)\<lparr>me_book := b\<rparr>"], simp add: engine_new_def)
qed

lemma sample_match: "a_match sample_buy sample_asks = ([(Price 100, sample_ask, Quantity 3)], abook_new, Quantity 2)"
  by (simp add: a_match_def sample_asks_eq sample_order_def resting_of_order_def crosses_def abook_new_def Let_def
      less_price_def min_def less_eq_quantity_def minus_quantity_def zero_quantity_def) (simp add: fun_eq_iff)

lemma sample_can_rest: "can_rest sample_buy sample_asks"
  by (simp add: can_rest_def sample_asks_eq abook_eval ORDER_POOL_CAPACITY_def LEVEL_POOL_CAPACITY_def)

lemma ctx_ok_new: "ctx_ok ctx_new" "trades_of ctx_new = []" "reports_of ctx_new = []"
  by (simp_all add: ctx_ok_def ctx_new_def trades_of_def reports_of_def)

section \<open>Submitting\<close>

text \<open>C1. Submitting an order to an engine whose book is well-formed returns, and does what
  price-time priority says: the book afterwards is the abstract book after the abstract
  matching, the number of trades is the number of abstract fills, and the status follows the
  quantity that is left. A limit order needs a new id and room in the pools.\<close>

theorem submit_order_refines:
  assumes "book_rep (me_book e) B" and "a_match ord B = (fs, B', q')"
    and "ord_type ord = Limit \<Longrightarrow> can_rest ord B" and "ctx_ok ctx"
  shows "\<exists>res ctx' e'. submit_order t0 timestamp t1 ord ctx e = ret (res, ctx', e') \<and>
    book_rep (me_book e') (a_submit ord B) \<and> ctx_ok ctx' \<and>
    mr_status res = submit_status ord q' \<and> mr_trades_generated res = of_nat (length fs) \<and>
    me_trade_seq e' = me_trade_seq e + of_nat (length fs)"
  by (rule submit_order_outcome [OF assms, of t0 timestamp t1], assumption) (intro exI conjI)

theorem submit_order_refines_witness:
  "\<exists>(e :: matching_engine) res ctx' e'. book_rep (me_book e) sample_asks \<and>
     submit_order 0 1 2 sample_buy ctx_new e = ret (res, ctx', e') \<and>
     book_rep (me_book e') (abook_new(Bids := [(Price 101, [resting_of_order sample_buy 6])])) \<and>
     mr_status res = PartiallyFilled \<and> mr_trades_generated res = 1"
proof -
  obtain e :: matching_engine where e: "book_rep (me_book e) sample_asks"
    using sample_engine by blast
  have "a_submit sample_buy sample_asks = abook_new(Bids := [(Price 101, [resting_of_order sample_buy 6])])"
    by (simp add: a_submit_def sample_match) (simp add: abook_eval zero_quantity_def)
  moreover have "submit_status sample_buy (Quantity 2) = PartiallyFilled"
    by (simp add: submit_status_def sample_order_def zero_quantity_def)
  ultimately show ?thesis
    using e submit_order_refines [OF e sample_match sample_can_rest ctx_ok_new(1), of 0 1 2] by auto
qed

text \<open>C2. No crossed book: after a submission every bid is still below every ask.\<close>

theorem submit_keeps_uncrossed:
  assumes "book_rep (me_book e) B" and "uncrossed B"
    and "ord_type ord = Limit \<Longrightarrow> can_rest ord B" and "ctx_ok ctx"
  shows "\<exists>res ctx' e' B2. submit_order t0 timestamp t1 ord ctx e = ret (res, ctx', e') \<and>
    book_rep (me_book e') B2 \<and> uncrossed B2"
proof -
  obtain fs B' q' where m: "a_match ord B = (fs, B', q')"
    by (metis prod_cases3)
  show ?thesis
    by (rule submit_order_outcome [OF assms(1) m assms(3,4), of t0 timestamp t1])
      (use a_submit_uncrossed [OF book_rep_ok [OF assms(1)] assms(2)] in blast)+
qed

theorem submit_keeps_uncrossed_witness:
  "\<exists>(e :: matching_engine) res ctx' e' B2. book_rep (me_book e) sample_asks \<and>
     submit_order 0 1 2 sample_buy ctx_new e = ret (res, ctx', e') \<and> book_rep (me_book e') B2 \<and> uncrossed B2"
proof -
  obtain e :: matching_engine where e: "book_rep (me_book e) sample_asks"
    using sample_engine by blast
  have "uncrossed sample_asks"
    by (simp add: uncrossed_def sample_asks_eq abook_eval)
  from submit_keeps_uncrossed [OF e this sample_can_rest ctx_ok_new(1), of 0 1 2] e show ?thesis
    by blast
qed

text \<open>C3. Price-time priority: the trades of a submission are made with a prefix of the orders of
  the opposite side, taken from the best price to the worst and in queue order within a price,
  each at the price of the resting order, at a price the incoming order accepts, never for more
  than the resting order has; and every resting order but the last is taken whole.\<close>

theorem submit_priority:
  assumes "book_rep (me_book e) B" and "ord_type ord = Limit \<Longrightarrow> can_rest ord B"
    and "ctx_ok ctx" and "trades_of ctx = []"
  shows "\<exists>res ctx' e' fs. submit_order t0 timestamp t1 ord ctx e = ret (res, ctx', e') \<and>
    trades_of ctx' = take MAX_TRADES (fill_trades ord timestamp (me_trade_seq e) fs) \<and>
    map (\<lambda>(p, r, m). (p, r)) fs = take (length fs) (flat (B (opp (bside_of (ord_side ord))))) \<and>
    (\<forall>(p, r, m) \<in> set fs. crosses ord p \<and> m \<le> ro_qty r) \<and>
    (\<forall>(p, r, m) \<in> set (butlast fs). m = ro_qty r)"
proof -
  obtain fs B' q' where m: "a_match ord B = (fs, B', q')"
    by (metis prod_cases3)
  obtain ls' where l: "match_levels (crosses ord) (ord_qty ord) (B (opp (bside_of (ord_side ord)))) = (fs, ls', q')"
    using m by (rule a_match_levels)
  have fills: "(\<forall>(p, r, m) \<in> set fs. crosses ord p \<and> m \<le> ro_qty r)" "(\<forall>(p, r, m) \<in> set (butlast fs). m = ro_qty r)"
    using match_levels_crosses [OF l] match_levels_fills [OF l] by auto
  obtain res ctx' e' where "submit_order t0 timestamp t1 ord ctx e = ret (res, ctx', e')"
    and "trades_of ctx' = take MAX_TRADES (trades_of ctx @ fill_trades ord timestamp (me_trade_seq e) fs)"
    by (rule submit_order_outcome [OF assms(1) m assms(2,3), of t0 timestamp t1], assumption)
  then show ?thesis
    using match_levels_makers [OF l] fills assms(4) by (intro exI conjI) simp_all
qed

theorem submit_priority_witness:
  "\<exists>(e :: matching_engine) res ctx' e' fs. book_rep (me_book e) sample_asks \<and>
     submit_order 0 1 2 sample_buy ctx_new e = ret (res, ctx', e') \<and>
     trades_of ctx' = take MAX_TRADES (fill_trades sample_buy 1 (me_trade_seq e) fs) \<and>
     map (\<lambda>(p, r, m). (p, r)) fs = take (length fs) [(Price 100, sample_ask)]"
proof -
  obtain e :: matching_engine where e: "book_rep (me_book e) sample_asks"
    using sample_engine by blast
  have "flat (sample_asks (opp (bside_of (ord_side sample_buy)))) = [(Price 100, sample_ask)]"
    by (simp add: sample_asks_eq sample_order_def)
  with submit_priority [OF e sample_can_rest ctx_ok_new(1,2), of 0 1 2] e show ?thesis
    by auto
qed

text \<open>C4. Quantity is conserved: the quantities of the fills and the quantity left add up to the
  quantity of the order, without wrap-around, and the counter of executed shares advances by
  the quantity filled.\<close>

theorem submit_conserves_quantity:
  assumes "book_rep (me_book e) B" and "a_match ord B = (fs, B', q')"
    and "ord_type ord = Limit \<Longrightarrow> can_rest ord B" and "ctx_ok ctx"
  shows "\<exists>res ctx' e'. submit_order t0 timestamp t1 ord ctx e = ret (res, ctx', e') \<and>
    st_shares_executed (me_stats e') = st_shares_executed (me_stats e) + of_nat (filled fs) \<and>
    filled fs + unat (units q') = unat (units (ord_qty ord)) \<and>
    (mr_status res = Filled \<longleftrightarrow> filled fs = unat (units (ord_qty ord)))"
proof -
  obtain ls' where l: "match_levels (crosses ord) (ord_qty ord) (B (opp (bside_of (ord_side ord)))) = (fs, ls', q')"
    using assms(2) by (rule a_match_levels)
  note sum = match_levels_conserves [OF l]
  have "submit_status ord q' = Filled \<longleftrightarrow> q' = 0"
    by (simp add: submit_status_def)
  also have "\<dots> \<longleftrightarrow> filled fs = unat (units (ord_qty ord))"
    using sum by (auto simp: quantity_eq_0_iff unat_eq_zero)
  finally have status: "submit_status ord q' = Filled \<longleftrightarrow> filled fs = unat (units (ord_qty ord))" .
  obtain res ctx' e' where "submit_order t0 timestamp t1 ord ctx e = ret (res, ctx', e')"
    and "st_shares_executed (me_stats e') = st_shares_executed (me_stats e) + of_nat (filled fs)"
    and "mr_status res = submit_status ord q'"
    by (rule submit_order_outcome [OF assms, of t0 timestamp t1], assumption)
  with sum status show ?thesis
    by metis
qed

theorem submit_conserves_quantity_witness:
  "\<exists>(e :: matching_engine) res ctx' e'. book_rep (me_book e) sample_asks \<and>
     submit_order 0 1 2 sample_buy ctx_new e = ret (res, ctx', e') \<and> mr_status res \<noteq> Filled \<and>
     st_shares_executed (me_stats e') = 3"
proof -
  obtain e :: matching_engine where e: "book_rep (me_book e) sample_asks" and st: "me_stats e = stats_new"
    using sample_engine by blast
  have "filled [(Price 100, sample_ask, Quantity 3)] = 3" "unat (units (ord_qty sample_buy)) = 5"
    by (simp_all add: filled_def sample_order_def)
  with submit_conserves_quantity [OF e sample_match sample_can_rest ctx_ok_new(1), of 0 1 2] e show ?thesis
    by (auto simp: st stats_new_def)
qed

text \<open>C5. What a submission writes to the execution context: an acknowledgement, a trade and the
  reports of taker and maker for each fill in order, and a final report for what is left of a
  market order, with consecutive sequence numbers; entries beyond the capacity of the context
  are dropped.\<close>

theorem submit_records:
  assumes "book_rep (me_book e) B" and "a_match ord B = (fs, B', q')"
    and "ord_type ord = Limit \<Longrightarrow> can_rest ord B" and "ctx_ok ctx"
  shows "\<exists>res ctx' e'. submit_order t0 timestamp t1 ord ctx e = ret (res, ctx', e') \<and>
    trades_of ctx' = take MAX_TRADES (trades_of ctx @ fill_trades ord timestamp (me_trade_seq e) fs) \<and>
    reports_of ctx' = take MAX_REPORTS (reports_of ctx @ submit_reports ord timestamp (me_exec_seq e) fs q')"
  by (rule submit_order_outcome [OF assms, of t0 timestamp t1], assumption) (intro exI conjI)

theorem submit_records_witness:
  "\<exists>(e :: matching_engine) res ctx' e'. book_rep (me_book e) sample_asks \<and>
     submit_order 0 1 2 sample_buy ctx_new e = ret (res, ctx', e') \<and>
     trades_of ctx' = [\<lparr>tr_trade_id = StrongId 1, tr_buy_order_id = StrongId 6, tr_sell_order_id = StrongId 5,
       tr_price = Price 100, tr_qty = Quantity 3, tr_timestamp = 1, tr_symbol_id = StrongId 1\<rparr>] \<and>
     map er_exec_id (reports_of ctx') = [StrongId 1, StrongId 2, StrongId 3]"
proof -
  obtain e :: matching_engine where e: "book_rep (me_book e) sample_asks"
    and st: "me_trade_seq e = 1" "me_exec_seq e = 1"
    using sample_engine by blast
  from submit_records [OF e sample_match sample_can_rest ctx_ok_new(1), of 0 1 2]
  obtain res ctx' e' where "submit_order 0 1 2 sample_buy ctx_new e = ret (res, ctx', e')"
    and tr: "trades_of ctx' = take MAX_TRADES (fill_trades sample_buy 1 1 [(Price 100, sample_ask, Quantity 3)])"
    and rp: "reports_of ctx' =
      take MAX_REPORTS (submit_reports sample_buy 1 1 [(Price 100, sample_ask, Quantity 3)] (Quantity 2))"
    unfolding ctx_ok_new st append_Nil by blast
  moreover have "trades_of ctx' = [\<lparr>tr_trade_id = StrongId 1, tr_buy_order_id = StrongId 6,
      tr_sell_order_id = StrongId 5, tr_price = Price 100, tr_qty = Quantity 3, tr_timestamp = 1,
      tr_symbol_id = StrongId 1\<rparr>]"
    unfolding tr by (simp add: fill_trade_def sample_order_def resting_of_order_def MAX_TRADES_def)
  moreover have "map er_exec_id (reports_of ctx') = [StrongId 1, StrongId 2, StrongId 3]"
    unfolding rp by (simp add: submit_reports_def ack_report_def fill_reports_def sample_order_def MAX_REPORTS_def)
  ultimately show ?thesis
    using e by (intro exI conjI)
qed

text \<open>C6. A limit order that is filled in part comes to rest with its full original quantity, not
  with what is left: \<open>submit_order\<close> passes the order itself to \<open>insert\<close>. The quantity already
  traded can trade again.\<close>

theorem partial_fill_rests_full_quantity:
  assumes "book_rep (me_book e) B" and "a_match ord B = (fs, B', q')" and "ord_type ord = Limit"
    and "can_rest ord B" and "ctx_ok ctx" and "q' \<noteq> 0" and "q' \<noteq> ord_qty ord"
  shows "\<exists>res ctx' e' x lo. submit_order t0 timestamp t1 ord ctx e = ret (res, ctx', e') \<and>
    mr_status res = PartiallyFilled \<and> book_find_order (ord_order_id ord) (me_book e') = Some x \<and>
    order_mem (me_book e') x = Some lo \<and> lo_remaining_qty lo = ord_qty ord \<and> q' < lo_remaining_qty lo"
proof -
  let ?r = "resting_of_order ord (ord_seq_num ord)"
  obtain ls' where l: "match_levels (crosses ord) (ord_qty ord) (B (opp (bside_of (ord_side ord)))) = (fs, ls', q')"
    using assms(2) by (rule a_match_levels)
  have "units q' \<le> units (ord_qty ord)" "units q' \<noteq> units (ord_qty ord)"
    using match_levels_conserves [OF l] assms(7) by (auto simp: word_le_nat_alt intro: quantity.expand)
  then have q: "q' < ord_qty ord"
    by (simp add: less_quantity_def)
  obtain res ctx' e' where run: "submit_order t0 timestamp t1 ord ctx e = ret (res, ctx', e')"
    and rep: "book_rep (me_book e') (a_submit ord B)" and res: "mr_status res = submit_status ord q'"
    by (rule submit_order_outcome [OF assms(1,2,4,5), of t0 timestamp t1], assumption)
  have "a_submit ord B = a_insert (bside_of (ord_side ord)) ?r B'"
    using assms by (simp add: a_submit_def)
  moreover have "?r \<in> set (aorders (a_insert s ?r B'))" for s
    by (cases s) (force simp: a_insert_def aorders_def add_order_def)+
  ultimately have "?r \<in> set (aorders (a_submit ord B))"
    by simp
  from book_rep_lookup [OF rep this] obtain x lo where "ob_lookup (me_book e') (rid ?r) = Some x"
    and "order_mem (me_book e') x = Some lo" and "resting_of lo = ?r"
    by blast
  moreover have "mr_status res = PartiallyFilled"
    using assms res by (simp add: submit_status_def)
  ultimately show ?thesis
    using run q by (intro exI [of _ res] exI [of _ ctx'] exI [of _ e'] exI [of _ x] exI [of _ lo])
      (auto simp: book_find_order_def lookup_find_def rid_def resting_of_def resting_of_order_def)
qed

theorem partial_fill_rests_full_quantity_witness:
  "\<exists>(e :: matching_engine) res ctx' e' x lo. book_rep (me_book e) sample_asks \<and>
     submit_order 0 1 2 sample_buy ctx_new e = ret (res, ctx', e') \<and> mr_status res = PartiallyFilled \<and>
     book_find_order (StrongId 6) (me_book e') = Some x \<and> order_mem (me_book e') x = Some lo \<and>
     lo_remaining_qty lo = Quantity 5"
proof -
  obtain e :: matching_engine where e: "book_rep (me_book e) sample_asks"
    using sample_engine by blast
  have "ord_type sample_buy = Limit" "Quantity 2 \<noteq> 0" "Quantity 2 \<noteq> ord_qty sample_buy"
    "ord_order_id sample_buy = StrongId 6" "ord_qty sample_buy = Quantity 5"
    by (simp_all add: sample_order_def zero_quantity_def)
  with partial_fill_rests_full_quantity [OF e sample_match _ sample_can_rest ctx_ok_new(1), of 0 1 2] e
  show ?thesis
    by metis
qed

section \<open>Cancelling, modifying, resetting\<close>

definition cancel_report ::
  "resting \<Rightarrow> client_id \<Rightarrow> account_id \<Rightarrow> symbol_id \<Rightarrow> u64 \<Rightarrow> u64 \<Rightarrow> execution_report" where
  "cancel_report r client account symbol timestamp sq =
     \<lparr>er_exec_id = StrongId sq, er_order_id = key_order_id (ro_key r), er_price = ro_price r,
      er_last_qty = 0, er_remaining_qty = 0, er_timestamp = timestamp, er_client_id = client,
      er_account_id = account, er_symbol_id = symbol, er_reject_reason = RejectNone, er_exec_type = ExecCancel\<rparr>"

text \<open>C14. Cancelling through the engine: for a resting id the order leaves the book and exactly one
  cancel report with the order's own id and price is written; for an unknown id nothing changes
  but the counter of rejected orders.\<close>

theorem cancel_order_refines:
  assumes "book_rep (me_book e) B" and "ctx_ok ctx"
  shows "\<exists>ctx' e'. cancel_order t0 timestamp t1 i client account symbol ctx e = ret (get_id i \<in> aids B, ctx', e') \<and>
    book_rep (me_book e') (a_cancel (get_id i) B) \<and>
    (if get_id i \<in> aids B
     then (\<exists>r \<in> set (aorders B). rid r = get_id i \<and> reports_of ctx' = take MAX_REPORTS
        (reports_of ctx @ [cancel_report r client account symbol timestamp (me_exec_seq e)])) \<and>
        me_exec_seq e' = me_exec_seq e + 1
     else ctx' = ctx \<and> me_book e' = me_book e \<and>
        st_orders_rejected (me_stats e') = st_orders_rejected (me_stats e) + 1)"
proof -
  obtain b' where run: "book_cancel i (me_book e) = ret (get_id i \<in> aids B, b')"
    and rep: "book_rep b' (a_cancel (get_id i) B)"
    using book_cancel_rep [OF assms(1)] by blast
  show ?thesis
  proof (cases "get_id i \<in> aids B")
    case True
    then obtain r where r: "r \<in> set (aorders B)" "rid r = get_id i"
      by (auto simp: aids_def)
    obtain x lo where lo: "ob_lookup (me_book e) (get_id i) = Some x" "order_mem (me_book e) x = Some lo" "resting_of lo = r"
      using book_rep_lookup [OF assms(1) r(1)] r(2) by auto
    let ?rep = "cancel_report r client account symbol timestamp (me_exec_seq e)"
    let ?ctx = "build_cancel (me_exec_seq e) lo client account symbol timestamp ctx"
    have "reports_of ?ctx = take MAX_REPORTS (reports_of ctx @ [?rep])"
      unfolding build_cancel_def lo(3) [symmetric] by (rule put_report_ok(2) [OF assms(2)])
        (simp add: cancel_report_def zero_quantity_def resting_of_def)
    then have found: "\<exists>r \<in> set (aorders B). rid r = get_id i \<and> reports_of ?ctx = take MAX_REPORTS
        (reports_of ctx @ [cancel_report r client account symbol timestamp (me_exec_seq e)])"
      using r by blast
    obtain e' where "cancel_order t0 timestamp t1 i client account symbol ctx e = ret (True, ?ctx, e')"
      and "me_book e' = b'" "me_exec_seq e' = me_exec_seq e + 1"
      using run lo(1,2) by (simp add: cancel_order_def book_find_order_def lookup_find_def Let_def)
    with True rep found show ?thesis
      by (intro exI [of _ ?ctx] exI [of _ e']) simp
  next
    case False
    obtain G where inv: "book_inv (me_book e) G" and B: "B = abs_book (me_book e) G"
      using assms(1) by (auto simp: book_rep_def)
    have none: "ob_lookup (me_book e) (get_id i) = None"
      using False abs_book_ids [OF inv] by (auto simp: B)
    then have "b' = me_book e"
      using run by (auto simp: book_cancel_def lookup_find_def)
    with none False rep show ?thesis
      by (simp add: cancel_order_def book_find_order_def lookup_find_def)
  qed
qed

theorem cancel_order_refines_witness:
  "\<exists>(e :: matching_engine) ctx' e'. book_rep (me_book e) sample_asks \<and>
     cancel_order 0 1 2 (StrongId 5) (StrongId 7) (StrongId 9) (StrongId 1) ctx_new e = ret (True, ctx', e') \<and>
     reports_of ctx' = [cancel_report sample_ask (StrongId 7) (StrongId 9) (StrongId 1) 1 1]"
proof -
  obtain e :: matching_engine where e: "book_rep (me_book e) sample_asks" "me_exec_seq e = 1"
    using sample_engine by blast
  have "get_id (StrongId 5) \<in> aids sample_asks" "set (aorders sample_asks) = {sample_ask}"
    by (simp_all add: sample_asks_eq abook_eval)
  then show ?thesis
    using e cancel_order_refines [OF e(1) ctx_ok_new(1), of 0 1 2 "StrongId 5" "StrongId 7" "StrongId 9" "StrongId 1"]
    by (auto simp: ctx_ok_new MAX_REPORTS_def)
qed

text \<open>Resetting an engine gives an engine with an empty book, zero statistics and sequence
  numbers that start at one again.\<close>

theorem engine_reset_empties:
  assumes "book_rep (me_book e) B"
  shows "\<exists>e'. engine_reset e = ret e' \<and> book_rep (me_book e') abook_new \<and>
    me_stats e' = stats_new \<and> me_trade_seq e' = 1 \<and> me_exec_seq e' = 1"
  using book_clear_rep [OF assms] by (auto simp: engine_reset_def)

theorem engine_reset_empties_witness:
  "\<exists>(e :: matching_engine) e'. book_rep (me_book e) sample_asks \<and> engine_reset e = ret e' \<and>
     book_rep (me_book e') abook_new"
proof -
  obtain e :: matching_engine where e: "book_rep (me_book e) sample_asks"
    using sample_engine by blast
  from engine_reset_empties [OF e] e show ?thesis
    by blast
qed

end
