(* ===== verification/Ring_Buffer.thy ===== *)
theory Ring_Buffer
  imports Prelude
begin

text \<open>
  The bounded queues of \<open>common/include/common/ring_buffer.hpp\<close>, used by one thread at a time:
  \<open>SPSCQueue\<close> and \<open>MPSCQueue\<close>. Indices are \<open>size_t\<close> values that wrap around; the capacity is a
  power of two. The interleavings of several threads are in \<open>Queue_Concurrency\<close>.

  A popped slot keeps its bits (the element types of the program are trivially copyable), and no
  operation reads it again before it is overwritten.
\<close>

section \<open>\<open>SPSCQueue\<close>\<close>

text \<open>The slot of an index: \<open>idx & (Capacity - 1)\<close>.\<close>

definition ring_slot :: "u64 \<Rightarrow> u64 \<Rightarrow> nat" where
  "ring_slot cap idx = unat (and idx (cap - 1))"

record 'a spsc_queue =
  sq_buffer :: "'a list"
  sq_write_idx :: u64
  sq_read_idx :: u64

definition spsc_new :: "u64 \<Rightarrow> 'a \<Rightarrow> 'a spsc_queue" where
  "spsc_new cap d = \<lparr>sq_buffer = replicate (unat cap) d, sq_write_idx = 0, sq_read_idx = 0\<rparr>"

definition spsc_emplace :: "u64 \<Rightarrow> 'a \<Rightarrow> 'a spsc_queue \<Rightarrow> bool \<times> 'a spsc_queue" where
  "spsc_emplace cap value q =
     (let curr_write = sq_write_idx q;
          curr_read = sq_read_idx q
      in if curr_write - curr_read \<ge> cap then (False, q)
         else (True, q\<lparr>sq_buffer := (sq_buffer q)[ring_slot cap curr_write := value],
                       sq_write_idx := curr_write + 1\<rparr>))"

text \<open>\<open>push(const T&)\<close>; \<open>push(T&&)\<close> has the same text as \<open>emplace\<close>.\<close>

definition spsc_push :: "u64 \<Rightarrow> 'a \<Rightarrow> 'a spsc_queue \<Rightarrow> bool \<times> 'a spsc_queue" where
  "spsc_push cap value q = spsc_emplace cap value q"

definition spsc_push_move :: "u64 \<Rightarrow> 'a \<Rightarrow> 'a spsc_queue \<Rightarrow> bool \<times> 'a spsc_queue" where
  "spsc_push_move cap value q =
     (let curr_write = sq_write_idx q;
          curr_read = sq_read_idx q
      in if curr_write - curr_read \<ge> cap then (False, q)
         else (True, q\<lparr>sq_buffer := (sq_buffer q)[ring_slot cap curr_write := value],
                       sq_write_idx := curr_write + 1\<rparr>))"

text \<open>\<open>pop(T& value)\<close>: \<open>None\<close> is the result \<open>false\<close>.\<close>

definition spsc_pop :: "u64 \<Rightarrow> 'a spsc_queue \<Rightarrow> 'a option \<times> 'a spsc_queue" where
  "spsc_pop cap q =
     (let curr_read = sq_read_idx q;
          curr_write = sq_write_idx q
      in if curr_read = curr_write then (None, q)
         else (Some (sq_buffer q ! ring_slot cap curr_read), q\<lparr>sq_read_idx := curr_read + 1\<rparr>))"

definition index_size :: "u64 \<Rightarrow> u64 \<Rightarrow> u64" where
  "index_size w r = (if w \<ge> r then w - r else 0)"

definition spsc_size :: "'a spsc_queue \<Rightarrow> u64" where
  "spsc_size q = (let curr_write = sq_write_idx q; curr_read = sq_read_idx q in index_size curr_write curr_read)"

definition spsc_empty :: "'a spsc_queue \<Rightarrow> bool" where
  "spsc_empty q \<longleftrightarrow> spsc_size q = 0"

section \<open>\<open>MPSCQueue\<close>\<close>

record 'a cell =
  cell_sequence :: u64
  cell_data :: 'a

record 'a mpsc_queue =
  mq_buffer :: "'a cell list"
  mq_write_idx :: u64
  mq_read_idx :: u64

definition mpsc_new :: "u64 \<Rightarrow> 'a \<Rightarrow> 'a mpsc_queue" where
  "mpsc_new cap d =
     \<lparr>mq_buffer = map (\<lambda>i. \<lparr>cell_sequence = of_nat i, cell_data = d\<rparr>) [0..<unat cap],
      mq_write_idx = 0, mq_read_idx = 0\<rparr>"

text \<open>The loop of \<open>emplace\<close> with no other thread and no spurious failure of the
  compare-and-exchange: the position that is claimed, or \<open>None\<close> when the queue is full.\<close>

partial_function (option) mpsc_claim :: "u64 \<Rightarrow> u64 \<Rightarrow> 'a mpsc_queue \<Rightarrow> (u64 option \<times> 'a mpsc_queue) run" where
  "mpsc_claim cap pos q =
     (let seq = cell_sequence (mq_buffer q ! ring_slot cap pos);
          diff = seq - pos
      in if diff = 0 then
           if mq_write_idx q = pos then ret (Some pos, q\<lparr>mq_write_idx := pos + 1\<rparr>)
           else mpsc_claim cap (mq_write_idx q) q
         else if sint diff < 0 then ret (None, q)
         else mpsc_claim cap (mq_write_idx q) q)"

definition mpsc_emplace :: "u64 \<Rightarrow> 'a \<Rightarrow> 'a mpsc_queue \<Rightarrow> (bool \<times> 'a mpsc_queue) run" where
  "mpsc_emplace cap value q =
     bind_run (mpsc_claim cap (mq_write_idx q) q) (\<lambda>(r, q1).
     case r of
       None \<Rightarrow> ret (False, q1)
     | Some pos \<Rightarrow> ret (True, q1\<lparr>mq_buffer := (mq_buffer q1)[ring_slot cap pos :=
           \<lparr>cell_sequence = pos + 1, cell_data = value\<rparr>]\<rparr>))"

definition mpsc_push :: "u64 \<Rightarrow> 'a \<Rightarrow> 'a mpsc_queue \<Rightarrow> (bool \<times> 'a mpsc_queue) run" where
  "mpsc_push cap value q = mpsc_emplace cap value q"

partial_function (option) mpsc_take :: "u64 \<Rightarrow> u64 \<Rightarrow> 'a mpsc_queue \<Rightarrow> (u64 option \<times> 'a mpsc_queue) run" where
  "mpsc_take cap pos q =
     (let seq = cell_sequence (mq_buffer q ! ring_slot cap pos);
          diff = seq - (pos + 1)
      in if diff = 0 then
           if mq_read_idx q = pos then ret (Some pos, q\<lparr>mq_read_idx := pos + 1\<rparr>)
           else mpsc_take cap (mq_read_idx q) q
         else if sint diff < 0 then ret (None, q)
         else mpsc_take cap (mq_read_idx q) q)"

definition mpsc_pop :: "u64 \<Rightarrow> 'a mpsc_queue \<Rightarrow> ('a option \<times> 'a mpsc_queue) run" where
  "mpsc_pop cap q =
     bind_run (mpsc_take cap (mq_read_idx q) q) (\<lambda>(r, q1).
     case r of
       None \<Rightarrow> ret (None, q1)
     | Some pos \<Rightarrow>
         let cell = mq_buffer q1 ! ring_slot cap pos
         in ret (Some (cell_data cell), q1\<lparr>mq_buffer := (mq_buffer q1)[ring_slot cap pos :=
              cell\<lparr>cell_sequence := pos + cap\<rparr>]\<rparr>))"

definition mpsc_size :: "'a mpsc_queue \<Rightarrow> u64" where
  "mpsc_size q = (let w = mq_write_idx q; r = mq_read_idx q in index_size w r)"

definition mpsc_empty :: "'a mpsc_queue \<Rightarrow> bool" where
  "mpsc_empty q \<longleftrightarrow> mpsc_size q = 0"

section \<open>Indices and slots\<close>

text \<open>The capacities the program uses, powers of two below the sign bit.\<close>

definition ring_cap :: "u64 \<Rightarrow> bool" where
  "ring_cap cap \<longleftrightarrow> (\<exists>k < 63. cap = 2 ^ k)"

lemma ring_cap_pos: "ring_cap cap \<Longrightarrow> 0 < unat cap"
  by (auto simp: ring_cap_def unat_gt_0)

lemma unat_ring_cap: "k < 63 \<Longrightarrow> unat (2 ^ k :: u64) = 2 ^ k"
proof -
  assume "k < 63"
  then have "2 ^ k < (2 ^ 64 :: nat)"
    by (intro power_strict_increasing) simp_all
  then have "unat (of_nat (2 ^ k) :: u64) = 2 ^ k"
    by (simp only: unat_of_nat) simp
  then show "unat (2 ^ k :: u64) = 2 ^ k"
    by simp
qed

lemma ring_cap_bound: "ring_cap cap \<Longrightarrow> unat cap < 2 ^ 63"
  using power_strict_increasing [of _ 63 "2 :: nat"] by (auto simp: ring_cap_def unat_ring_cap)

lemma ring_slot_eq:
  assumes "ring_cap cap"
  shows "ring_slot cap idx = unat idx mod unat cap"
proof -
  obtain k where k: "k < 63" "cap = 2 ^ k"
    using assms by (auto simp: ring_cap_def)
  have "and idx (2 ^ k - 1) = take_bit k idx"
    by (simp only: take_bit_eq_mask mask_eq_exp_minus_1)
  then have "ring_slot cap idx = take_bit k (unat idx)"
    by (simp only: ring_slot_def k unsigned_take_bit_eq)
  then show ?thesis
    using k by (simp add: unat_ring_cap take_bit_eq_mod)
qed

lemma ring_slot_less: "ring_cap cap \<Longrightarrow> ring_slot cap idx < unat cap"
  by (simp add: ring_slot_eq ring_cap_pos)

text \<open>The capacity divides the number of indices, so slots advance cyclically also when the
  index wraps around.\<close>

lemma ring_slot_add:
  assumes "ring_cap cap"
  shows "ring_slot cap (idx + of_nat n) = (unat idx + n) mod unat cap"
proof -
  obtain k where k: "k < 63" "cap = 2 ^ k"
    using assms by (auto simp: ring_cap_def)
  have "unat (idx + of_nat n) = (unat idx + n) mod 2 ^ 64"
    by (simp add: unat_word_ariths unat_of_nat mod_simps)
  moreover have "(2 ^ k :: nat) dvd 2 ^ 64"
    using k by (intro le_imp_power_dvd) simp
  ultimately show ?thesis
    using k assms by (simp add: ring_slot_eq unat_ring_cap mod_mod_cancel)
qed

text \<open>Positions less than a capacity apart have different slots.\<close>

lemma ring_slot_inj:
  assumes "ring_cap cap" and "i < unat cap" and "j < unat cap"
  shows "ring_slot cap (idx + of_nat i) = ring_slot cap (idx + of_nat j) \<longleftrightarrow> i = j"
proof (cases "i \<le> j")
  case True
  then show ?thesis
    using assms mod_eq_near [of "unat idx + i" "unat idx + j" "unat cap"] by (auto simp: ring_slot_add)
next
  case False
  then show ?thesis
    using assms mod_eq_near [of "unat idx + j" "unat idx + i" "unat cap"] by (auto simp: ring_slot_add)
qed

section \<open>The contract of a bounded queue\<close>

text \<open>What the gateway and the exchange rely on: a queue holds a list of at most \<open>cap\<close> elements;
  pushing appends or reports that the queue is full, popping takes the oldest element.\<close>

locale bounded_queue =
  fixes push :: "'a \<Rightarrow> 'q \<Rightarrow> (bool \<times> 'q) run"
    and pop :: "'q \<Rightarrow> ('a option \<times> 'q) run"
    and elems :: "'q \<Rightarrow> 'a list"
    and invar :: "'q \<Rightarrow> bool"
    and capacity :: nat
  assumes elems_bound: "invar q \<Longrightarrow> length (elems q) \<le> capacity"
    and push_room: "invar q \<Longrightarrow> length (elems q) < capacity \<Longrightarrow>
      \<exists>q'. push v q = ret (True, q') \<and> invar q' \<and> elems q' = elems q @ [v]"
    and push_full: "invar q \<Longrightarrow> length (elems q) = capacity \<Longrightarrow> push v q = ret (False, q)"
    and pop_Cons: "invar q \<Longrightarrow> elems q = v # vs \<Longrightarrow>
      \<exists>q'. pop q = ret (Some v, q') \<and> invar q' \<and> elems q' = vs"
    and pop_Nil: "invar q \<Longrightarrow> elems q = [] \<Longrightarrow> pop q = ret (None, q)"
begin

text \<open>One lemma per operation for all its branches.\<close>

lemma push_refines:
  assumes "invar q"
  shows "\<exists>q'. push v q = ret (length (elems q) < capacity, q') \<and> invar q' \<and>
    elems q' = (if length (elems q) < capacity then elems q @ [v] else elems q)"
proof (cases "length (elems q) < capacity")
  case True
  with push_room [OF assms, of v] show ?thesis
    by auto
next
  case False
  then have "push v q = ret (False, q)"
    using elems_bound [OF assms] by (intro push_full [OF assms]) simp
  with False assms show ?thesis
    by auto
qed

lemma pop_refines:
  assumes "invar q"
  shows "\<exists>q'. pop q = ret (case elems q of [] \<Rightarrow> None | v # _ \<Rightarrow> Some v, q') \<and> invar q' \<and> elems q' = tl (elems q)"
  using pop_Nil [OF assms] pop_Cons [OF assms] assms by (cases "elems q") force+

text \<open>Draining returns everything, in the order it was pushed.\<close>

fun drain :: "nat \<Rightarrow> 'q \<Rightarrow> ('a list \<times> 'q) run" where
  "drain 0 q = ret ([], q)"
| "drain (Suc n) q =
     bind_run (pop q) (\<lambda>(r, q1).
     case r of None \<Rightarrow> ret ([], q1)
     | Some v \<Rightarrow> bind_run (drain n q1) (\<lambda>(vs, q2). ret (v # vs, q2)))"

lemma drain_fifo:
  assumes "invar q" and "length (elems q) \<le> n"
  shows "\<exists>q'. drain n q = ret (elems q, q') \<and> invar q' \<and> elems q' = []"
  using assms
proof (induction n arbitrary: q)
  case (Suc n)
  show ?case
  proof (cases "elems q")
    case Nil
    then show ?thesis
      using Suc.prems pop_Nil by auto
  next
    case (Cons v vs)
    then obtain q1 where pop: "pop q = ret (Some v, q1)" and q1: "invar q1" "elems q1 = vs"
      using pop_Cons [OF Suc.prems(1)] by auto
    then show ?thesis
      using Suc.IH [OF q1(1)] Suc.prems(2) Cons by auto
  qed
qed auto

end

section \<open>\<open>SPSCQueue\<close> is a bounded queue\<close>

definition spsc_elems :: "u64 \<Rightarrow> 'a spsc_queue \<Rightarrow> 'a list" where
  "spsc_elems cap q = map (\<lambda>i. sq_buffer q ! ring_slot cap (sq_read_idx q + of_nat i))
     [0..<unat (sq_write_idx q - sq_read_idx q)]"

definition spsc_inv :: "u64 \<Rightarrow> 'a spsc_queue \<Rightarrow> bool" where
  "spsc_inv cap q \<longleftrightarrow> ring_cap cap \<and> length (sq_buffer q) = unat cap \<and> sq_write_idx q - sq_read_idx q \<le> cap"

lemma spsc_elems_length [simp]: "length (spsc_elems cap q) = unat (sq_write_idx q - sq_read_idx q)"
  by (simp add: spsc_elems_def)

lemma word_of_unat_diff: "r + of_nat (unat (w - r)) = (w :: u64)"
  by simp

lemma spsc_new_inv: "ring_cap cap \<Longrightarrow> spsc_inv cap (spsc_new cap d) \<and> spsc_elems cap (spsc_new cap d) = []"
  by (simp add: spsc_inv_def spsc_new_def spsc_elems_def)

lemma unat_Suc_less: "unat d < unat cap \<Longrightarrow> unat (d + 1) = Suc (unat (d :: u64))" for cap :: u64
  using unsigned_less [of cap, where ?'a = nat] by (simp add: unat_word_ariths)

lemma spsc_push_room:
  assumes inv: "spsc_inv cap q" and room: "length (spsc_elems cap q) < unat cap"
  shows "\<exists>q'. spsc_emplace cap v q = (True, q') \<and> spsc_inv cap q' \<and> spsc_elems cap q' = spsc_elems cap q @ [v]"
proof -
  let ?w = "sq_write_idx q" and ?r = "sq_read_idx q"
  let ?q = "q\<lparr>sq_buffer := (sq_buffer q)[ring_slot cap ?w := v], sq_write_idx := ?w + 1\<rparr>"
  have cap: "ring_cap cap" and len: "length (sq_buffer q) = unat cap"
    using inv by (simp_all add: spsc_inv_def)
  have n: "unat (?w - ?r) < unat cap" and lt: "\<not> cap \<le> ?w - ?r"
    using room by (simp_all add: word_le_nat_alt)
  have diff: "?w + 1 - ?r = (?w - ?r) + 1"
    by simp
  have Suc: "unat (?w + 1 - ?r) = Suc (unat (?w - ?r))"
    unfolding diff by (rule unat_Suc_less [OF n])
  have slot: "ring_slot cap ?w = ring_slot cap (?r + of_nat i) \<longleftrightarrow> i = unat (?w - ?r)" if "i < unat cap" for i
    using ring_slot_inj [OF cap n that, of ?r] by auto
  have "spsc_elems cap ?q = spsc_elems cap q @ [v]"
    using slot n len ring_slot_less [OF cap, of ?w] by (simp add: spsc_elems_def Suc nth_list_update)
  moreover have "spsc_inv cap ?q"
    using cap len n by (simp add: spsc_inv_def word_le_nat_alt Suc)
  moreover have "spsc_emplace cap v q = (True, ?q)"
    using lt by (simp add: spsc_emplace_def Let_def)
  ultimately show ?thesis
    by blast
qed

lemma spsc_push_full:
  "length (spsc_elems cap q) = unat cap \<Longrightarrow> spsc_emplace cap v q = (False, q)"
  by (simp add: spsc_emplace_def Let_def word_le_nat_alt)

lemma map_upt_shift: "map f [0..<Suc n] = f 0 # map (\<lambda>i. f (Suc i)) [0..<n]"
  by (simp add: upt_conv_Cons map_Suc_upt [symmetric] comp_def del: upt_Suc)

lemma spsc_pop_Cons:
  assumes inv: "spsc_inv cap q" and elems: "spsc_elems cap q = v # vs"
  shows "\<exists>q'. spsc_pop cap q = (Some v, q') \<and> spsc_inv cap q' \<and> spsc_elems cap q' = vs"
proof -
  let ?w = "sq_write_idx q" and ?r = "sq_read_idx q"
  let ?q = "q\<lparr>sq_read_idx := ?r + 1\<rparr>"
  obtain n where n: "unat (?w - ?r) = Suc n"
    using arg_cong [OF elems, of length] by auto
  then have ne: "?r \<noteq> ?w"
    by auto
  have "unat (?w - (?r + 1)) = n"
    using n unat_minus_one [of "?w - ?r"] ne by (simp add: algebra_simps)
  then have q: "spsc_elems cap ?q = vs" and v: "sq_buffer q ! ring_slot cap ?r = v"
    using elems by (auto simp: spsc_elems_def n map_upt_shift algebra_simps simp del: upt_Suc)
  moreover have "spsc_inv cap ?q"
    using inv n \<open>unat (?w - (?r + 1)) = n\<close> by (simp add: spsc_inv_def word_le_nat_alt)
  ultimately show ?thesis
    using ne by (simp add: spsc_pop_def Let_def)
qed

lemma spsc_pop_Nil: "spsc_elems cap q = [] \<Longrightarrow> spsc_pop cap q = (None, q)"
  using spsc_elems_length [of cap q] by (simp add: spsc_pop_def Let_def unat_eq_0)

interpretation spsc: bounded_queue "\<lambda>v q. ret (spsc_push cap v q)" "\<lambda>q. ret (spsc_pop cap q)"
  "spsc_elems cap" "spsc_inv cap" "unat cap" for cap
proof unfold_locales
  fix q :: "'a spsc_queue" and v vs
  assume inv: "spsc_inv cap q"
  show "length (spsc_elems cap q) \<le> unat cap"
    using inv by (simp add: spsc_inv_def word_le_nat_alt)
  show "length (spsc_elems cap q) = unat cap \<Longrightarrow> ret (spsc_push cap v q) = ret (False, q)"
    by (simp add: spsc_push_def spsc_push_full)
  show "length (spsc_elems cap q) < unat cap \<Longrightarrow>
      \<exists>q'. ret (spsc_push cap v q) = ret (True, q') \<and> spsc_inv cap q' \<and> spsc_elems cap q' = spsc_elems cap q @ [v]"
    using spsc_push_room [OF inv] by (simp add: spsc_push_def)
  show "spsc_elems cap q = v # vs \<Longrightarrow>
      \<exists>q'. ret (spsc_pop cap q) = ret (Some v, q') \<and> spsc_inv cap q' \<and> spsc_elems cap q' = vs"
    using spsc_pop_Cons [OF inv] by simp
  show "spsc_elems cap q = [] \<Longrightarrow> ret (spsc_pop cap q) = ret (None, q)"
    by (simp add: spsc_pop_Nil)
qed

section \<open>\<open>MPSCQueue\<close> is a bounded queue\<close>

text \<open>Between two operations the sequence number of a free cell is the position it will take, and
  that of an occupied cell is one more than its position. The capacity is at least two: with one
  cell, "occupied at \<open>pos\<close>" and "free for \<open>pos + 1\<close>" are the same number.\<close>

definition mpsc_elems :: "u64 \<Rightarrow> 'a mpsc_queue \<Rightarrow> 'a list" where
  "mpsc_elems cap q = map (\<lambda>i. cell_data (mq_buffer q ! ring_slot cap (mq_read_idx q + of_nat i)))
     [0..<unat (mq_write_idx q - mq_read_idx q)]"

definition mpsc_inv :: "u64 \<Rightarrow> 'a mpsc_queue \<Rightarrow> bool" where
  "mpsc_inv cap q \<longleftrightarrow> ring_cap cap \<and> 2 \<le> unat cap \<and> length (mq_buffer q) = unat cap \<and>
     mq_write_idx q - mq_read_idx q \<le> cap \<and>
     (\<forall>i < unat cap. cell_sequence (mq_buffer q ! ring_slot cap (mq_read_idx q + of_nat i)) =
        mq_read_idx q + of_nat i + (if i < unat (mq_write_idx q - mq_read_idx q) then 1 else 0))"

lemma mpsc_elems_length [simp]: "length (mpsc_elems cap q) = unat (mq_write_idx q - mq_read_idx q)"
  by (simp add: mpsc_elems_def)

lemma mpsc_seq:
  "mpsc_inv cap q \<Longrightarrow> i < unat cap \<Longrightarrow>
     cell_sequence (mq_buffer q ! ring_slot cap (mq_read_idx q + of_nat i)) =
       mq_read_idx q + of_nat i + (if i < unat (mq_write_idx q - mq_read_idx q) then 1 else 0)"
  by (simp add: mpsc_inv_def)

lemma mpsc_seq_read:
  "mpsc_inv cap q \<Longrightarrow> cell_sequence (mq_buffer q ! ring_slot cap (mq_read_idx q)) =
     mq_read_idx q + (if mq_write_idx q = mq_read_idx q then 0 else 1)"
  using mpsc_seq [of cap q 0] by (auto simp: mpsc_inv_def unat_eq_0)

lemma mpsc_new_inv:
  assumes "ring_cap cap" and "2 \<le> unat cap"
  shows "mpsc_inv cap (mpsc_new cap d) \<and> mpsc_elems cap (mpsc_new cap d) = []"
  using assms ring_slot_add [OF assms(1), of 0] by (simp add: mpsc_inv_def mpsc_elems_def mpsc_new_def)

lemma ring_slot_wrap: "ring_cap cap \<Longrightarrow> ring_slot cap (idx + cap) = ring_slot cap idx"
  using ring_slot_add [of cap idx "unat cap"] by (simp add: ring_slot_eq)

lemma sint_one_minus_cap:
  assumes "ring_cap cap" and "2 \<le> unat cap"
  shows "sint (1 - cap) < 0"
proof -
  have "1 - cap = of_int (1 - int (unat cap))"
    by simp
  moreover have "sint (of_int (1 - int n) :: u64) = 1 - int n" if "n < 2 ^ 63" for n
    using that by (simp only: sint_sbintrunc') (rule signed_take_bit_int_eq_self; simp)
  from this [OF ring_cap_bound [OF assms(1)]]
  have "sint (of_int (1 - int (unat cap)) :: u64) = 1 - int (unat cap)" .
  ultimately have "sint (1 - cap) = 1 - int (unat cap)"
    by (simp only:)
  then show ?thesis
    using assms(2) by linarith
qed

lemma mpsc_push_room:
  assumes inv: "mpsc_inv cap q" and room: "length (mpsc_elems cap q) < unat cap"
  shows "\<exists>q'. mpsc_emplace cap v q = ret (True, q') \<and> mpsc_inv cap q' \<and> mpsc_elems cap q' = mpsc_elems cap q @ [v]"
proof -
  let ?w = "mq_write_idx q" and ?r = "mq_read_idx q"
  let ?q = "q\<lparr>mq_write_idx := ?w + 1, mq_buffer := (mq_buffer q)[ring_slot cap ?w := \<lparr>cell_sequence = ?w + 1, cell_data = v\<rparr>]\<rparr>"
  have cap: "ring_cap cap" "2 \<le> unat cap" and len: "length (mq_buffer q) = unat cap"
    using inv by (auto simp: mpsc_inv_def)
  note seq = mpsc_seq [OF inv]
  have n: "unat (?w - ?r) < unat cap"
    using room by simp
  have diff: "?w + 1 - ?r = (?w - ?r) + 1"
    by simp
  have Suc: "unat (?w + 1 - ?r) = Suc (unat (?w - ?r))"
    unfolding diff by (rule unat_Suc_less [OF n])
  have slot: "ring_slot cap ?w = ring_slot cap (?r + of_nat i) \<longleftrightarrow> i = unat (?w - ?r)" if "i < unat cap" for i
    using ring_slot_inj [OF cap(1) n that, of ?r] by auto
  have "mpsc_claim cap ?w q = ret (Some ?w, q\<lparr>mq_write_idx := ?w + 1\<rparr>)"
    using seq [OF n] by (subst mpsc_claim.simps) (simp add: Let_def)
  then have "mpsc_emplace cap v q = ret (True, ?q)"
    by (simp add: mpsc_emplace_def)
  moreover have "mpsc_elems cap ?q = mpsc_elems cap q @ [v]"
    using slot n len ring_slot_less [OF cap(1), of ?w] by (simp add: mpsc_elems_def Suc nth_list_update)
  moreover have "mpsc_inv cap ?q"
    using cap len n seq slot ring_slot_less [OF cap(1), of ?w]
    by (auto simp: mpsc_inv_def word_le_nat_alt Suc nth_list_update less_Suc_eq)
  ultimately show ?thesis
    by blast
qed

lemma mpsc_push_full:
  assumes inv: "mpsc_inv cap q" and full: "length (mpsc_elems cap q) = unat cap"
  shows "mpsc_emplace cap v q = ret (False, q)"
proof -
  let ?w = "mq_write_idx q" and ?r = "mq_read_idx q"
  have cap: "ring_cap cap" "2 \<le> unat cap"
    using inv by (auto simp: mpsc_inv_def)
  have "?w - ?r = cap"
    using full by (simp add: word_unat_eq_iff)
  then have w: "?w = ?r + cap"
    by (simp add: algebra_simps)
  have diff: "cell_sequence (mq_buffer q ! ring_slot cap ?w) - ?w = 1 - cap"
    using mpsc_seq_read [OF inv] ring_cap_pos [OF cap(1)] cap by (auto simp: w ring_slot_wrap)
  have neg: "sint (1 - cap) < 0"
    by (rule sint_one_minus_cap [OF cap])
  then have "1 - cap \<noteq> 0"
    by auto
  with diff neg have "mpsc_claim cap ?w q = ret (None, q)"
    by (subst mpsc_claim.simps) (simp only: Let_def if_False if_True)
  then show ?thesis
    by (simp add: mpsc_emplace_def)
qed

lemma mpsc_pop_Cons:
  assumes inv: "mpsc_inv cap q" and elems: "mpsc_elems cap q = v # vs"
  shows "\<exists>q'. mpsc_pop cap q = ret (Some v, q') \<and> mpsc_inv cap q' \<and> mpsc_elems cap q' = vs"
proof -
  let ?w = "mq_write_idx q" and ?r = "mq_read_idx q"
  let ?c = "mq_buffer q ! ring_slot cap ?r"
  let ?q = "q\<lparr>mq_read_idx := ?r + 1, mq_buffer := (mq_buffer q)[ring_slot cap ?r := ?c\<lparr>cell_sequence := ?r + cap\<rparr>]\<rparr>"
  have cap: "ring_cap cap" "2 \<le> unat cap" and len: "length (mq_buffer q) = unat cap"
    using inv by (auto simp: mpsc_inv_def)
  note seq = mpsc_seq [OF inv]
  obtain n where n: "unat (?w - ?r) = Suc n"
    using arg_cong [OF elems, of length] by auto
  moreover have "unat (?w - ?r) \<le> unat cap"
    using inv by (simp add: mpsc_inv_def word_le_nat_alt)
  ultimately have less: "Suc n \<le> unat cap"
    by simp
  from n have ne: "?w \<noteq> ?r"
    by auto
  have n': "unat (?w - (?r + 1)) = n"
    using n unat_minus_one [of "?w - ?r"] ne by (simp add: algebra_simps)
  have "mpsc_take cap ?r q = ret (Some ?r, q\<lparr>mq_read_idx := ?r + 1\<rparr>)"
    using mpsc_seq_read [OF inv] ne by (subst mpsc_take.simps) (simp add: Let_def)
  then have run: "mpsc_pop cap q = ret (Some (cell_data ?c), ?q)"
    by (simp add: mpsc_pop_def Let_def)
  have data: "cell_data ((mq_buffer q)[ring_slot cap ?r := ?c\<lparr>cell_sequence := ?r + cap\<rparr>] ! j) = cell_data (mq_buffer q ! j)" for j
    using ring_slot_less [OF cap(1), of ?r] len by (cases "ring_slot cap ?r = j") auto
  have "mpsc_elems cap q = cell_data ?c # map (\<lambda>i. cell_data (mq_buffer q ! ring_slot cap (?r + 1 + of_nat i))) [0..<n]"
    by (simp add: mpsc_elems_def n map_upt_shift algebra_simps del: upt_Suc)
  then have vs: "mpsc_elems cap ?q = vs" and v: "cell_data ?c = v"
    using elems by (simp_all add: mpsc_elems_def n' data)
  have slot: "ring_slot cap ?r = ring_slot cap (?r + 1 + of_nat i) \<longleftrightarrow> Suc i = unat cap" if i: "i < unat cap" for i
  proof -
    have eq: "?r + 1 + of_nat i = ?r + of_nat (Suc i)"
      by simp
    show ?thesis
    proof (cases "Suc i = unat cap")
      case True
      then have "?r + of_nat (Suc i) = ?r + cap"
        by (simp only: of_nat_unat ucast_id)
      then show ?thesis
        using True ring_slot_wrap [OF cap(1), of ?r] unfolding eq by simp
    next
      case False
      then show ?thesis
        using i ring_slot_inj [OF cap(1), of 0 "Suc i" ?r] unfolding eq by simp
    qed
  qed
  have "cell_sequence (mq_buffer ?q ! ring_slot cap (?r + 1 + of_nat i)) = ?r + 1 + of_nat i + (if i < n then 1 else 0)"
    if i: "i < unat cap" for i
  proof (cases "Suc i = unat cap")
    case True
    then have "of_nat (Suc i) = cap"
      by (simp only: of_nat_unat ucast_id)
    then have "?r + cap = ?r + 1 + of_nat i"
      by auto
    with True i less show ?thesis
      using slot [OF i] len ring_slot_less [OF cap(1), of ?r] by simp
  next
    case False
    with i seq [of "Suc i"] show ?thesis
      using slot [OF i] by (simp add: n algebra_simps)
  qed
  then have "mpsc_inv cap ?q"
    using cap len less by (simp add: mpsc_inv_def n' word_le_nat_alt)
  with run vs v show ?thesis
    by blast
qed

lemma mpsc_pop_Nil:
  assumes inv: "mpsc_inv cap q" and "mpsc_elems cap q = []"
  shows "mpsc_pop cap q = ret (None, q)"
proof -
  let ?w = "mq_write_idx q" and ?r = "mq_read_idx q"
  have "?w = ?r"
    using arg_cong [OF assms(2), of length] by (simp add: unat_eq_0)
  then have "mpsc_take cap ?r q = ret (None, q)"
    using mpsc_seq_read [OF inv] by (subst mpsc_take.simps) (simp add: Let_def)
  then show ?thesis
    by (simp add: mpsc_pop_def)
qed

interpretation mpsc: bounded_queue "mpsc_push cap" "mpsc_pop cap" "mpsc_elems cap" "mpsc_inv cap" "unat cap" for cap
proof unfold_locales
  fix q :: "'a mpsc_queue" and v vs
  assume inv: "mpsc_inv cap q"
  show "length (mpsc_elems cap q) \<le> unat cap"
    using inv by (simp add: mpsc_inv_def word_le_nat_alt)
  show "length (mpsc_elems cap q) = unat cap \<Longrightarrow> mpsc_push cap v q = ret (False, q)"
    unfolding mpsc_push_def by (rule mpsc_push_full [OF inv])
  show "length (mpsc_elems cap q) < unat cap \<Longrightarrow>
      \<exists>q'. mpsc_push cap v q = ret (True, q') \<and> mpsc_inv cap q' \<and> mpsc_elems cap q' = mpsc_elems cap q @ [v]"
    unfolding mpsc_push_def by (rule mpsc_push_room [OF inv])
  show "mpsc_elems cap q = v # vs \<Longrightarrow>
      \<exists>q'. mpsc_pop cap q = ret (Some v, q') \<and> mpsc_inv cap q' \<and> mpsc_elems cap q' = vs"
    by (rule mpsc_pop_Cons [OF inv])
  show "mpsc_elems cap q = [] \<Longrightarrow> mpsc_pop cap q = ret (None, q)"
    by (rule mpsc_pop_Nil [OF inv])
qed

section \<open>Properties\<close>

text \<open>\<open>SPSCQueue\<close> is a first-in first-out queue of bounded size, for every position of its
  indices, wrap-around included: \<open>push\<close> appends and reports success exactly when there is room,
  \<open>pop\<close> takes the oldest element or reports that there is none.\<close>

theorem spsc_refines_fifo:
  assumes "spsc_inv cap q"
  shows "(\<exists>q'. spsc_push cap v q = (length (spsc_elems cap q) < unat cap, q') \<and> spsc_inv cap q' \<and>
      spsc_elems cap q' = (if length (spsc_elems cap q) < unat cap then spsc_elems cap q @ [v] else spsc_elems cap q)) \<and>
    (\<exists>q'. spsc_pop cap q = (case spsc_elems cap q of [] \<Rightarrow> None | x # _ \<Rightarrow> Some x, q') \<and> spsc_inv cap q' \<and>
      spsc_elems cap q' = tl (spsc_elems cap q))"
  using spsc.push_refines [OF assms, of v] spsc.pop_refines [OF assms] by simp

definition wrapped_queue :: "nat spsc_queue" where
  "wrapped_queue = \<lparr>sq_buffer = [10, 11, 12, 13], sq_write_idx = 1, sq_read_idx = 18446744073709551615\<rparr>"

lemma wrapped_queue_facts:
  "spsc_inv 4 wrapped_queue" "spsc_elems 4 wrapped_queue = [13, 10]"
proof -
  have "ring_cap 4"
    by (auto simp: ring_cap_def intro!: exI [of _ 2])
  then show "spsc_inv 4 wrapped_queue"
    by (simp add: spsc_inv_def wrapped_queue_def)
  have "[0..<2] = [0, 1]"
    by (simp add: upt_rec)
  then show "spsc_elems 4 wrapped_queue = [13, 10]"
    by (simp add: spsc_elems_def wrapped_queue_def ring_slot_def)
qed

theorem spsc_refines_fifo_witness:
  "\<exists>q q'. spsc_push 4 7 wrapped_queue = (True, q) \<and> spsc_elems 4 q = [13, 10, 7] \<and>
     spsc_pop 4 wrapped_queue = (Some 13, q') \<and> spsc_elems 4 q' = [10]"
  using spsc_refines_fifo [OF wrapped_queue_facts(1), of 7] wrapped_queue_facts(2) by auto

text \<open>C18. \<open>size()\<close> and \<open>empty()\<close> are wrong once the write index has wrapped around and the read
  index has not: a queue that is not empty, and from which \<open>pop\<close> takes an element, reports
  size zero.\<close>

theorem spsc_size_after_wrap:
  assumes "spsc_inv cap q" and "sq_write_idx q < sq_read_idx q"
  shows "spsc_size q = 0 \<and> spsc_empty q \<and> spsc_elems cap q \<noteq> [] \<and> fst (spsc_pop cap q) \<noteq> None"
proof -
  have "length (spsc_elems cap q) \<noteq> 0"
    using assms(2) by (auto simp: unat_eq_0)
  then have "spsc_elems cap q \<noteq> []"
    unfolding length_0_conv .
  moreover from this have "fst (spsc_pop cap q) \<noteq> None"
    using spsc.pop_refines [OF assms(1)] by (auto split: list.splits)
  ultimately show ?thesis
    using assms(2) by (auto simp: spsc_size_def spsc_empty_def index_size_def Let_def not_le [symmetric])
qed

theorem spsc_size_after_wrap_witness:
  "spsc_size wrapped_queue = 0 \<and> spsc_empty wrapped_queue \<and> fst (spsc_pop 4 wrapped_queue) \<noteq> None"
  using spsc_size_after_wrap [OF wrapped_queue_facts(1)] by (simp add: wrapped_queue_def)

text \<open>C17. \<open>MPSCQueue\<close>, used by one thread at a time, is a bounded first-in first-out queue for
  every capacity of at least two; its loops end.\<close>

theorem mpsc_refines_fifo:
  assumes "mpsc_inv cap q"
  shows "(\<exists>q'. mpsc_push cap v q = ret (length (mpsc_elems cap q) < unat cap, q') \<and> mpsc_inv cap q' \<and>
      mpsc_elems cap q' = (if length (mpsc_elems cap q) < unat cap then mpsc_elems cap q @ [v] else mpsc_elems cap q)) \<and>
    (\<exists>q'. mpsc_pop cap q = ret (case mpsc_elems cap q of [] \<Rightarrow> None | x # _ \<Rightarrow> Some x, q') \<and> mpsc_inv cap q' \<and>
      mpsc_elems cap q' = tl (mpsc_elems cap q))"
  using mpsc.push_refines [OF assms, of v] mpsc.pop_refines [OF assms] by simp

theorem mpsc_refines_fifo_witness:
  "\<exists>q. mpsc_push 4 (7 :: nat) (mpsc_new 4 0) = ret (True, q) \<and> mpsc_elems 4 q = [7]"
proof -
  have "ring_cap 4"
    by (auto simp: ring_cap_def intro!: exI [of _ 2])
  then have "mpsc_inv 4 (mpsc_new 4 (0 :: nat))" "mpsc_elems 4 (mpsc_new 4 (0 :: nat)) = []"
    using mpsc_new_inv [of 4 "0 :: nat"] by auto
  then show ?thesis
    using mpsc_refines_fifo [of 4 "mpsc_new 4 (0 :: nat)" 7] by auto
qed

text \<open>With one cell, \<open>pop\<close> waits forever for a sequence number that was skipped.\<close>

lemma mpsc_take_stuck:
  assumes "mpsc_take cap pos q = Some y"
  shows "\<not> (pos = mq_read_idx q \<and> cell_sequence (mq_buffer q ! ring_slot cap pos) = pos + 2)"
proof (rule mpsc_take.raw_induct [OF _ assms])
  fix take cap pos q y
  assume IH: "\<And>cap pos (q :: 'a mpsc_queue) y. take cap pos q = Some y \<Longrightarrow>
      \<not> (pos = mq_read_idx q \<and> cell_sequence (mq_buffer q ! ring_slot cap pos) = pos + 2)"
    and run: "(let seq = cell_sequence (mq_buffer q ! ring_slot cap pos); diff = seq - (pos + 1)
      in if diff = 0 then if mq_read_idx q = pos then ret (Some pos, q\<lparr>mq_read_idx := pos + 1\<rparr>) else take cap (mq_read_idx q) q
         else if sint diff < 0 then ret (None, q) else take cap (mq_read_idx q) q) = Some y"
  show "\<not> (pos = mq_read_idx q \<and> cell_sequence (mq_buffer q ! ring_slot cap pos) = pos + 2)"
  proof
    assume *: "pos = mq_read_idx q \<and> cell_sequence (mq_buffer q ! ring_slot cap pos) = pos + 2"
    then have pos: "mq_read_idx q = pos" and seq: "cell_sequence (mq_buffer q ! ring_slot cap pos) = pos + 2"
      by blast+
    have "take cap pos q = Some y"
      using run unfolding pos seq Let_def by simp
    from IH [OF this] * show False
      by blast
  qed
qed

text \<open>C19. The static assertion of \<open>MPSCQueue\<close> admits the capacity one, for which the queue is
  broken: a second \<open>push\<close> into the full queue succeeds and overwrites the element, and the next
  \<open>pop\<close> never returns.\<close>

theorem mpsc_capacity_one:
  "\<exists>q1 q2. mpsc_push 1 a (mpsc_new 1 d) = ret (True, q1) \<and> mpsc_push 1 b q1 = ret (True, q2) \<and> mpsc_pop 1 q2 = None"
proof -
  let ?q1 = "\<lparr>mq_buffer = [\<lparr>cell_sequence = 1, cell_data = a\<rparr>], mq_write_idx = 1, mq_read_idx = 0\<rparr>"
  let ?q2 = "\<lparr>mq_buffer = [\<lparr>cell_sequence = 2, cell_data = b\<rparr>], mq_write_idx = 2, mq_read_idx = 0\<rparr>"
  have slot: "ring_slot 1 i = 0" for i
    by (simp add: ring_slot_def)
  have "mpsc_push 1 a (mpsc_new 1 d) = ret (True, ?q1)"
    by (simp add: mpsc_push_def mpsc_emplace_def mpsc_new_def mpsc_claim.simps slot Let_def)
  moreover have "mpsc_push 1 b ?q1 = ret (True, ?q2)"
    by (simp add: mpsc_push_def mpsc_emplace_def mpsc_claim.simps slot Let_def)
  moreover have "mpsc_take 1 0 ?q2 = None"
    using mpsc_take_stuck [of 1 0 ?q2] by (cases "mpsc_take 1 0 ?q2") (auto simp: slot)
  then have "mpsc_pop 1 ?q2 = None"
    by (simp add: mpsc_pop_def bind_run_def)
  ultimately show ?thesis
    by blast
qed

end
