(* ===== verification/Queue_Concurrency.thy ===== *)
theory Queue_Concurrency
  imports Ring_Buffer "HOL-Library.Sublist"
begin

text \<open>
  The queues of \<open>common/include/common/ring_buffer.hpp\<close> under concurrency: every atomic load,
  store and compare-and-exchange of the source is one step, and the steps of the threads
  interleave arbitrarily (the acquire and release orders of the source make each published slot
  visible with its index, so that interleaving is the right granularity). The histories of
  pushed and popped values are recorded in the state and read by no step.
\<close>

section \<open>\<open>SPSCQueue\<close>: one producer, one consumer\<close>

text \<open>The local variables of the two threads between their steps.\<close>

datatype 'a producer =
    P_Idle
  | P_LoadedWrite 'a u64          \<comment> \<open>\<open>curr_write\<close> is loaded\<close>
  | P_LoadedRead 'a u64 u64       \<comment> \<open>\<open>curr_write\<close> and \<open>curr_read\<close> are loaded\<close>
  | P_Stored 'a u64               \<comment> \<open>the slot is written, the index not yet\<close>

datatype 'a consumer =
    C_Idle
  | C_LoadedRead u64
  | C_LoadedWrite u64 u64
  | C_Taken 'a u64

record 'a spsc_sys =
  sys_queue :: "'a spsc_queue"
  sys_producer :: "'a producer"
  sys_consumer :: "'a consumer"
  sys_pushed :: "'a list"
  sys_popped :: "'a list"

definition spsc_init :: "u64 \<Rightarrow> 'a \<Rightarrow> 'a spsc_sys" where
  "spsc_init cap d = \<lparr>sys_queue = spsc_new cap d, sys_producer = P_Idle, sys_consumer = C_Idle,
     sys_pushed = [], sys_popped = []\<rparr>"

inductive spsc_step :: "u64 \<Rightarrow> 'a spsc_sys \<Rightarrow> 'a spsc_sys \<Rightarrow> bool" for cap where
  p_load_write: "sys_producer s = P_Idle \<Longrightarrow>
    spsc_step cap s (s\<lparr>sys_producer := P_LoadedWrite v (sq_write_idx (sys_queue s))\<rparr>)"
| p_load_read: "sys_producer s = P_LoadedWrite v w \<Longrightarrow>
    spsc_step cap s (s\<lparr>sys_producer := P_LoadedRead v w (sq_read_idx (sys_queue s))\<rparr>)"
| p_full: "sys_producer s = P_LoadedRead v w r \<Longrightarrow> w - r \<ge> cap \<Longrightarrow>
    spsc_step cap s (s\<lparr>sys_producer := P_Idle\<rparr>)"
| p_store: "sys_producer s = P_LoadedRead v w r \<Longrightarrow> \<not> w - r \<ge> cap \<Longrightarrow>
    spsc_step cap s (s\<lparr>sys_producer := P_Stored v w,
      sys_queue := (sys_queue s)\<lparr>sq_buffer := (sq_buffer (sys_queue s))[ring_slot cap w := v]\<rparr>\<rparr>)"
| p_publish: "sys_producer s = P_Stored v w \<Longrightarrow>
    spsc_step cap s (s\<lparr>sys_producer := P_Idle,
      sys_queue := (sys_queue s)\<lparr>sq_write_idx := w + 1\<rparr>, sys_pushed := sys_pushed s @ [v]\<rparr>)"
| c_load_read: "sys_consumer s = C_Idle \<Longrightarrow>
    spsc_step cap s (s\<lparr>sys_consumer := C_LoadedRead (sq_read_idx (sys_queue s))\<rparr>)"
| c_load_write: "sys_consumer s = C_LoadedRead r \<Longrightarrow>
    spsc_step cap s (s\<lparr>sys_consumer := C_LoadedWrite r (sq_write_idx (sys_queue s))\<rparr>)"
| c_empty: "sys_consumer s = C_LoadedWrite r w \<Longrightarrow> r = w \<Longrightarrow>
    spsc_step cap s (s\<lparr>sys_consumer := C_Idle\<rparr>)"
| c_take: "sys_consumer s = C_LoadedWrite r w \<Longrightarrow> r \<noteq> w \<Longrightarrow>
    spsc_step cap s (s\<lparr>sys_consumer := C_Taken (sq_buffer (sys_queue s) ! ring_slot cap r) r\<rparr>)"
| c_release: "sys_consumer s = C_Taken v r \<Longrightarrow>
    spsc_step cap s (s\<lparr>sys_consumer := C_Idle,
      sys_queue := (sys_queue s)\<lparr>sq_read_idx := r + 1\<rparr>, sys_popped := sys_popped s @ [v]\<rparr>)"

inductive spsc_reach :: "u64 \<Rightarrow> 'a \<Rightarrow> 'a spsc_sys \<Rightarrow> bool" for cap d where
  reach_init: "spsc_reach cap d (spsc_init cap d)"
| reach_step: "spsc_reach cap d s \<Longrightarrow> spsc_step cap s s' \<Longrightarrow> spsc_reach cap d s'"

text \<open>The invariant, in terms of the numbers \<open>W\<close> and \<open>R\<close> of pushes and pops so far: the indices
  are these numbers modulo \<open>2^64\<close>, the slots between them hold the values pushed there, and what
  a thread has loaded is possibly old but on the safe side.\<close>

definition slot_of :: "u64 \<Rightarrow> nat \<Rightarrow> nat" where
  "slot_of cap n = n mod unat cap"

fun producer_ok :: "u64 \<Rightarrow> 'a list \<Rightarrow> nat \<Rightarrow> nat \<Rightarrow> 'a producer \<Rightarrow> bool" where
  "producer_ok cap buf W R P_Idle \<longleftrightarrow> True"
| "producer_ok cap buf W R (P_LoadedWrite v w) \<longleftrightarrow> w = of_nat W"
| "producer_ok cap buf W R (P_LoadedRead v w r) \<longleftrightarrow>
     w = of_nat W \<and> (\<exists>R' \<le> R. r = of_nat R' \<and> R' \<le> W \<and> W \<le> R' + unat cap)"
| "producer_ok cap buf W R (P_Stored v w) \<longleftrightarrow>
     w = of_nat W \<and> W < R + unat cap \<and> buf ! slot_of cap W = v"

fun consumer_ok :: "'a list \<Rightarrow> nat \<Rightarrow> nat \<Rightarrow> 'a consumer \<Rightarrow> bool" where
  "consumer_ok pushed W R C_Idle \<longleftrightarrow> True"
| "consumer_ok pushed W R (C_LoadedRead r) \<longleftrightarrow> r = of_nat R"
| "consumer_ok pushed W R (C_LoadedWrite r w) \<longleftrightarrow>
     r = of_nat R \<and> (\<exists>W' \<le> W. w = of_nat W' \<and> R \<le> W')"
| "consumer_ok pushed W R (C_Taken v r) \<longleftrightarrow> r = of_nat R \<and> R < W \<and> v = pushed ! R"

definition spsc_sys_inv :: "u64 \<Rightarrow> 'a spsc_sys \<Rightarrow> bool" where
  "spsc_sys_inv cap s \<longleftrightarrow>
     (let q = sys_queue s; W = length (sys_pushed s); R = length (sys_popped s)
      in ring_cap cap \<and> length (sq_buffer q) = unat cap \<and>
         sq_write_idx q = of_nat W \<and> sq_read_idx q = of_nat R \<and> R \<le> W \<and> W \<le> R + unat cap \<and>
         sys_popped s = take R (sys_pushed s) \<and>
         (\<forall>i. R \<le> i \<longrightarrow> i < W \<longrightarrow> sq_buffer q ! slot_of cap i = sys_pushed s ! i) \<and>
         producer_ok cap (sq_buffer q) W R (sys_producer s) \<and>
         consumer_ok (sys_pushed s) W R (sys_consumer s))"

lemma ring_slot_of_nat: "ring_cap cap \<Longrightarrow> ring_slot cap (of_nat n) = slot_of cap n"
  using ring_slot_add [of cap 0 n] by (simp add: slot_of_def)

lemma slot_of_less: "ring_cap cap \<Longrightarrow> slot_of cap n < unat cap"
  by (simp add: slot_of_def ring_cap_pos)

lemma slot_of_eq: "m \<le> n \<Longrightarrow> n < m + unat cap \<Longrightarrow> slot_of cap m = slot_of cap n \<longleftrightarrow> m = n"
  using mod_eq_near [of m n "unat cap"] by (auto simp: slot_of_def)

text \<open>Differences of indices that are at most a capacity apart are exact.\<close>

lemma unat_of_nat_diff:
  fixes cap :: u64
  assumes "R \<le> W" and "W \<le> R + unat cap"
  shows "unat (of_nat W - of_nat R :: u64) = W - R"
proof -
  have "of_nat W - of_nat R = (of_nat (W - R) :: u64)"
    using assms(1) by (simp add: of_nat_diff)
  moreover have "W - R < 2 ^ 64"
    using assms(2) unsigned_less [of cap, where ?'a = nat] by simp
  ultimately show ?thesis
    by (simp add: unat_of_nat)
qed

lemma of_nat_eq_near: "R \<le> W \<Longrightarrow> W \<le> R + unat cap \<Longrightarrow> of_nat R = (of_nat W :: u64) \<longleftrightarrow> R = W" for cap :: u64
  using unat_of_nat_diff [of R W cap] by auto

lemma spsc_init_inv: "ring_cap cap \<Longrightarrow> spsc_sys_inv cap (spsc_init cap d)"
  by (simp add: spsc_sys_inv_def spsc_init_def spsc_new_def)

text \<open>Only the steps that write shared memory need an argument of their own.\<close>

lemma spsc_store_inv:
  assumes inv: "spsc_sys_inv cap s" and p: "sys_producer s = P_LoadedRead v w r" and room: "\<not> cap \<le> w - r"
  shows "spsc_sys_inv cap (s\<lparr>sys_producer := P_Stored v w,
      sys_queue := (sys_queue s)\<lparr>sq_buffer := (sq_buffer (sys_queue s))[ring_slot cap w := v]\<rparr>\<rparr>)"
proof -
  let ?W = "length (sys_pushed s)" and ?R = "length (sys_popped s)"
  have cap: "ring_cap cap" and len: "length (sq_buffer (sys_queue s)) = unat cap" and le: "?R \<le> ?W"
    and w: "w = of_nat ?W"
    using inv p by (simp_all add: spsc_sys_inv_def Let_def)
  obtain R' where R': "R' \<le> ?R" "r = of_nat R'" "R' \<le> ?W" "?W \<le> R' + unat cap"
    using inv p by (auto simp: spsc_sys_inv_def Let_def)
  have "?W - R' < unat cap"
    using room unat_of_nat_diff [OF R'(3,4)] by (simp add: w R'(2) word_le_nat_alt)
  then have W: "?W < ?R + unat cap"
    using R'(1) by simp
  have "slot_of cap ?W \<noteq> slot_of cap i" if "?R \<le> i" "i < ?W" for i
    using that W slot_of_eq [of i ?W cap] by auto
  then show ?thesis
    using inv W w len slot_of_less [OF cap, of ?W] by (auto simp: spsc_sys_inv_def Let_def ring_slot_of_nat [OF cap] nth_list_update)
qed

lemma spsc_publish_inv:
  assumes inv: "spsc_sys_inv cap s" and p: "sys_producer s = P_Stored v w"
  shows "spsc_sys_inv cap (s\<lparr>sys_producer := P_Idle,
      sys_queue := (sys_queue s)\<lparr>sq_write_idx := w + 1\<rparr>, sys_pushed := sys_pushed s @ [v]\<rparr>)"
proof -
  let ?W = "length (sys_pushed s)" and ?R = "length (sys_popped s)"
  have "consumer_ok (sys_pushed s @ [v]) (Suc ?W) ?R (sys_consumer s)"
    using inv by (cases "sys_consumer s") (auto simp: spsc_sys_inv_def Let_def nth_append intro: le_SucI)
  then show ?thesis
    using inv p by (auto simp: spsc_sys_inv_def Let_def nth_append less_Suc_eq)
qed

lemma spsc_take_inv:
  assumes inv: "spsc_sys_inv cap s" and c: "sys_consumer s = C_LoadedWrite r w" and ne: "r \<noteq> w"
  shows "spsc_sys_inv cap (s\<lparr>sys_consumer := C_Taken (sq_buffer (sys_queue s) ! ring_slot cap r) r\<rparr>)"
proof -
  let ?W = "length (sys_pushed s)" and ?R = "length (sys_popped s)"
  have cap: "ring_cap cap" and r: "r = of_nat ?R"
    using inv c by (simp_all add: spsc_sys_inv_def Let_def)
  obtain W' where W': "W' \<le> ?W" "w = of_nat W'" "?R \<le> W'"
    using inv c by (auto simp: spsc_sys_inv_def Let_def)
  have "?R < ?W"
    using W' ne r by (cases "?R = W'") auto
  then show ?thesis
    using inv r by (auto simp: spsc_sys_inv_def Let_def ring_slot_of_nat [OF cap])
qed

lemma spsc_release_inv:
  assumes inv: "spsc_sys_inv cap s" and c: "sys_consumer s = C_Taken v r"
  shows "spsc_sys_inv cap (s\<lparr>sys_consumer := C_Idle,
      sys_queue := (sys_queue s)\<lparr>sq_read_idx := r + 1\<rparr>, sys_popped := sys_popped s @ [v]\<rparr>)"
proof -
  let ?W = "length (sys_pushed s)" and ?R = "length (sys_popped s)"
  have r: "r = of_nat ?R" "?R < ?W" "v = sys_pushed s ! ?R" "sys_popped s = take ?R (sys_pushed s)"
    using inv c by (simp_all add: spsc_sys_inv_def Let_def)
  have "sys_popped s @ [v] = take (Suc ?R) (sys_pushed s)"
    using r by (metis take_Suc_conv_app_nth)
  moreover have "producer_ok cap (sq_buffer (sys_queue s)) ?W (Suc ?R) (sys_producer s)"
    using inv by (cases "sys_producer s") (auto simp: spsc_sys_inv_def Let_def intro: le_SucI)
  ultimately show ?thesis
    using inv r by (auto simp: spsc_sys_inv_def Let_def)
qed

lemma spsc_step_inv: "spsc_step cap s s' \<Longrightarrow> spsc_sys_inv cap s \<Longrightarrow> spsc_sys_inv cap s'"
proof (induction rule: spsc_step.induct)
  case (p_store s v w r)
  then show ?case
    by (blast intro: spsc_store_inv)
next
  case (p_publish s v w)
  then show ?case
    by (blast intro: spsc_publish_inv)
next
  case (c_take s r w)
  then show ?case
    by (blast intro: spsc_take_inv)
next
  case (c_release s v r)
  then show ?case
    by (blast intro: spsc_release_inv)
qed (auto simp: spsc_sys_inv_def Let_def)

lemma spsc_reach_inv: "spsc_reach cap d s \<Longrightarrow> ring_cap cap \<Longrightarrow> spsc_sys_inv cap s"
  by (induction rule: spsc_reach.induct) (auto intro: spsc_init_inv spsc_step_inv)

text \<open>C16. \<open>SPSCQueue\<close> under every interleaving of one producer and one consumer, for any number
  of operations (the indices may wrap around): the values popped are a prefix of the values
  pushed, in order and without loss or duplication, at most a capacity of values is in the
  queue, and the slots hold exactly the values not popped yet.\<close>

theorem spsc_concurrent_fifo:
  assumes "spsc_reach cap d s" and "ring_cap cap"
  shows "prefix (sys_popped s) (sys_pushed s) \<and> length (sys_pushed s) \<le> length (sys_popped s) + unat cap \<and>
    spsc_elems cap (sys_queue s) = drop (length (sys_popped s)) (sys_pushed s)"
proof -
  let ?W = "length (sys_pushed s)" and ?R = "length (sys_popped s)"
  have inv: "spsc_sys_inv cap s"
    using assms by (rule spsc_reach_inv)
  then have q: "sq_write_idx (sys_queue s) = of_nat ?W" "sq_read_idx (sys_queue s) = of_nat ?R" "?R \<le> ?W" "?W \<le> ?R + unat cap"
    and slots: "\<And>i. ?R \<le> i \<Longrightarrow> i < ?W \<Longrightarrow> sq_buffer (sys_queue s) ! slot_of cap i = sys_pushed s ! i"
    and take: "sys_popped s = take ?R (sys_pushed s)"
    by (simp_all add: spsc_sys_inv_def Let_def)
  have n: "unat (of_nat ?W - of_nat ?R :: u64) = ?W - ?R"
    by (rule unat_of_nat_diff [OF q(3,4)])
  have "spsc_elems cap (sys_queue s) = drop ?R (sys_pushed s)"
  proof (rule nth_equalityI)
    show "length (spsc_elems cap (sys_queue s)) = length (drop ?R (sys_pushed s))"
      by (simp add: q(1,2) n)
    fix i assume "i < length (spsc_elems cap (sys_queue s))"
    then show "spsc_elems cap (sys_queue s) ! i = drop ?R (sys_pushed s) ! i"
      using slots [of "?R + i"] q(3) ring_slot_of_nat [OF assms(2), of "?R + i"]
      by (simp add: spsc_elems_def q(1,2) n)
  qed
  then show ?thesis
    using q(4) take by (simp add: prefix_def) (metis append_take_drop_id)
qed

lemma ring_cap_4: "ring_cap 4"
  by (auto simp: ring_cap_def intro!: exI [of _ 2])

text \<open>A run: a push in four steps, then a second producer and a consumer in the middle.\<close>

lemma sample_run:
  "\<exists>s. spsc_reach 4 (0 :: nat) s \<and> sys_pushed s = [7] \<and> sys_popped s = [] \<and>
     sys_producer s = P_LoadedRead 8 1 0 \<and> sys_consumer s = C_LoadedWrite 0 1"
proof -
  let ?s0 = "spsc_init 4 (0 :: nat)"
  let ?s1 = "?s0\<lparr>sys_producer := P_LoadedWrite 7 0\<rparr>"
  let ?s2 = "?s1\<lparr>sys_producer := P_LoadedRead 7 0 0\<rparr>"
  let ?s3 = "?s2\<lparr>sys_producer := P_Stored 7 0, sys_queue := (sys_queue ?s2)\<lparr>sq_buffer := [7, 0, 0, 0]\<rparr>\<rparr>"
  let ?s4 = "?s3\<lparr>sys_producer := P_Idle, sys_queue := (sys_queue ?s3)\<lparr>sq_write_idx := 1\<rparr>, sys_pushed := [7]\<rparr>"
  let ?s5 = "?s4\<lparr>sys_producer := P_LoadedWrite 8 1\<rparr>"
  let ?s6 = "?s5\<lparr>sys_producer := P_LoadedRead 8 1 0\<rparr>"
  let ?s7 = "?s6\<lparr>sys_consumer := C_LoadedRead 0\<rparr>"
  let ?s8 = "?s7\<lparr>sys_consumer := C_LoadedWrite 0 1\<rparr>"
  note init = spsc_init_def spsc_new_def
  have four: "replicate 4 (0 :: nat) = [0, 0, 0, 0]"
    by (simp add: eval_nat_numeral)
  have "spsc_step 4 ?s0 ?s1"
    using p_load_write [of ?s0 4 7] by (simp add: init)
  moreover have "spsc_step 4 ?s1 ?s2"
    using p_load_read [of ?s1 7 0 4] by (simp add: init)
  moreover have "spsc_step 4 ?s2 ?s3"
    using p_store [of ?s2 7 0 0 4] by (simp add: init four ring_slot_def)
  moreover have "spsc_step 4 ?s3 ?s4"
    using p_publish [of ?s3 7 0 4] by (simp add: init)
  moreover have "spsc_step 4 ?s4 ?s5"
    using p_load_write [of ?s4 4 8] by (simp add: init)
  moreover have "spsc_step 4 ?s5 ?s6"
    using p_load_read [of ?s5 8 1 4] by (simp add: init)
  moreover have "spsc_step 4 ?s6 ?s7"
    using c_load_read [of ?s6 4] by (simp add: init)
  moreover have "spsc_step 4 ?s7 ?s8"
    using c_load_write [of ?s7 0 4] by (simp add: init)
  ultimately have "spsc_reach 4 0 ?s8"
    using reach_init [of 4 "0 :: nat"] by (meson reach_step)
  then show ?thesis
    by (rule exI [of _ ?s8, OF conjI]) (simp add: init)
qed

theorem spsc_concurrent_fifo_witness:
  "\<exists>s. spsc_reach 4 (0 :: nat) s \<and> sys_pushed s = [7] \<and> spsc_elems 4 (sys_queue s) = [7]"
proof -
  obtain s where s: "spsc_reach 4 (0 :: nat) s" "sys_pushed s = [7]" "sys_popped s = []"
    using sample_run by blast
  then show ?thesis
    using spsc_concurrent_fifo [OF s(1) ring_cap_4] by auto
qed

text \<open>The buffer itself, which is not atomic, is accessed without a race: when the producer is
  about to write a slot and the consumer is about to read one, the slots are different.\<close>

theorem spsc_no_data_race:
  assumes "spsc_reach cap d s" and "ring_cap cap"
    and "sys_producer s = P_LoadedRead v w r" and "\<not> w - r \<ge> cap"
    and "sys_consumer s = C_LoadedWrite r' w'" and "r' \<noteq> w'"
  shows "ring_slot cap w \<noteq> ring_slot cap r'"
proof -
  let ?W = "length (sys_pushed s)" and ?R = "length (sys_popped s)"
  have inv: "spsc_sys_inv cap s"
    using assms(1,2) by (rule spsc_reach_inv)
  have "r' = of_nat ?R" "?R < ?W"
    using spsc_take_inv [OF inv assms(5,6)] by (auto simp: spsc_sys_inv_def Let_def)
  moreover have "w = of_nat ?W" "?W < ?R + unat cap"
    using spsc_store_inv [OF inv assms(3,4)] by (auto simp: spsc_sys_inv_def Let_def)
  ultimately show ?thesis
    using slot_of_eq [of ?R ?W cap] by (auto simp: ring_slot_of_nat [OF assms(2)])
qed

theorem spsc_no_data_race_witness:
  "\<exists>s. spsc_reach 4 (0 :: nat) s \<and> sys_producer s = P_LoadedRead 8 1 0 \<and>
     sys_consumer s = C_LoadedWrite 0 1 \<and> ring_slot 4 1 \<noteq> ring_slot 4 0"
proof -
  obtain s where s: "spsc_reach 4 (0 :: nat) s" "sys_producer s = P_LoadedRead 8 1 0" "sys_consumer s = C_LoadedWrite 0 1"
    using sample_run by blast
  have "\<not> (4 :: u64) \<le> 1 - 0" "(0 :: u64) \<noteq> 1"
    by (simp_all add: word_le_nat_alt)
  then show ?thesis
    using s spsc_no_data_race [OF s(1) ring_cap_4 s(2) _ s(3)] by blast
qed

section \<open>\<open>MPSCQueue\<close>: many producers, one consumer\<close>

text \<open>A producer that runs \<open>emplace\<close>: the position is loaded, then the sequence number of its
  cell; a won compare-and-exchange claims the position; then the data is written and published.
  A failed compare-and-exchange, spurious or not, loads the current index.\<close>

datatype 'a mproducer =
    M_Idle
  | M_Pos 'a u64
  | M_Seq 'a u64 u64
  | M_Claimed 'a u64
  | M_Stored 'a u64

datatype 'a mconsumer =
    K_Idle
  | K_Pos u64
  | K_Seq u64 u64
  | K_Claimed u64
  | K_Taken 'a u64

text \<open>Histories: the values in the order in which their positions were claimed, the thread that
  owns a claimed but unpublished position, and the values popped.\<close>

record 'a mpsc_sys =
  msys_queue :: "'a mpsc_queue"
  msys_producers :: "nat \<Rightarrow> 'a mproducer"
  msys_consumer :: "'a mconsumer"
  msys_claimed :: "'a list"
  msys_owner :: "nat \<Rightarrow> nat option"
  msys_popped :: "'a list"

definition mpsc_init :: "u64 \<Rightarrow> 'a \<Rightarrow> 'a mpsc_sys" where
  "mpsc_init cap d = \<lparr>msys_queue = mpsc_new cap d, msys_producers = (\<lambda>_. M_Idle), msys_consumer = K_Idle,
     msys_claimed = [], msys_owner = (\<lambda>_. None), msys_popped = []\<rparr>"

abbreviation set_producer :: "nat \<Rightarrow> 'a mproducer \<Rightarrow> 'a mpsc_sys \<Rightarrow> 'a mpsc_sys" where
  "set_producer t p s \<equiv> s\<lparr>msys_producers := (msys_producers s)(t := p)\<rparr>"

abbreviation set_cell :: "u64 \<Rightarrow> u64 \<Rightarrow> ('a cell \<Rightarrow> 'a cell) \<Rightarrow> 'a mpsc_queue \<Rightarrow> 'a mpsc_queue" where
  "set_cell cap pos f q \<equiv>
     q\<lparr>mq_buffer := (mq_buffer q)[ring_slot cap pos := f (mq_buffer q ! ring_slot cap pos)]\<rparr>"

inductive mpsc_step :: "u64 \<Rightarrow> 'a mpsc_sys \<Rightarrow> 'a mpsc_sys \<Rightarrow> bool" for cap where
  m_load_pos: "msys_producers s t = M_Idle \<Longrightarrow>
    mpsc_step cap s (set_producer t (M_Pos v (mq_write_idx (msys_queue s))) s)"
| m_load_seq: "msys_producers s t = M_Pos v pos \<Longrightarrow>
    mpsc_step cap s (set_producer t (M_Seq v pos (cell_sequence (mq_buffer (msys_queue s) ! ring_slot cap pos))) s)"
| m_cas: "msys_producers s t = M_Seq v pos seq \<Longrightarrow> seq - pos = 0 \<Longrightarrow> mq_write_idx (msys_queue s) = pos \<Longrightarrow>
    mpsc_step cap s (set_producer t (M_Claimed v pos)
      (s\<lparr>msys_queue := (msys_queue s)\<lparr>mq_write_idx := pos + 1\<rparr>, msys_claimed := msys_claimed s @ [v],
         msys_owner := (msys_owner s)(length (msys_claimed s) \<mapsto> t)\<rparr>))"
| m_cas_fail: "msys_producers s t = M_Seq v pos seq \<Longrightarrow> seq - pos = 0 \<Longrightarrow>
    mpsc_step cap s (set_producer t (M_Pos v (mq_write_idx (msys_queue s))) s)"
| m_full: "msys_producers s t = M_Seq v pos seq \<Longrightarrow> sint (seq - pos) < 0 \<Longrightarrow>
    mpsc_step cap s (set_producer t M_Idle s)"
| m_retry: "msys_producers s t = M_Seq v pos seq \<Longrightarrow> sint (seq - pos) > 0 \<Longrightarrow>
    mpsc_step cap s (set_producer t (M_Pos v (mq_write_idx (msys_queue s))) s)"
| m_store: "msys_producers s t = M_Claimed v pos \<Longrightarrow>
    mpsc_step cap s (set_producer t (M_Stored v pos)
      (s\<lparr>msys_queue := set_cell cap pos (\<lambda>c. c\<lparr>cell_data := v\<rparr>) (msys_queue s)\<rparr>))"
| m_publish: "msys_producers s t = M_Stored v pos \<Longrightarrow>
    mpsc_step cap s (set_producer t M_Idle
      (s\<lparr>msys_queue := set_cell cap pos (\<lambda>c. c\<lparr>cell_sequence := pos + 1\<rparr>) (msys_queue s),
         msys_owner := (\<lambda>p. if msys_owner s p = Some t then None else msys_owner s p)\<rparr>))"
| k_load_pos: "msys_consumer s = K_Idle \<Longrightarrow>
    mpsc_step cap s (s\<lparr>msys_consumer := K_Pos (mq_read_idx (msys_queue s))\<rparr>)"
| k_load_seq: "msys_consumer s = K_Pos pos \<Longrightarrow>
    mpsc_step cap s (s\<lparr>msys_consumer := K_Seq pos (cell_sequence (mq_buffer (msys_queue s) ! ring_slot cap pos))\<rparr>)"
| k_cas: "msys_consumer s = K_Seq pos seq \<Longrightarrow> seq - (pos + 1) = 0 \<Longrightarrow> mq_read_idx (msys_queue s) = pos \<Longrightarrow>
    mpsc_step cap s (s\<lparr>msys_consumer := K_Claimed pos, msys_queue := (msys_queue s)\<lparr>mq_read_idx := pos + 1\<rparr>\<rparr>)"
| k_cas_fail: "msys_consumer s = K_Seq pos seq \<Longrightarrow> seq - (pos + 1) = 0 \<Longrightarrow>
    mpsc_step cap s (s\<lparr>msys_consumer := K_Pos (mq_read_idx (msys_queue s))\<rparr>)"
| k_empty: "msys_consumer s = K_Seq pos seq \<Longrightarrow> sint (seq - (pos + 1)) < 0 \<Longrightarrow>
    mpsc_step cap s (s\<lparr>msys_consumer := K_Idle\<rparr>)"
| k_retry: "msys_consumer s = K_Seq pos seq \<Longrightarrow> sint (seq - (pos + 1)) > 0 \<Longrightarrow>
    mpsc_step cap s (s\<lparr>msys_consumer := K_Pos (mq_read_idx (msys_queue s))\<rparr>)"
| k_take: "msys_consumer s = K_Claimed pos \<Longrightarrow>
    mpsc_step cap s (s\<lparr>msys_consumer := K_Taken (cell_data (mq_buffer (msys_queue s) ! ring_slot cap pos)) pos\<rparr>)"
| k_release: "msys_consumer s = K_Taken v pos \<Longrightarrow>
    mpsc_step cap s (s\<lparr>msys_consumer := K_Idle, msys_popped := msys_popped s @ [v],
      msys_queue := set_cell cap pos (\<lambda>c. c\<lparr>cell_sequence := pos + cap\<rparr>) (msys_queue s)\<rparr>)"

inductive mpsc_reach :: "u64 \<Rightarrow> 'a \<Rightarrow> 'a mpsc_sys \<Rightarrow> bool" for cap d where
  mreach_init: "mpsc_reach cap d (mpsc_init cap d)"
| mreach_step: "mpsc_reach cap d s \<Longrightarrow> mpsc_step cap s s' \<Longrightarrow> mpsc_reach cap d s'"

subsection \<open>Invariant\<close>

abbreviation W_of :: "'a mpsc_sys \<Rightarrow> nat" where "W_of s \<equiv> length (msys_claimed s)"
abbreviation P_of :: "'a mpsc_sys \<Rightarrow> nat" where "P_of s \<equiv> length (msys_popped s)"

definition cell_at :: "u64 \<Rightarrow> 'a mpsc_queue \<Rightarrow> nat \<Rightarrow> 'a cell" where
  "cell_at cap q p = mq_buffer q ! slot_of cap p"

text \<open>The cell of a position of the window that starts at the number of pops.\<close>

definition cell_ok :: "u64 \<Rightarrow> 'a mpsc_sys \<Rightarrow> nat \<Rightarrow> bool" where
  "cell_ok cap s p \<longleftrightarrow>
     (if p < W_of s \<and> msys_owner s p = None
      then cell_sequence (cell_at cap (msys_queue s) p) = of_nat p + 1 \<and>
           cell_data (cell_at cap (msys_queue s) p) = msys_claimed s ! p
      else cell_sequence (cell_at cap (msys_queue s) p) = of_nat p)"

definition owner_ok :: "u64 \<Rightarrow> 'a mpsc_sys \<Rightarrow> nat \<Rightarrow> nat \<Rightarrow> bool" where
  "owner_ok cap s p t \<longleftrightarrow> P_of s \<le> p \<and> p < W_of s \<and>
     (msys_producers s t = M_Claimed (msys_claimed s ! p) (of_nat p) \<or>
      msys_producers s t = M_Stored (msys_claimed s ! p) (of_nat p) \<and>
        cell_data (cell_at cap (msys_queue s) p) = msys_claimed s ! p)"

fun mproducer_ok :: "u64 \<Rightarrow> 'a mpsc_sys \<Rightarrow> nat \<Rightarrow> 'a mproducer \<Rightarrow> bool" where
  "mproducer_ok cap s t M_Idle \<longleftrightarrow> True"
| "mproducer_ok cap s t (M_Pos v pos) \<longleftrightarrow> (\<exists>p \<le> W_of s. pos = of_nat p)"
| "mproducer_ok cap s t (M_Seq v pos seq) \<longleftrightarrow>
     (\<exists>p \<le> W_of s. pos = of_nat p \<and> (seq = pos \<longrightarrow> p = W_of s \<longrightarrow> W_of s < P_of s + unat cap))"
| "mproducer_ok cap s t (M_Claimed v pos) \<longleftrightarrow> (\<exists>p. msys_owner s p = Some t)"
| "mproducer_ok cap s t (M_Stored v pos) \<longleftrightarrow> (\<exists>p. msys_owner s p = Some t)"

fun mconsumer_ok :: "'a mpsc_sys \<Rightarrow> 'a mconsumer \<Rightarrow> bool" where
  "mconsumer_ok s K_Idle \<longleftrightarrow> mq_read_idx (msys_queue s) = of_nat (P_of s)"
| "mconsumer_ok s (K_Pos pos) \<longleftrightarrow> mq_read_idx (msys_queue s) = of_nat (P_of s) \<and> pos = of_nat (P_of s)"
| "mconsumer_ok s (K_Seq pos seq) \<longleftrightarrow> mq_read_idx (msys_queue s) = of_nat (P_of s) \<and> pos = of_nat (P_of s) \<and>
     (seq = pos + 1 \<longrightarrow> P_of s < W_of s \<and> msys_owner s (P_of s) = None)"
| "mconsumer_ok s (K_Claimed pos) \<longleftrightarrow> mq_read_idx (msys_queue s) = of_nat (P_of s) + 1 \<and> pos = of_nat (P_of s) \<and>
     P_of s < W_of s \<and> msys_owner s (P_of s) = None"
| "mconsumer_ok s (K_Taken v pos) \<longleftrightarrow> mq_read_idx (msys_queue s) = of_nat (P_of s) + 1 \<and> pos = of_nat (P_of s) \<and>
     P_of s < W_of s \<and> msys_owner s (P_of s) = None \<and> v = msys_claimed s ! P_of s"

definition mpsc_sys_inv :: "u64 \<Rightarrow> 'a mpsc_sys \<Rightarrow> bool" where
  "mpsc_sys_inv cap s \<longleftrightarrow>
     length (mq_buffer (msys_queue s)) = unat cap \<and> mq_write_idx (msys_queue s) = of_nat (W_of s) \<and>
     P_of s \<le> W_of s \<and> W_of s \<le> P_of s + unat cap \<and> msys_popped s = take (P_of s) (msys_claimed s) \<and>
     (\<forall>p. P_of s \<le> p \<longrightarrow> p < P_of s + unat cap \<longrightarrow> cell_ok cap s p) \<and>
     (\<forall>p t. msys_owner s p = Some t \<longrightarrow> owner_ok cap s p t) \<and>
     (\<forall>t. mproducer_ok cap s t (msys_producers s t)) \<and>
     mconsumer_ok s (msys_consumer s)"

lemma mpsc_inv_dest:
  assumes "mpsc_sys_inv cap s"
  shows "length (mq_buffer (msys_queue s)) = unat cap" "mq_write_idx (msys_queue s) = of_nat (W_of s)"
    "P_of s \<le> W_of s" "W_of s \<le> P_of s + unat cap" "msys_popped s = take (P_of s) (msys_claimed s)"
    "mconsumer_ok s (msys_consumer s)" "mproducer_ok cap s t (msys_producers s t)"
    "P_of s \<le> p \<Longrightarrow> p < P_of s + unat cap \<Longrightarrow> cell_ok cap s p"
    "msys_owner s p = Some t \<Longrightarrow> owner_ok cap s p t"
  using assms by (simp_all add: mpsc_sys_inv_def)

lemma of_nat_eq_bounded: "m < 2 ^ 64 \<Longrightarrow> n < 2 ^ 64 \<Longrightarrow> of_nat m = (of_nat n :: u64) \<longleftrightarrow> m = n"
  by (simp add: word_of_nat_eq_iff take_bit_nat_eq_self)

lemma mpsc_init_inv:
  assumes "ring_cap cap"
  shows "mpsc_sys_inv cap (mpsc_init cap d)"
proof -
  have "slot_of cap p = p" if "p < unat cap" for p
    using that by (simp add: slot_of_def)
  then show ?thesis
    by (simp add: mpsc_sys_inv_def mpsc_init_def mpsc_new_def cell_ok_def cell_at_def)
qed

text \<open>Writing one cell of the window.\<close>

lemma cell_at_set_cell:
  assumes "ring_cap cap" and "length (mq_buffer q) = unat cap"
    and "b \<le> p" "p < b + unat cap" and "b \<le> p'" "p' < b + unat cap"
  shows "cell_at cap (set_cell cap (of_nat p) f q) p' = (if p' = p then f (cell_at cap q p) else cell_at cap q p')"
proof -
  have "slot_of cap p = slot_of cap p' \<longleftrightarrow> p = p'"
    using assms slot_of_eq [of p p' cap] slot_of_eq [of p' p cap] by (cases "p \<le> p'") auto
  then show ?thesis
    using assms slot_of_less [OF assms(1), of p] by (auto simp: cell_at_def ring_slot_of_nat)
qed

subsection \<open>Steps of the producers\<close>

lemma mproducer_ok_cong:
  "W_of s' = W_of s \<Longrightarrow> P_of s' = P_of s \<Longrightarrow> msys_owner s' = msys_owner s \<Longrightarrow>
     mproducer_ok cap s' t x = mproducer_ok cap s t x"
  by (cases x) auto

lemma mconsumer_ok_cong:
  "W_of s' = W_of s \<Longrightarrow> P_of s' = P_of s \<Longrightarrow> msys_owner s' (P_of s) = msys_owner s (P_of s) \<Longrightarrow>
     msys_claimed s' = msys_claimed s \<Longrightarrow> mq_read_idx (msys_queue s') = mq_read_idx (msys_queue s) \<Longrightarrow>
     mconsumer_ok s' x = mconsumer_ok s x"
  by (cases x) auto

text \<open>A step that changes no shared memory, by a thread that owns no position.\<close>

lemma set_producer_inv:
  assumes inv: "mpsc_sys_inv cap s" and p: "\<And>p. msys_owner s p \<noteq> Some t" and ok: "mproducer_ok cap s t x"
  shows "mpsc_sys_inv cap (set_producer t x s)"
proof -
  let ?s = "set_producer t x s"
  have "owner_ok cap ?s q u" if "msys_owner s q = Some u" for q u
    using mpsc_inv_dest(9) [OF inv that] that p [of q] by (auto simp: owner_ok_def)
  moreover have "mproducer_ok cap ?s u (msys_producers ?s u)" for u
    using inv ok mproducer_ok_cong [of ?s s cap] by (auto simp: mpsc_sys_inv_def)
  moreover have "mconsumer_ok ?s (msys_consumer s)"
    using inv mconsumer_ok_cong [of ?s s] by (auto simp: mpsc_sys_inv_def)
  ultimately show ?thesis
    using inv by (simp add: mpsc_sys_inv_def cell_ok_def)
qed

lemma not_owner:
  assumes "mpsc_sys_inv cap s"
    and "msys_producers s t = M_Idle \<or> msys_producers s t = M_Pos v pos \<or> msys_producers s t = M_Seq v pos seq"
  shows "msys_owner s p \<noteq> Some t"
  using mpsc_inv_dest(9) [OF assms(1), of p t] assms(2) by (auto simp: owner_ok_def)

lemma m_load_seq_ok:
  assumes inv: "mpsc_sys_inv cap s" and cap: "ring_cap cap" "2 \<le> unat cap" and bound: "W_of s + unat cap < 2 ^ 64"
    and pos: "msys_producers s t = M_Pos v pos"
  shows "mproducer_ok cap s t (M_Seq v pos (cell_sequence (mq_buffer (msys_queue s) ! ring_slot cap pos)))"
proof -
  have "mproducer_ok cap s t (M_Pos v pos)"
    using inv pos by (metis mpsc_sys_inv_def)
  then obtain p where p: "p \<le> W_of s" "pos = of_nat p"
    by auto
  have "W_of s < P_of s + unat cap"
    if seq: "cell_sequence (mq_buffer (msys_queue s) ! ring_slot cap pos) = pos" and W: "p = W_of s"
  proof (rule ccontr)
    assume "\<not> W_of s < P_of s + unat cap"
    then have full: "W_of s = P_of s + unat cap"
      using inv by (simp add: mpsc_sys_inv_def)
    have "cell_ok cap s (P_of s)"
      using inv cap(2) by (simp add: mpsc_sys_inv_def)
    then have "cell_sequence (cell_at cap (msys_queue s) (P_of s)) \<in> {of_nat (P_of s), of_nat (Suc (P_of s))}"
      by (auto simp: cell_ok_def split: if_splits)
    moreover have "slot_of cap (W_of s) = slot_of cap (P_of s)"
      by (simp add: slot_of_def full)
    ultimately have "(of_nat (W_of s) :: u64) \<in> {of_nat (P_of s), of_nat (Suc (P_of s))}"
      using seq by (simp add: p W ring_slot_of_nat [OF cap(1)] cell_at_def)
    then show False
      using bound full cap(2) of_nat_eq_bounded [of "W_of s" "P_of s"] of_nat_eq_bounded [of "W_of s" "Suc (P_of s)"]
      by auto
  qed
  with p show ?thesis
    by auto
qed

lemma m_cas_inv:
  assumes inv: "mpsc_sys_inv cap s" and cap: "ring_cap cap" and bound: "W_of s + unat cap < 2 ^ 64"
    and p: "msys_producers s t = M_Seq v pos seq" "seq - pos = 0" "mq_write_idx (msys_queue s) = pos"
  shows "mpsc_sys_inv cap (set_producer t (M_Claimed v pos)
      (s\<lparr>msys_queue := (msys_queue s)\<lparr>mq_write_idx := pos + 1\<rparr>, msys_claimed := msys_claimed s @ [v],
         msys_owner := (msys_owner s)(W_of s \<mapsto> t)\<rparr>))" (is "mpsc_sys_inv cap ?s")
proof -
  have "mproducer_ok cap s t (M_Seq v pos seq)"
    using inv p(1) by (metis mpsc_sys_inv_def)
  then obtain k where k: "k \<le> W_of s" "pos = of_nat k" "k = W_of s \<Longrightarrow> W_of s < P_of s + unat cap"
    using p(2) by auto
  have W: "mq_write_idx (msys_queue s) = of_nat (W_of s)"
    using inv by (simp add: mpsc_sys_inv_def)
  then have "k = W_of s"
    using p(3) k bound of_nat_eq_bounded [of k "W_of s"] by auto
  then have pos: "pos = of_nat (W_of s)" and room: "W_of s < P_of s + unat cap"
    using k by auto
  have free: "msys_owner s q \<noteq> Some t" for q
    using not_owner [OF inv] p(1) by blast
  have cells: "cell_ok cap ?s q" if "P_of s \<le> q" "q < P_of s + unat cap" for q
    using mpsc_inv_dest(8) [OF inv that] by (auto simp: cell_ok_def cell_at_def nth_append less_Suc_eq split: if_splits)
  have owners: "owner_ok cap ?s q u" if "msys_owner ?s q = Some u" for q u
    using mpsc_inv_dest(9) [OF inv, of q u] mpsc_inv_dest(3) [OF inv] that free [of q] pos
    by (auto simp: owner_ok_def cell_at_def nth_append split: if_splits)
  have prods: "mproducer_ok cap ?s u (msys_producers ?s u)" for u
  proof (cases "u = t")
    case False
    have keep: "q \<noteq> W_of s" if "msys_owner s q = Some u" for q
      using mpsc_inv_dest(9) [OF inv that] by (auto simp: owner_ok_def)
    show ?thesis
      using False mpsc_inv_dest(7) [OF inv, of u] by (cases "msys_producers s u") (auto intro: le_SucI dest: keep)
  qed auto
  have "mconsumer_ok ?s (msys_consumer s)"
    using mpsc_inv_dest(6) [OF inv] by (cases "msys_consumer s") (auto simp: nth_append)
  then show ?thesis
    using mpsc_inv_dest(1-5) [OF inv] cells owners prods room pos by (simp add: mpsc_sys_inv_def)
qed

text \<open>The position a thread owns.\<close>

lemma owned_position:
  assumes inv: "mpsc_sys_inv cap s"
    and p: "msys_producers s t = M_Claimed v pos \<or> msys_producers s t = M_Stored v pos"
    and bound: "W_of s < 2 ^ 64"
  obtains p where "msys_owner s p = Some t" "pos = of_nat p" "v = msys_claimed s ! p" "P_of s \<le> p" "p < W_of s"
    "p < P_of s + unat cap" "\<forall>q. msys_owner s q = Some t \<longrightarrow> q = p"
proof -
  obtain p where o: "msys_owner s p = Some t"
    using mpsc_inv_dest(7) [OF inv, of t] p by auto
  have q: "pos = of_nat q" "v = msys_claimed s ! q" "P_of s \<le> q" "q < W_of s" "q < P_of s + unat cap"
    if "msys_owner s q = Some t" for q
    using mpsc_inv_dest(9) [OF inv that] mpsc_inv_dest(4) [OF inv] p by (auto simp: owner_ok_def)
  have "q = p" if "msys_owner s q = Some t" for q
    using q(1,4) [OF that] q(1,4) [OF o] bound of_nat_eq_bounded [of q p] by simp
  with o q [OF o] that show thesis
    by blast
qed

lemma m_store_inv:
  assumes inv: "mpsc_sys_inv cap s" and cap: "ring_cap cap" and bound: "W_of s < 2 ^ 64"
    and p: "msys_producers s t = M_Claimed v pos"
  shows "mpsc_sys_inv cap (set_producer t (M_Stored v pos)
      (s\<lparr>msys_queue := set_cell cap pos (\<lambda>c. c\<lparr>cell_data := v\<rparr>) (msys_queue s)\<rparr>))" (is "mpsc_sys_inv cap ?s")
proof -
  obtain k where k: "msys_owner s k = Some t" "pos = of_nat k" "v = msys_claimed s ! k" "P_of s \<le> k" "k < W_of s"
    "k < P_of s + unat cap" "\<forall>q. msys_owner s q = Some t \<longrightarrow> q = k"
    by (rule owned_position [OF inv disjI1 [OF p] bound])
  have cell: "cell_at cap (msys_queue ?s) q =
      (if q = k then (cell_at cap (msys_queue s) k)\<lparr>cell_data := v\<rparr> else cell_at cap (msys_queue s) q)"
    if "P_of s \<le> q" "q < P_of s + unat cap" for q
    using cell_at_set_cell [OF cap mpsc_inv_dest(1) [OF inv] k(4,6) that] by (simp add: k(2))
  have cells: "cell_ok cap ?s q" if "P_of s \<le> q" "q < P_of s + unat cap" for q
    using mpsc_inv_dest(8) [OF inv that] cell [OF that] k(1) unfolding cell_ok_def by (auto split: if_splits)
  have owners: "owner_ok cap ?s q u" if "msys_owner s q = Some u" for q u
  proof -
    have ok: "owner_ok cap s q u"
      using mpsc_inv_dest(9) [OF inv that] .
    then have q: "P_of s \<le> q" "q < W_of s" "q < P_of s + unat cap"
      using mpsc_inv_dest(4) [OF inv] by (auto simp: owner_ok_def)
    show ?thesis
    proof (cases "u = t")
      case True
      with that k(7) have "q = k"
        by blast
      moreover from this have "cell_data (cell_at cap (msys_queue ?s) q) = msys_claimed s ! q"
        unfolding cell [OF q(1,3)] by (simp add: k(3))
      ultimately show ?thesis
        using True q(1,2) k(2,3) unfolding owner_ok_def by simp
    next
      case False
      with that k(1) have "q \<noteq> k"
        by auto
      with False ok cell [OF q(1,3)] show ?thesis
        by (auto simp: owner_ok_def)
    qed
  qed
  have "mproducer_ok cap ?s u (msys_producers ?s u)" for u
    using mpsc_inv_dest(7) [OF inv, of u] mproducer_ok_cong [of ?s s cap] k(1) by auto
  moreover have "mconsumer_ok ?s (msys_consumer s)"
    using mpsc_inv_dest(6) [OF inv] mconsumer_ok_cong [of ?s s] by simp
  ultimately show ?thesis
    using mpsc_inv_dest(1-5) [OF inv] cells owners by (simp add: mpsc_sys_inv_def)
qed

lemma m_publish_inv:
  assumes inv: "mpsc_sys_inv cap s" and cap: "ring_cap cap" and bound: "W_of s < 2 ^ 64"
    and p: "msys_producers s t = M_Stored v pos"
  shows "mpsc_sys_inv cap (set_producer t M_Idle
      (s\<lparr>msys_queue := set_cell cap pos (\<lambda>c. c\<lparr>cell_sequence := pos + 1\<rparr>) (msys_queue s),
         msys_owner := (\<lambda>p. if msys_owner s p = Some t then None else msys_owner s p)\<rparr>))" (is "mpsc_sys_inv cap ?s")
proof -
  obtain k where k: "msys_owner s k = Some t" "pos = of_nat k" "v = msys_claimed s ! k" "P_of s \<le> k" "k < W_of s"
    "k < P_of s + unat cap" "\<forall>q. msys_owner s q = Some t \<longrightarrow> q = k"
    by (rule owned_position [OF inv disjI2 [OF p] bound])
  have data: "cell_data (cell_at cap (msys_queue s) k) = msys_claimed s ! k"
    using mpsc_inv_dest(9) [OF inv k(1)] p by (auto simp: owner_ok_def)
  have cell: "cell_at cap (msys_queue ?s) q =
      (if q = k then (cell_at cap (msys_queue s) k)\<lparr>cell_sequence := of_nat k + 1\<rparr> else cell_at cap (msys_queue s) q)"
    if "P_of s \<le> q" "q < P_of s + unat cap" for q
    using cell_at_set_cell [OF cap mpsc_inv_dest(1) [OF inv] k(4,6) that] by (simp add: k(2))
  have own: "msys_owner s q = Some t \<longleftrightarrow> q = k" for q
    using k(1,7) by blast
  have owner: "msys_owner ?s q = None \<longleftrightarrow> q = k \<or> msys_owner s q = None" for q
    by (simp add: own)
  have claimed: "msys_claimed ?s = msys_claimed s"
    by simp
  have cells: "cell_ok cap ?s q" if "P_of s \<le> q" "q < P_of s + unat cap" for q
    using mpsc_inv_dest(8) [OF inv that] k(5) data unfolding cell_ok_def owner cell [OF that] claimed
    by (cases "q = k") simp_all
  have owners: "owner_ok cap ?s q u" if "msys_owner ?s q = Some u" for q u
  proof -
    have u: "msys_owner s q = Some u" "u \<noteq> t"
      using that by (auto split: if_splits)
    then have ok: "owner_ok cap s q u" and "q \<noteq> k"
      using mpsc_inv_dest(9) [OF inv u(1)] k(1) by auto
    moreover have "P_of s \<le> q" "q < P_of s + unat cap"
      using ok mpsc_inv_dest(4) [OF inv] by (auto simp: owner_ok_def)
    ultimately show ?thesis
      using cell [of q] u(2) by (auto simp: owner_ok_def)
  qed
  have "mproducer_ok cap ?s u (msys_producers ?s u)" for u
  proof (cases "u = t")
    case False
    have keep: "\<exists>q. msys_owner ?s q = Some u" if ex: "\<exists>q. msys_owner s q = Some u"
    proof -
      obtain q where "msys_owner s q = Some u"
        using ex by blast
      with False show ?thesis
        by (intro exI [of _ q]) simp
    qed
    show ?thesis
      using False mpsc_inv_dest(7) [OF inv, of u] keep by (cases "msys_producers s u") simp_all
  qed simp
  moreover have "mconsumer_ok ?s (msys_consumer s)"
    using mpsc_inv_dest(6) [OF inv] by (cases "msys_consumer s") auto
  ultimately show ?thesis
    using mpsc_inv_dest(1-5) [OF inv] cells owners by (simp add: mpsc_sys_inv_def)
qed

subsection \<open>Steps of the consumer\<close>

text \<open>A step that changes neither the cells nor what a producer looks at.\<close>

lemma set_consumer_inv:
  assumes inv: "mpsc_sys_inv cap s" and q: "mq_buffer q = mq_buffer (msys_queue s)" "mq_write_idx q = mq_write_idx (msys_queue s)"
    and ok: "mconsumer_ok (s\<lparr>msys_consumer := x, msys_queue := q\<rparr>) x"
  shows "mpsc_sys_inv cap (s\<lparr>msys_consumer := x, msys_queue := q\<rparr>)" (is "mpsc_sys_inv cap ?s")
proof -
  have cell: "cell_at cap (msys_queue ?s) p = cell_at cap (msys_queue s) p" for p
    using q by (simp add: cell_at_def)
  have "cell_ok cap ?s p" if "P_of s \<le> p" "p < P_of s + unat cap" for p
    using mpsc_inv_dest(8) [OF inv that] unfolding cell_ok_def cell by simp
  moreover have "owner_ok cap ?s p t" if "msys_owner s p = Some t" for p t
    using mpsc_inv_dest(9) [OF inv that] unfolding owner_ok_def cell by simp
  moreover have "mproducer_ok cap ?s t (msys_producers s t)" for t
    using mpsc_inv_dest(7) [OF inv, of t] mproducer_ok_cong [of ?s s cap] by simp
  ultimately show ?thesis
    using mpsc_inv_dest(1-5) [OF inv] q ok by (simp add: mpsc_sys_inv_def)
qed

lemma set_consumer_only:
  assumes "mpsc_sys_inv cap s" and "mconsumer_ok s x"
  shows "mpsc_sys_inv cap (s\<lparr>msys_consumer := x\<rparr>)"
proof -
  have "mconsumer_ok (s\<lparr>msys_consumer := x, msys_queue := msys_queue s\<rparr>) x"
    using assms(2) mconsumer_ok_cong [of "s\<lparr>msys_consumer := x, msys_queue := msys_queue s\<rparr>" s] by simp
  from set_consumer_inv [OF assms(1) refl refl this] show ?thesis
    by simp
qed

lemma k_load_seq_ok:
  assumes inv: "mpsc_sys_inv cap s" and cap: "ring_cap cap" "2 \<le> unat cap" and pos: "msys_consumer s = K_Pos pos"
  shows "mconsumer_ok s (K_Seq pos (cell_sequence (mq_buffer (msys_queue s) ! ring_slot cap pos)))"
proof -
  have k: "mq_read_idx (msys_queue s) = of_nat (P_of s)" "pos = of_nat (P_of s)"
    using mpsc_inv_dest(6) [OF inv] pos by simp_all
  have "cell_ok cap s (P_of s)"
    using mpsc_inv_dest(8) [OF inv] cap(2) by simp
  then show ?thesis
    using k by (auto simp: cell_ok_def cell_at_def ring_slot_of_nat [OF cap(1)] split: if_splits)
qed

lemma k_take_ok:
  assumes inv: "mpsc_sys_inv cap s" and cap: "ring_cap cap" "2 \<le> unat cap" and pos: "msys_consumer s = K_Claimed pos"
  shows "mconsumer_ok s (K_Taken (cell_data (mq_buffer (msys_queue s) ! ring_slot cap pos)) pos)"
proof -
  have k: "mq_read_idx (msys_queue s) = of_nat (P_of s) + 1" "pos = of_nat (P_of s)"
    "P_of s < W_of s" "msys_owner s (P_of s) = None"
    using mpsc_inv_dest(6) [OF inv] pos by simp_all
  have "cell_ok cap s (P_of s)"
    using mpsc_inv_dest(8) [OF inv] cap(2) by simp
  then show ?thesis
    using k by (simp add: cell_ok_def cell_at_def ring_slot_of_nat [OF cap(1)])
qed

lemma k_release_inv:
  assumes inv: "mpsc_sys_inv cap s" and cap: "ring_cap cap" and c: "msys_consumer s = K_Taken v pos"
  shows "mpsc_sys_inv cap (s\<lparr>msys_consumer := K_Idle, msys_popped := msys_popped s @ [v],
      msys_queue := set_cell cap pos (\<lambda>c. c\<lparr>cell_sequence := pos + cap\<rparr>) (msys_queue s)\<rparr>)" (is "mpsc_sys_inv cap ?s")
proof -
  let ?P = "P_of s"
  have k: "mq_read_idx (msys_queue s) = of_nat ?P + 1" "pos = of_nat ?P"
    "?P < W_of s" "msys_owner s ?P = None" "v = msys_claimed s ! ?P"
    using mpsc_inv_dest(6) [OF inv] c by simp_all
  note len = mpsc_inv_dest(1) [OF inv]
  have P: "?P \<le> ?P" "?P < ?P + unat cap"
    using ring_cap_pos [OF cap] by simp_all
  have cell: "cell_at cap (msys_queue ?s) p =
      (if p = ?P then (cell_at cap (msys_queue s) ?P)\<lparr>cell_sequence := of_nat ?P + cap\<rparr> else cell_at cap (msys_queue s) p)"
    if "?P \<le> p" "p < ?P + unat cap" for p
    using cell_at_set_cell [OF cap len P that] by (simp add: k(2))
  have "slot_of cap (?P + unat cap) = slot_of cap ?P"
    by (simp add: slot_of_def)
  then have last: "cell_sequence (cell_at cap (msys_queue ?s) (?P + unat cap)) = of_nat (?P + unat cap)"
    using cell [OF P] by (simp add: cell_at_def)
  have cells: "cell_ok cap ?s p" if "Suc ?P \<le> p" "p < Suc ?P + unat cap" for p
  proof (cases "p = ?P + unat cap")
    case True
    then show ?thesis
      using last mpsc_inv_dest(4) [OF inv] by (simp add: cell_ok_def)
  next
    case False
    then have p: "?P \<le> p" "p < ?P + unat cap" "p \<noteq> ?P"
      using that by auto
    show ?thesis
      using mpsc_inv_dest(8) [OF inv p(1,2)] p(3) unfolding cell_ok_def cell [OF p(1,2)] by simp
  qed
  have owners: "owner_ok cap ?s p t" if "msys_owner s p = Some t" for p t
  proof -
    have ok: "owner_ok cap s p t" and "p \<noteq> ?P"
      using mpsc_inv_dest(9) [OF inv that] that k(4) by auto
    then have "?P \<le> p" "p < ?P + unat cap"
      using mpsc_inv_dest(4) [OF inv] by (auto simp: owner_ok_def)
    then show ?thesis
      using ok cell [of p] \<open>p \<noteq> ?P\<close> by (simp add: owner_ok_def)
  qed
  have prods: "mproducer_ok cap ?s t (msys_producers s t)" for t
    using mpsc_inv_dest(7) [OF inv, of t] by (cases "msys_producers s t") auto
  have "msys_popped s @ [v] = take (Suc ?P) (msys_claimed s)"
    using mpsc_inv_dest(5) [OF inv] k(3,5) by (metis take_Suc_conv_app_nth)
  then show ?thesis
    using mpsc_inv_dest(1,2,4) [OF inv] k cells owners prods by (simp add: mpsc_sys_inv_def)
qed

subsection \<open>All runs\<close>

lemma mpsc_step_claimed: "mpsc_step cap s s' \<Longrightarrow> W_of s \<le> W_of s'"
  by (induction rule: mpsc_step.induct) simp_all

lemma mpsc_step_inv:
  assumes "mpsc_step cap s s'" and "mpsc_sys_inv cap s" and "ring_cap cap" and "2 \<le> unat cap"
    and "W_of s + unat cap < 2 ^ 64"
  shows "mpsc_sys_inv cap s'"
  using assms
proof (induction rule: mpsc_step.induct)
  case (m_load_pos s t v)
  then show ?case
    by (intro set_producer_inv not_owner) (auto simp: mpsc_inv_dest(2))
next
  case (m_load_seq s t v pos)
  then show ?case
    by (intro set_producer_inv not_owner m_load_seq_ok) auto
next
  case (m_cas s t v pos seq)
  then show ?case
    by (intro m_cas_inv) auto
next
  case (m_cas_fail s t v pos seq)
  then show ?case
    by (intro set_producer_inv not_owner) (auto simp: mpsc_inv_dest(2))
next
  case (m_full s t v pos seq)
  then show ?case
    by (intro set_producer_inv not_owner) auto
next
  case (m_retry s t v pos seq)
  then show ?case
    by (intro set_producer_inv not_owner) (auto simp: mpsc_inv_dest(2))
next
  case (m_store s t v pos)
  then show ?case
    by (intro m_store_inv) auto
next
  case (m_publish s t v pos)
  then show ?case
    by (intro m_publish_inv) auto
next
  case (k_load_pos s)
  then show ?case
    using mpsc_inv_dest(6) [OF k_load_pos(2)] by (intro set_consumer_only) auto
next
  case (k_load_seq s pos)
  then show ?case
    by (intro set_consumer_only k_load_seq_ok) auto
next
  case (k_cas s pos seq)
  then have "mconsumer_ok s (K_Seq pos seq)" "seq = pos + 1"
    using mpsc_inv_dest(6) [OF k_cas(4)] by auto
  then show ?case
    by (intro set_consumer_inv [OF k_cas(4)]) auto
next
  case (k_cas_fail s pos seq)
  then show ?case
    using mpsc_inv_dest(6) [OF k_cas_fail(3)] by (intro set_consumer_only) auto
next
  case (k_empty s pos seq)
  then show ?case
    using mpsc_inv_dest(6) [OF k_empty(3)] by (intro set_consumer_only) auto
next
  case (k_retry s pos seq)
  then show ?case
    using mpsc_inv_dest(6) [OF k_retry(3)] by (intro set_consumer_only) auto
next
  case (k_take s pos)
  then show ?case
    by (intro set_consumer_only k_take_ok) auto
next
  case (k_release s v pos)
  then show ?case
    by (intro k_release_inv) auto
qed

lemma mpsc_reach_inv:
  "mpsc_reach cap d s \<Longrightarrow> ring_cap cap \<Longrightarrow> 2 \<le> unat cap \<Longrightarrow> W_of s + unat cap < 2 ^ 64 \<Longrightarrow> mpsc_sys_inv cap s"
proof (induction rule: mpsc_reach.induct)
  case mreach_init
  then show ?case
    by (intro mpsc_init_inv)
next
  case (mreach_step s s')
  then show ?case
    using mpsc_step_claimed [OF mreach_step(2)] by (intro mpsc_step_inv [OF mreach_step(2)]) auto
qed

text \<open>C15. \<open>MPSCQueue\<close> under every interleaving of any number of producers and one consumer, spurious
  failures of the compare-and-exchange included, as long as fewer than \<open>2^64\<close> positions have been
  claimed: the values popped are a prefix of the values in the order their positions were
  claimed, without loss or duplication; no unread cell is overwritten; and when every thread is
  between two operations the cells hold exactly the values claimed and not popped.\<close>

theorem mpsc_concurrent_fifo:
  assumes "mpsc_reach cap d s" and "ring_cap cap" and "2 \<le> unat cap"
    and "length (msys_claimed s) + unat cap < 2 ^ 64"
  shows "prefix (msys_popped s) (msys_claimed s) \<and>
    length (msys_claimed s) \<le> length (msys_popped s) + unat cap \<and>
    ((\<forall>t. msys_producers s t = M_Idle) \<longrightarrow> msys_consumer s = K_Idle \<longrightarrow>
       mpsc_elems cap (msys_queue s) = drop (length (msys_popped s)) (msys_claimed s))"
proof -
  have inv: "mpsc_sys_inv cap s"
    using assms by (rule mpsc_reach_inv)
  note le = mpsc_inv_dest(3,4) [OF inv]
  have "mpsc_elems cap (msys_queue s) = drop (P_of s) (msys_claimed s)"
    if idle: "\<forall>t. msys_producers s t = M_Idle" and c: "msys_consumer s = K_Idle"
  proof -
    have none: "msys_owner s p = None" for p
      using mpsc_inv_dest(9) [OF inv, of p] idle by (cases "msys_owner s p") (auto simp: owner_ok_def)
    have idx: "mq_read_idx (msys_queue s) = of_nat (P_of s)" "mq_write_idx (msys_queue s) = of_nat (W_of s)"
      using mpsc_inv_dest(2,6) [OF inv] c by simp_all
    have n: "unat (of_nat (W_of s) - of_nat (P_of s) :: u64) = W_of s - P_of s"
      by (rule unat_of_nat_diff [OF le])
    have "cell_data (mq_buffer (msys_queue s) ! ring_slot cap (of_nat (P_of s) + of_nat i)) = msys_claimed s ! (P_of s + i)"
      if i: "i < W_of s - P_of s" for i
    proof -
      have "P_of s + i < W_of s" "P_of s + i < P_of s + unat cap"
        using i le by simp_all
      then have "cell_data (cell_at cap (msys_queue s) (P_of s + i)) = msys_claimed s ! (P_of s + i)"
        using mpsc_inv_dest(8) [OF inv, of "P_of s + i"] none by (simp add: cell_ok_def)
      then show ?thesis
        using ring_slot_of_nat [OF assms(2), of "P_of s + i"] by (simp add: cell_at_def)
    qed
    then show ?thesis
      by (intro nth_equalityI) (simp_all add: mpsc_elems_def idx n)
  qed
  moreover have "prefix (msys_popped s) (msys_claimed s)"
    using mpsc_inv_dest(5) [OF inv] by (metis take_is_prefix)
  ultimately show ?thesis
    using le by blast
qed

text \<open>A run: two producers claim positions, the second publishes first.\<close>

lemma mpsc_sample_run:
  "\<exists>s. mpsc_reach 4 (0 :: nat) s \<and> msys_claimed s = [7, 8] \<and> msys_popped s = []"
proof -
  let ?s0 = "mpsc_init 4 (0 :: nat)"
  let ?s1 = "set_producer 0 (M_Pos 7 0) ?s0"
  let ?s2 = "set_producer 0 (M_Seq 7 0 0) ?s1"
  let ?s3 = "set_producer 0 (M_Claimed 7 0)
      (?s2\<lparr>msys_queue := (msys_queue ?s2)\<lparr>mq_write_idx := 1\<rparr>, msys_claimed := [7], msys_owner := (msys_owner ?s2)(0 \<mapsto> 0)\<rparr>)"
  let ?s4 = "set_producer 1 (M_Pos 8 1) ?s3"
  let ?s5 = "set_producer 1 (M_Seq 8 1 1) ?s4"
  let ?s6 = "set_producer 1 (M_Claimed 8 1)
      (?s5\<lparr>msys_queue := (msys_queue ?s5)\<lparr>mq_write_idx := 2\<rparr>, msys_claimed := [7, 8], msys_owner := (msys_owner ?s5)(1 \<mapsto> 1)\<rparr>)"
  note init = mpsc_init_def mpsc_new_def
  have "mpsc_step 4 ?s0 ?s1"
    using m_load_pos [of ?s0 0 4 7] by (simp add: init)
  moreover have "mpsc_step 4 ?s1 ?s2"
    using m_load_seq [of ?s1 0 7 0 4] by (simp add: init ring_slot_def)
  moreover have "mpsc_step 4 ?s2 ?s3"
    using m_cas [of ?s2 0 7 0 0 4] by (simp add: init)
  moreover have "mpsc_step 4 ?s3 ?s4"
    using m_load_pos [of ?s3 1 4 8] by (simp add: init)
  moreover have "mpsc_step 4 ?s4 ?s5"
    using m_load_seq [of ?s4 1 8 1 4] by (simp add: init ring_slot_def)
  moreover have "mpsc_step 4 ?s5 ?s6"
    using m_cas [of ?s5 1 8 1 1 4] by (simp add: init)
  ultimately have "mpsc_reach 4 0 ?s6"
    using mreach_init [of 4 "0 :: nat"] by (meson mreach_step)
  then show ?thesis
    by (rule exI [of _ ?s6, OF conjI]) (simp add: init)
qed

theorem mpsc_concurrent_fifo_witness:
  "\<exists>s. mpsc_reach 4 (0 :: nat) s \<and> msys_claimed s = [7, 8] \<and> prefix (msys_popped s) [7, 8]"
proof -
  obtain s where s: "mpsc_reach 4 (0 :: nat) s" "msys_claimed s = [7, 8]"
    using mpsc_sample_run by blast
  with mpsc_concurrent_fifo [OF s(1) ring_cap_4] show ?thesis
    by auto
qed

end
