(* ===== verification/Risk.thy ===== *)
theory Risk
  imports Domain Complex_Main
begin

text \<open>
  The pre-trade risk checks of \<open>risk/\<close>: the validators, the credit and margin books, the policy
  pipeline and \<open>RiskEngine\<close>. Fixed arrays that are indexed modulo their size are functions of
  the index. Readings of the clock are arguments. Floating-point arithmetic, which only the
  price band uses, is exact rational arithmetic followed by the rounding function \<open>rnd\<close> of the
  target, an argument.
\<close>

section \<open>Data\<close>

record account_state =
  as_available_buying_power :: u64
  as_used_buying_power :: u64
  as_reserved_capital :: u64
  as_daily_exposure :: u64
  as_worst_case_loss :: u64
  as_open_margin_requirement :: u64
  as_collateral_value :: u64
  as_account_id :: u64

record position_state =
  ps_net_qty :: s64
  ps_long_qty :: u64
  ps_short_qty :: u64
  ps_gross_qty :: u64
  ps_max_long_limit :: u64
  ps_max_short_limit :: u64
  ps_symbol_id :: u32
  ps_account_id :: u32
  ps_last_update_ts :: u64

datatype self_trade_prevention_mode = STP_CancelNew | STP_CancelResting | STP_CancelBoth | STP_Allow

record risk_limits =
  rl_max_credit_limit :: u64
  rl_max_daily_exposure :: u64
  rl_max_order_qty :: u64
  rl_max_order_price :: s64
  rl_price_band_tolerance :: rat
  rl_stp_mode :: self_trade_prevention_mode
  rl_max_orders_per_sec :: u32
  rl_kill_switch_active :: bool

record risk_context =
  rc_order_id :: order_id
  rc_price :: price
  rc_qty :: quantity
  rc_timestamp :: u64
  rc_reference_price :: price
  rc_client_order_id :: u64
  rc_symbol_id :: symbol_id
  rc_client_id :: client_id
  rc_account_id :: account_id
  rc_side :: side
  rc_type :: order_type

datatype risk_decision = RiskAccept | RiskReject | RiskHold | RiskAuction | RiskHalt

record risk_trace_stage =
  ts_stage_name :: string
  ts_latency_ns :: u32
  ts_decision :: risk_decision

text \<open>The stages in use, at most \<open>MAX_STAGES\<close>; names are cut to 23 characters.\<close>

type_synonym risk_trace = "risk_trace_stage list"

definition MAX_STAGES :: nat where "MAX_STAGES = 16"

definition add_stage :: "string \<Rightarrow> u32 \<Rightarrow> risk_decision \<Rightarrow> risk_trace \<Rightarrow> risk_trace" where
  "add_stage name latency dec trace =
     (if length trace \<ge> MAX_STAGES then trace
      else trace @ [\<lparr>ts_stage_name = take 23 name, ts_latency_ns = latency, ts_decision = dec\<rparr>])"

record risk_result =
  rr_reason :: reject_reason
  rr_decision :: risk_decision
  rr_timestamp :: u64
  rr_reserve_capital :: u64
  rr_pipeline_latency_ns :: u64

record risk_statistics =
  rs_accepted_count :: u64
  rs_rejected_count :: u64
  rs_credit_rejects :: u64
  rs_position_rejects :: u64
  rs_price_band_rejects :: u64
  rs_fat_finger_rejects :: u64
  rs_stp_rejects :: u64
  rs_kill_switch_rejects :: u64
  rs_duplicate_rejects :: u64
  rs_rate_limit_rejects :: u64
  rs_circuit_breaker_rejects :: u64
  rs_total_latency_ns :: u64
  rs_max_latency_ns :: u64

definition risk_stats_new :: risk_statistics where
  "risk_stats_new = \<lparr>rs_accepted_count = 0, rs_rejected_count = 0, rs_credit_rejects = 0,
     rs_position_rejects = 0, rs_price_band_rejects = 0, rs_fat_finger_rejects = 0, rs_stp_rejects = 0,
     rs_kill_switch_rejects = 0, rs_duplicate_rejects = 0, rs_rate_limit_rejects = 0,
     rs_circuit_breaker_rejects = 0, rs_total_latency_ns = 0, rs_max_latency_ns = 0\<rparr>"

definition risk_record_latency :: "u64 \<Rightarrow> risk_statistics \<Rightarrow> risk_statistics" where
  "risk_record_latency ns st =
     (let st1 = st\<lparr>rs_total_latency_ns := rs_total_latency_ns st + ns\<rparr>
      in if ns > rs_max_latency_ns st1 then st1\<lparr>rs_max_latency_ns := ns\<rparr> else st1)"

section \<open>\<open>KillSwitch\<close> and \<open>CircuitBreaker\<close>\<close>

text \<open>Their static members, shared by all engines.\<close>

datatype market_status = MS_Trading | MS_VolatilityHalt | MS_Halt | MS_Auction | MS_Resume

record risk_switches =
  ks_global_halt :: bool
  ks_blocked_accounts :: "nat \<Rightarrow> bool"
  ks_blocked_symbols :: "nat \<Rightarrow> bool"
  cb_status :: market_status

definition kill_switch_validate :: "risk_context \<Rightarrow> risk_limits \<Rightarrow> risk_switches \<Rightarrow> bool" where
  "kill_switch_validate ctx limits sw \<longleftrightarrow>
     (if rl_kill_switch_active limits \<or> ks_global_halt sw then False
      else if ks_blocked_accounts sw (unat (get_id (rc_account_id ctx)) mod 1024) then False
      else if ks_blocked_symbols sw (unat (get_id (rc_symbol_id ctx)) mod 1024) then False
      else True)"

definition set_global_halt :: "bool \<Rightarrow> risk_switches \<Rightarrow> risk_switches" where
  "set_global_halt val sw = sw\<lparr>ks_global_halt := val\<rparr>"

definition set_account_halt :: "u32 \<Rightarrow> bool \<Rightarrow> risk_switches \<Rightarrow> risk_switches" where
  "set_account_halt i val sw = sw\<lparr>ks_blocked_accounts := (ks_blocked_accounts sw)(unat i mod 1024 := val)\<rparr>"

definition set_symbol_halt :: "u32 \<Rightarrow> bool \<Rightarrow> risk_switches \<Rightarrow> risk_switches" where
  "set_symbol_halt i val sw = sw\<lparr>ks_blocked_symbols := (ks_blocked_symbols sw)(unat i mod 1024 := val)\<rparr>"

definition circuit_breaker_validate :: "risk_switches \<Rightarrow> bool" where
  "circuit_breaker_validate sw \<longleftrightarrow>
     (let state = cb_status sw in \<not> (state = MS_Halt \<or> state = MS_VolatilityHalt))"

definition set_status :: "market_status \<Rightarrow> risk_switches \<Rightarrow> risk_switches" where
  "set_status state sw = sw\<lparr>cb_status := state\<rparr>"

section \<open>\<open>DuplicateValidator\<close>\<close>

type_synonym duplicate_validator = "nat \<Rightarrow> u64"

definition check_duplicate :: "u64 \<Rightarrow> duplicate_validator \<Rightarrow> bool \<times> duplicate_validator" where
  "check_duplicate client_order_id seen_ids =
     (if client_order_id = 0 then (True, seen_ids)
      else let slot = unat client_order_id mod 4096
           in if seen_ids slot = client_order_id then (False, seen_ids)
              else (True, seen_ids(slot := client_order_id)))"

definition duplicates_reset :: duplicate_validator where
  "duplicates_reset = (\<lambda>i. 0)"

section \<open>\<open>RateLimitValidator\<close>\<close>

definition WINDOW_SIZE :: nat where "WINDOW_SIZE = 100"

record tracker =
  tr_timestamps :: "nat \<Rightarrow> u64"
  tr_index :: u64
  tr_count :: u64

type_synonym rate_limit_validator = "nat \<Rightarrow> tracker"

definition tracker_new :: tracker where
  "tracker_new = \<lparr>tr_timestamps = (\<lambda>i. 0), tr_index = 0, tr_count = 0\<rparr>"

text \<open>\<open>check_rate\<close> on the tracker of the account; sizes are \<open>size_t\<close>, the limit is widened.\<close>

definition tracker_check :: "u64 \<Rightarrow> u32 \<Rightarrow> tracker \<Rightarrow> bool \<times> tracker" where
  "tracker_check now limit tr =
     (if tr_count tr < ucast limit then
        (True, tr\<lparr>tr_timestamps := (tr_timestamps tr)(unat (tr_index tr) := now),
                  tr_index := (tr_index tr + 1) mod of_nat WINDOW_SIZE, tr_count := tr_count tr + 1\<rparr>)
      else
        let oldest_index = (tr_index tr + of_nat WINDOW_SIZE - ucast limit) mod of_nat WINDOW_SIZE;
            oldest = tr_timestamps tr (unat oldest_index)
        in if now - oldest < 1000000000 then (False, tr)
           else (True, tr\<lparr>tr_timestamps := (tr_timestamps tr)(unat (tr_index tr) := now),
                          tr_index := (tr_index tr + 1) mod of_nat WINDOW_SIZE\<rparr>))"

definition check_rate :: "u32 \<Rightarrow> u64 \<Rightarrow> u32 \<Rightarrow> rate_limit_validator \<Rightarrow> bool \<times> rate_limit_validator" where
  "check_rate account now limit trackers =
     (if limit = 0 then (True, trackers)
      else let slot = unat account mod 1024;
               (ok, tr) = tracker_check now limit (trackers slot)
           in (ok, trackers(slot := tr)))"

definition rate_limits_reset :: rate_limit_validator where
  "rate_limits_reset = (\<lambda>a. tracker_new)"

section \<open>Fat finger, price band, self trade\<close>

definition fat_finger_validate :: "risk_context \<Rightarrow> risk_limits \<Rightarrow> bool" where
  "fat_finger_validate ctx limits \<longleftrightarrow>
     (if rl_max_order_qty limits > 0 \<and> units (rc_qty ctx) > rl_max_order_qty limits then False
      else if sint (rl_max_order_price limits) > 0 \<and> sint (ticks (rc_price ctx)) > sint (rl_max_order_price limits) then False
      else True)"

text \<open>\<open>Price::to_double\<close>: the conversion and the division are each rounded.\<close>

definition to_double :: "(rat \<Rightarrow> rat) \<Rightarrow> price \<Rightarrow> rat" where
  "to_double rnd p = rnd (rnd (of_int (sint (ticks p))) / of_int price_SCALE)"

definition price_band_validate :: "(rat \<Rightarrow> rat) \<Rightarrow> risk_context \<Rightarrow> risk_limits \<Rightarrow> bool" where
  "price_band_validate rnd ctx limits \<longleftrightarrow>
     (if ticks (rc_reference_price ctx) = 0 then True
      else let ref = to_double rnd (rc_reference_price ctx);
               tolerance = rl_price_band_tolerance limits;
               upper_limit = rnd (ref * rnd (1 + tolerance));
               lower_limit = rnd (ref * rnd (1 - tolerance));
               order_price = to_double rnd (rc_price ctx)
           in \<not> (order_price > upper_limit \<or> order_price < lower_limit))"

definition stp_validate :: bool where
  "stp_validate = True"

section \<open>\<open>MarginManager\<close>\<close>

type_synonym margin_manager = "nat \<Rightarrow> nat \<Rightarrow> position_state"

definition margin_validate :: "risk_context \<Rightarrow> position_state \<Rightarrow> bool" where
  "margin_validate ctx position \<longleftrightarrow>
     (let trade_qty = units (rc_qty ctx);
          next_net = (if rc_side ctx = Buy then ps_net_qty position + trade_qty else ps_net_qty position - trade_qty)
      in if sint next_net > 0 \<and> ps_max_long_limit position > 0 \<and> next_net > ps_max_long_limit position then False
         else if sint next_net < 0 \<and> ps_max_short_limit position > 0 \<and> - next_net > ps_max_short_limit position then False
         else True)"

definition get_position_state :: "u32 \<Rightarrow> u32 \<Rightarrow> margin_manager \<Rightarrow> position_state \<times> margin_manager" where
  "get_position_state account symbol m =
     (let a = unat account mod 128; s = unat symbol mod 32; state = m a s;
          state1 = (if ps_account_id state = 0 \<and> ps_symbol_id state = 0
                    then state\<lparr>ps_account_id := account, ps_symbol_id := symbol\<rparr> else state)
      in (state1, m(a := (m a)(s := state1))))"

definition margin_update_on_fill :: "u32 \<Rightarrow> u32 \<Rightarrow> side \<Rightarrow> u64 \<Rightarrow> margin_manager \<Rightarrow> margin_manager" where
  "margin_update_on_fill account symbol sd qty m =
     (let (state, m1) = get_position_state account symbol m;
          state1 = (if sd = Buy then state\<lparr>ps_long_qty := ps_long_qty state + qty\<rparr>
                    else state\<lparr>ps_short_qty := ps_short_qty state + qty\<rparr>);
          state2 = state1\<lparr>ps_net_qty := ps_long_qty state1 - ps_short_qty state1,
                          ps_gross_qty := ps_long_qty state1 + ps_short_qty state1\<rparr>;
          a = unat account mod 128; s = unat symbol mod 32
      in m1(a := (m1 a)(s := state2)))"

definition margin_reset :: margin_manager where
  "margin_reset = (\<lambda>a s. \<lparr>ps_net_qty = 0, ps_long_qty = 0, ps_short_qty = 0, ps_gross_qty = 0,
     ps_max_long_limit = 1000000000, ps_max_short_limit = 1000000000,
     ps_symbol_id = of_nat s, ps_account_id = of_nat a, ps_last_update_ts = 0\<rparr>)"

section \<open>\<open>CreditManager\<close>\<close>

type_synonym credit_manager = "nat \<Rightarrow> account_state"

text \<open>The cost of an order: the signed ticks are converted to unsigned, the product wraps.\<close>

definition order_cost :: "price \<Rightarrow> quantity \<Rightarrow> u64" where
  "order_cost p q = (ticks p * units q) div 1000000"

definition credit_validate :: "risk_context \<Rightarrow> risk_limits \<Rightarrow> account_state \<Rightarrow> bool" where
  "credit_validate ctx limits account \<longleftrightarrow>
     (let cost = order_cost (rc_price ctx) (rc_qty ctx)
      in if cost > as_available_buying_power account then False
         else if rl_max_daily_exposure limits > 0 \<and> as_daily_exposure account + cost > rl_max_daily_exposure limits then False
         else True)"

definition get_account_state :: "u32 \<Rightarrow> credit_manager \<Rightarrow> account_state \<times> credit_manager" where
  "get_account_state account m =
     (let i = unat account mod 1024; state = m i;
          state1 = (if as_account_id state = 0 then state\<lparr>as_account_id := ucast account\<rparr> else state)
      in (state1, m(i := state1)))"

definition put_account_state :: "u32 \<Rightarrow> account_state \<Rightarrow> credit_manager \<Rightarrow> credit_manager" where
  "put_account_state account state m = m(unat account mod 1024 := state)"

definition credit_update_on_accept :: "u32 \<Rightarrow> u64 \<Rightarrow> credit_manager \<Rightarrow> credit_manager" where
  "credit_update_on_accept account cost m =
     (let (state, m1) = get_account_state account m
      in if as_available_buying_power state \<ge> cost
         then put_account_state account
                (state\<lparr>as_available_buying_power := as_available_buying_power state - cost,
                       as_reserved_capital := as_reserved_capital state + cost\<rparr>) m1
         else m1)"

definition credit_update_on_fill :: "u32 \<Rightarrow> u64 \<Rightarrow> credit_manager \<Rightarrow> credit_manager" where
  "credit_update_on_fill account cost m =
     (let (state, m1) = get_account_state account m;
          state1 =
            (if as_reserved_capital state \<ge> cost
             then state\<lparr>as_reserved_capital := as_reserved_capital state - cost\<rparr>
             else let remainder = cost - as_reserved_capital state;
                      state0 = state\<lparr>as_reserved_capital := 0\<rparr>
                  in if as_available_buying_power state0 \<ge> remainder
                     then state0\<lparr>as_available_buying_power := as_available_buying_power state0 - remainder\<rparr>
                     else state0)
      in put_account_state account
           (state1\<lparr>as_used_buying_power := as_used_buying_power state1 + cost,
                   as_daily_exposure := as_daily_exposure state1 + cost\<rparr>) m1)"

definition credit_update_on_cancel :: "u32 \<Rightarrow> u64 \<Rightarrow> credit_manager \<Rightarrow> credit_manager" where
  "credit_update_on_cancel account cost m =
     (let (state, m1) = get_account_state account m
      in if as_reserved_capital state \<ge> cost
         then put_account_state account
                (state\<lparr>as_reserved_capital := as_reserved_capital state - cost,
                       as_available_buying_power := as_available_buying_power state + cost\<rparr>) m1
         else m1)"

definition credit_reset :: credit_manager where
  "credit_reset = (\<lambda>i. \<lparr>as_available_buying_power = 1000000000000000, as_used_buying_power = 0,
     as_reserved_capital = 0, as_daily_exposure = 0, as_worst_case_loss = 0,
     as_open_margin_requirement = 0, as_collateral_value = 0, as_account_id = of_nat i\<rparr>)"

section \<open>The pipeline\<close>

record pipeline_context =
  pc_credit :: credit_manager
  pc_margin :: margin_manager
  pc_duplicates :: duplicate_validator
  pc_rate_limits :: rate_limit_validator

record policy =
  pol_name :: string
  pol_reject_reason :: reject_reason
  pol_validate :: "risk_context \<Rightarrow> risk_limits \<Rightarrow> risk_switches \<Rightarrow> pipeline_context \<Rightarrow> bool \<times> pipeline_context"

definition KillSwitchPolicy :: policy where
  "KillSwitchPolicy = \<lparr>pol_name = ''KillSwitch'', pol_reject_reason = RiskLimitExceeded,
     pol_validate = (\<lambda>ctx limits sw pc. (kill_switch_validate ctx limits sw, pc))\<rparr>"

definition CircuitBreakerPolicy :: policy where
  "CircuitBreakerPolicy = \<lparr>pol_name = ''CircuitBreaker'', pol_reject_reason = RiskLimitExceeded,
     pol_validate = (\<lambda>ctx limits sw pc. (circuit_breaker_validate sw, pc))\<rparr>"

definition DuplicatePolicy :: policy where
  "DuplicatePolicy = \<lparr>pol_name = ''DuplicateCheck'', pol_reject_reason = DuplicateOrder,
     pol_validate = (\<lambda>ctx limits sw pc.
       let (ok, d) = check_duplicate (rc_client_order_id ctx) (pc_duplicates pc) in (ok, pc\<lparr>pc_duplicates := d\<rparr>))\<rparr>"

definition RateLimitPolicy :: policy where
  "RateLimitPolicy = \<lparr>pol_name = ''RateLimit'', pol_reject_reason = RiskLimitExceeded,
     pol_validate = (\<lambda>ctx limits sw pc.
       let (ok, r) = check_rate (get_id (rc_account_id ctx)) (rc_timestamp ctx) (rl_max_orders_per_sec limits) (pc_rate_limits pc)
       in (ok, pc\<lparr>pc_rate_limits := r\<rparr>))\<rparr>"

definition FatFingerPolicy :: policy where
  "FatFingerPolicy = \<lparr>pol_name = ''FatFinger'', pol_reject_reason = InvalidQuantity,
     pol_validate = (\<lambda>ctx limits sw pc. (fat_finger_validate ctx limits, pc))\<rparr>"

definition PriceBandPolicy :: "(rat \<Rightarrow> rat) \<Rightarrow> policy" where
  "PriceBandPolicy rnd = \<lparr>pol_name = ''PriceBand'', pol_reject_reason = InvalidPrice,
     pol_validate = (\<lambda>ctx limits sw pc. (price_band_validate rnd ctx limits, pc))\<rparr>"

definition STPPolicy :: policy where
  "STPPolicy = \<lparr>pol_name = ''SelfTrade'', pol_reject_reason = RiskLimitExceeded,
     pol_validate = (\<lambda>ctx limits sw pc. (stp_validate, pc))\<rparr>"

definition PositionPolicy :: policy where
  "PositionPolicy = \<lparr>pol_name = ''PositionLimit'', pol_reject_reason = RiskLimitExceeded,
     pol_validate = (\<lambda>ctx limits sw pc.
       let (pos, m) = get_position_state (get_id (rc_account_id ctx)) (get_id (rc_symbol_id ctx)) (pc_margin pc)
       in (margin_validate ctx pos, pc\<lparr>pc_margin := m\<rparr>))\<rparr>"

definition CreditPolicy :: policy where
  "CreditPolicy = \<lparr>pol_name = ''CreditLimit'', pol_reject_reason = RiskLimitExceeded,
     pol_validate = (\<lambda>ctx limits sw pc.
       let (acc, m) = get_account_state (get_id (rc_account_id ctx)) (pc_credit pc)
       in (credit_validate ctx limits acc, pc\<lparr>pc_credit := m\<rparr>))\<rparr>"

text \<open>The fold over the policies with short-circuit \<open>&&\<close>; \<open>Inl\<close> carries the reject reason.\<close>

definition validate_policy ::
  "policy \<Rightarrow> risk_context \<Rightarrow> risk_limits \<Rightarrow> risk_switches \<Rightarrow> pipeline_context \<times> risk_result \<times> risk_trace \<Rightarrow>
   bool \<times> pipeline_context \<times> risk_result \<times> risk_trace" where
  "validate_policy p ctx limits sw st =
     (let (pc, res, trace) = st;
          (ok, pc1) = pol_validate p ctx limits sw pc;
          trace1 = add_stage (pol_name p) 0 (if ok then RiskAccept else RiskReject) trace
      in if \<not> ok then (False, pc1, res\<lparr>rr_reason := pol_reject_reason p\<rparr>, trace1)
         else (True, pc1, res, trace1))"

fun run_policies ::
  "policy list \<Rightarrow> risk_context \<Rightarrow> risk_limits \<Rightarrow> risk_switches \<Rightarrow> pipeline_context \<times> risk_result \<times> risk_trace \<Rightarrow>
   bool \<times> pipeline_context \<times> risk_result \<times> risk_trace" where
  "run_policies [] ctx limits sw st = (True, st)"
| "run_policies (p # ps) ctx limits sw st =
     (let (ok, st1) = validate_policy p ctx limits sw st
      in if ok then run_policies ps ctx limits sw st1 else (False, st1))"

definition PreTradeRiskPipeline :: "(rat \<Rightarrow> rat) \<Rightarrow> policy list" where
  "PreTradeRiskPipeline rnd = [KillSwitchPolicy, CircuitBreakerPolicy, DuplicatePolicy, RateLimitPolicy,
     FatFingerPolicy, PriceBandPolicy rnd, STPPolicy, PositionPolicy, CreditPolicy]"

definition pipeline_validate ::
  "policy list \<Rightarrow> u64 \<Rightarrow> u64 \<Rightarrow> risk_context \<Rightarrow> risk_limits \<Rightarrow> risk_switches \<Rightarrow> pipeline_context \<times> risk_trace \<Rightarrow>
   risk_result \<times> pipeline_context \<times> risk_trace" where
  "pipeline_validate ps start finish ctx limits sw st =
     (let (pc, trace) = st;
          res = \<lparr>rr_reason = RejectNone, rr_decision = RiskAccept, rr_timestamp = 0, rr_reserve_capital = 0,
                 rr_pipeline_latency_ns = 0\<rparr>;
          (ok, pc1, res1, trace1) = run_policies ps ctx limits sw (pc, res, trace)
      in (res1\<lparr>rr_decision := (if ok then RiskAccept else RiskReject), rr_timestamp := finish,
               rr_pipeline_latency_ns := finish - start\<rparr>, pc1, trace1))"

section \<open>\<open>RiskEngine\<close>\<close>

record risk_engine =
  re_limits :: risk_limits
  re_stats :: risk_statistics
  re_context :: pipeline_context

text \<open>The counter of the stage that rejected, found in the trace.\<close>

fun count_stage_reject :: "risk_trace \<Rightarrow> risk_statistics \<Rightarrow> risk_statistics" where
  "count_stage_reject [] st = st"
| "count_stage_reject (s # ss) st =
     (if ts_decision s = RiskReject then
        let name = ts_stage_name s in
        if name = ''KillSwitch'' then st\<lparr>rs_kill_switch_rejects := rs_kill_switch_rejects st + 1\<rparr>
        else if name = ''CircuitBreaker'' then st\<lparr>rs_circuit_breaker_rejects := rs_circuit_breaker_rejects st + 1\<rparr>
        else if name = ''RateLimit'' then st\<lparr>rs_rate_limit_rejects := rs_rate_limit_rejects st + 1\<rparr>
        else if name = ''SelfTrade'' then st\<lparr>rs_stp_rejects := rs_stp_rejects st + 1\<rparr>
        else if name = ''PositionLimit'' then st\<lparr>rs_position_rejects := rs_position_rejects st + 1\<rparr>
        else if name = ''CreditLimit'' then st\<lparr>rs_credit_rejects := rs_credit_rejects st + 1\<rparr>
        else st
      else count_stage_reject ss st)"

definition count_reject :: "reject_reason \<Rightarrow> risk_trace \<Rightarrow> risk_statistics \<Rightarrow> risk_statistics" where
  "count_reject reason trace st =
     (if reason = DuplicateOrder then st\<lparr>rs_duplicate_rejects := rs_duplicate_rejects st + 1\<rparr>
      else if reason = InvalidPrice then st\<lparr>rs_price_band_rejects := rs_price_band_rejects st + 1\<rparr>
      else if reason = InvalidQuantity then st\<lparr>rs_fat_finger_rejects := rs_fat_finger_rejects st + 1\<rparr>
      else if reason = RiskLimitExceeded then count_stage_reject trace st
      else st)"

text \<open>\<open>start_time\<close>, \<open>pstart\<close>, \<open>pend\<close> and \<open>end_time\<close> are the four readings of the clock.\<close>

definition risk_validate ::
  "(rat \<Rightarrow> rat) \<Rightarrow> u64 \<Rightarrow> u64 \<Rightarrow> u64 \<Rightarrow> u64 \<Rightarrow> risk_context \<Rightarrow> risk_switches \<Rightarrow> risk_trace \<Rightarrow> risk_engine \<Rightarrow>
   (reject_reason + risk_result) \<times> risk_trace \<times> risk_engine" where
  "risk_validate rnd start_time pstart pend end_time ctx sw trace e =
     (let (res, pc, trace1) = pipeline_validate (PreTradeRiskPipeline rnd) pstart pend ctx (re_limits e) sw (re_context e, trace);
          st = re_stats e
      in if rr_decision res = RiskAccept then
           let st1 = st\<lparr>rs_accepted_count := rs_accepted_count st + 1\<rparr>;
               cost = order_cost (rc_price ctx) (rc_qty ctx);
               pc1 = pc\<lparr>pc_credit := credit_update_on_accept (get_id (rc_account_id ctx)) cost (pc_credit pc)\<rparr>
           in (Inr res, trace1, e\<lparr>re_context := pc1, re_stats := risk_record_latency (end_time - start_time) st1\<rparr>)
         else
           let st1 = st\<lparr>rs_rejected_count := rs_rejected_count st + 1\<rparr>;
               st2 = count_reject (rr_reason res) trace1 st1
           in (Inl (rr_reason res), trace1,
               e\<lparr>re_context := pc, re_stats := risk_record_latency (end_time - start_time) st2\<rparr>))"

definition risk_update_on_fill :: "u32 \<Rightarrow> u32 \<Rightarrow> side \<Rightarrow> u64 \<Rightarrow> u64 \<Rightarrow> risk_engine \<Rightarrow> risk_engine" where
  "risk_update_on_fill account symbol sd qty price_ticks e =
     (let pc = re_context e;
          pc1 = pc\<lparr>pc_margin := margin_update_on_fill account symbol sd qty (pc_margin pc)\<rparr>
      in e\<lparr>re_context := pc1\<lparr>pc_credit := credit_update_on_fill account (qty * price_ticks) (pc_credit pc1)\<rparr>\<rparr>)"

definition risk_update_on_cancel :: "u32 \<Rightarrow> u64 \<Rightarrow> risk_engine \<Rightarrow> risk_engine" where
  "risk_update_on_cancel account cost e =
     e\<lparr>re_context := (re_context e)\<lparr>pc_credit := credit_update_on_cancel account cost (pc_credit (re_context e))\<rparr>\<rparr>"

text \<open>The limits that \<open>reset\<close> sets; 0.10 is the double nearest to one tenth.\<close>

definition default_limits :: "(rat \<Rightarrow> rat) \<Rightarrow> risk_limits" where
  "default_limits rnd = \<lparr>rl_max_credit_limit = 1000000000000000, rl_max_daily_exposure = 2000000000000000,
     rl_max_order_qty = 10000000000, rl_max_order_price = 500000000000, rl_price_band_tolerance = rnd (1 / 10),
     rl_stp_mode = STP_CancelNew, rl_max_orders_per_sec = 100, rl_kill_switch_active = False\<rparr>"

definition risk_reset :: "(rat \<Rightarrow> rat) \<Rightarrow> risk_switches \<Rightarrow> risk_engine \<Rightarrow> risk_switches \<times> risk_engine" where
  "risk_reset rnd sw e =
     (let sw1 = set_global_halt False sw;
          sw2 = fold (\<lambda>i sw. set_symbol_halt (of_nat i) False (set_account_halt (of_nat i) False sw)) [0..<1024] sw1
      in (set_status MS_Trading sw2,
          \<lparr>re_limits = default_limits rnd, re_stats = risk_stats_new,
           re_context = \<lparr>pc_credit = credit_reset, pc_margin = margin_reset,
             pc_duplicates = duplicates_reset, pc_rate_limits = rate_limits_reset\<rparr>\<rparr>))"

text \<open>The constructor resets: the engine it leaves, and the switches, which all engines share.\<close>

definition risk_engine_new :: "(rat \<Rightarrow> rat) \<Rightarrow> risk_engine" where
  "risk_engine_new rnd = \<lparr>re_limits = default_limits rnd, re_stats = risk_stats_new,
     re_context = \<lparr>pc_credit = credit_reset, pc_margin = margin_reset,
       pc_duplicates = duplicates_reset, pc_rate_limits = rate_limits_reset\<rparr>\<rparr>"

definition switches_after_new :: "(rat \<Rightarrow> rat) \<Rightarrow> risk_switches \<Rightarrow> risk_switches" where
  "switches_after_new rnd sw = fst (risk_reset rnd sw (risk_engine_new rnd))"

end
