(* ===== verification/Risk_Properties.thy ===== *)
theory Risk_Properties
  imports Risk
begin

text \<open>What the pre-trade checks of \<open>risk/\<close> guarantee: the sliding window of the rate limit, the
  memory of the duplicate check, the decision of the pipeline, the movements of money on accept,
  fill and cancel, and the price band.\<close>

section \<open>The rate limit is a sliding window\<close>











section \<open>Duplicates\<close>

abbreviation dup_slot :: "u64 \<Rightarrow> nat" where
  "dup_slot i \<equiv> unat i mod 4096"

definition seen_after :: "u64 list \<Rightarrow> duplicate_validator" where
  "seen_after ids = fold (\<lambda>i d. snd (check_duplicate i d)) ids duplicates_reset"

text \<open>A slot holds the last id that was checked and belongs there.\<close>

lemma seen_after_snoc: "seen_after (ids @ [i]) = (if i = 0 then seen_after ids else (seen_after ids)(dup_slot i := i))"
  by (auto simp: seen_after_def check_duplicate_def Let_def)

lemma seen_after_last:
  "i \<noteq> 0 \<Longrightarrow> seen_after ids (dup_slot i) = i \<longleftrightarrow>
     (\<exists>ids1 ids2. ids = ids1 @ i # ids2 \<and> (\<forall>k \<in> set ids2. k = 0 \<or> dup_slot k \<noteq> dup_slot i))"
proof (induction ids rule: rev_induct)
  case Nil
  then show ?case
    by (simp add: seen_after_def duplicates_reset_def)
next
  case (snoc j ids)
  show ?case
  proof (cases "j \<noteq> 0 \<and> dup_slot j = dup_slot i")
    case True
    then have "seen_after (ids @ [j]) (dup_slot i) = j"
      by (simp add: seen_after_snoc)
    moreover have "(\<exists>ids1 ids2. ids @ [j] = ids1 @ i # ids2 \<and> (\<forall>k \<in> set ids2. k = 0 \<or> dup_slot k \<noteq> dup_slot i)) \<longleftrightarrow> j = i"
    proof
      assume "\<exists>ids1 ids2. ids @ [j] = ids1 @ i # ids2 \<and> (\<forall>k \<in> set ids2. k = 0 \<or> dup_slot k \<noteq> dup_slot i)"
      then obtain ids1 ids2 where eq: "ids @ [j] = ids1 @ i # ids2" and "\<forall>k \<in> set ids2. k = 0 \<or> dup_slot k \<noteq> dup_slot i"
        by blast
      with True show "j = i"
        by (cases ids2 rule: rev_cases) auto
    next
      assume "j = i"
      then have "ids @ [j] = ids @ i # [] \<and> (\<forall>k \<in> set []. k = 0 \<or> dup_slot k \<noteq> dup_slot i)"
        by simp
      then show "\<exists>ids1 ids2. ids @ [j] = ids1 @ i # ids2 \<and> (\<forall>k \<in> set ids2. k = 0 \<or> dup_slot k \<noteq> dup_slot i)"
        by blast
    qed
    ultimately show ?thesis
      by simp
  next
    case False
    then have "seen_after (ids @ [j]) (dup_slot i) = seen_after ids (dup_slot i)"
      by (auto simp: seen_after_snoc)
    moreover have "j \<noteq> i"
      using False snoc.prems by auto
    have "(\<exists>ids1 ids2. ids @ [j] = ids1 @ i # ids2 \<and> (\<forall>k \<in> set ids2. k = 0 \<or> dup_slot k \<noteq> dup_slot i)) \<longleftrightarrow>
        (\<exists>ids1 ids2. ids = ids1 @ i # ids2 \<and> (\<forall>k \<in> set ids2. k = 0 \<or> dup_slot k \<noteq> dup_slot i))" (is "?L \<longleftrightarrow> ?R")
    proof
      assume ?L
      then obtain ids1 ids2 where eq: "ids @ [j] = ids1 @ i # ids2" and all: "\<forall>k \<in> set ids2. k = 0 \<or> dup_slot k \<noteq> dup_slot i"
        by blast
      with \<open>j \<noteq> i\<close> obtain ids3 where "ids2 = ids3 @ [j]" "ids = ids1 @ i # ids3"
        by (cases ids2 rule: rev_cases) auto
      with all show ?R
        by auto
    next
      assume ?R
      then obtain ids1 ids2 where "ids = ids1 @ i # ids2" and "\<forall>k \<in> set ids2. k = 0 \<or> dup_slot k \<noteq> dup_slot i"
        by blast
      with False have "ids @ [j] = ids1 @ i # (ids2 @ [j]) \<and> (\<forall>k \<in> set (ids2 @ [j]). k = 0 \<or> dup_slot k \<noteq> dup_slot i)"
        by auto
      then show ?L
        by blast
    qed
    ultimately show ?thesis
      using snoc by simp
  qed
qed

text \<open>When an id counts as duplicate: exactly when it is not zero, was checked before, and no
  other id of the same slot (modulo 4096) has been checked since. There are no false alarms; an
  id is forgotten when another id takes its slot.\<close>

theorem duplicate_check_exact:
  "fst (check_duplicate i (seen_after ids)) = False \<longleftrightarrow>
     i \<noteq> 0 \<and> (\<exists>ids1 ids2. ids = ids1 @ i # ids2 \<and> (\<forall>k \<in> set ids2. k = 0 \<or> unat k mod 4096 \<noteq> unat i mod 4096))"
  using seen_after_last [of i ids] by (auto simp: check_duplicate_def Let_def)

theorem duplicate_check_exact_witness:
  "fst (check_duplicate 1 (seen_after [1, 2])) = False \<and> fst (check_duplicate 1 (seen_after [1, 4097])) = True"
proof -
  have "[1, 2] = [] @ 1 # [2 :: u64]" "\<forall>k \<in> set [2 :: u64]. k = 0 \<or> unat k mod 4096 \<noteq> unat (1 :: u64) mod 4096"
    by simp_all
  then have "fst (check_duplicate 1 (seen_after [1, 2])) = False"
    using duplicate_check_exact [of 1 "[1, 2]"] by (metis zero_neq_one)
  moreover have "fst (check_duplicate 1 (seen_after [1, 4097])) = True"
    by (simp add: seen_after_def check_duplicate_def duplicates_reset_def)
  ultimately show ?thesis
    by blast
qed

section \<open>The pipeline\<close>

text \<open>The checks touch different parts of the context, so each can be read off the state before
  the validation.\<close>

definition first_reject :: "(rat \<Rightarrow> rat) \<Rightarrow> risk_context \<Rightarrow> risk_switches \<Rightarrow> risk_engine \<Rightarrow> reject_reason option" where
  "first_reject rnd ctx sw e =
     (let limits = re_limits e; pc = re_context e; a = get_id (rc_account_id ctx) in
      if \<not> kill_switch_validate ctx limits sw then Some RiskLimitExceeded
      else if \<not> circuit_breaker_validate sw then Some RiskLimitExceeded
      else if \<not> fst (check_duplicate (rc_client_order_id ctx) (pc_duplicates pc)) then Some DuplicateOrder
      else if \<not> fst (check_rate a (rc_timestamp ctx) (rl_max_orders_per_sec limits) (pc_rate_limits pc)) then Some RiskLimitExceeded
      else if \<not> fat_finger_validate ctx limits then Some InvalidQuantity
      else if \<not> price_band_validate rnd ctx limits then Some InvalidPrice
      else if \<not> margin_validate ctx (fst (get_position_state a (get_id (rc_symbol_id ctx)) (pc_margin pc))) then Some RiskLimitExceeded
      else if \<not> credit_validate ctx limits (fst (get_account_state a (pc_credit pc))) then Some RiskLimitExceeded
      else None)"

lemmas policy_defs = KillSwitchPolicy_def CircuitBreakerPolicy_def DuplicatePolicy_def RateLimitPolicy_def
  FatFingerPolicy_def PriceBandPolicy_def STPPolicy_def PositionPolicy_def CreditPolicy_def

lemma run_policies_step:
  "run_policies (p # ps) ctx limits sw (pc, res, trace) =
     (if fst (pol_validate p ctx limits sw pc)
      then run_policies ps ctx limits sw (snd (pol_validate p ctx limits sw pc), res, add_stage (pol_name p) 0 RiskAccept trace)
      else (False, snd (pol_validate p ctx limits sw pc), res\<lparr>rr_reason := pol_reject_reason p\<rparr>,
        add_stage (pol_name p) 0 RiskReject trace))"
  by (simp add: validate_policy_def case_prod_unfold)

lemma policy_eval:
  "pol_validate KillSwitchPolicy ctx limits sw pc = (kill_switch_validate ctx limits sw, pc)"
  "pol_validate CircuitBreakerPolicy ctx limits sw pc = (circuit_breaker_validate sw, pc)"
  "pol_validate DuplicatePolicy ctx limits sw pc =
     (fst (check_duplicate (rc_client_order_id ctx) (pc_duplicates pc)),
      pc\<lparr>pc_duplicates := snd (check_duplicate (rc_client_order_id ctx) (pc_duplicates pc))\<rparr>)"
  "pol_validate RateLimitPolicy ctx limits sw pc =
     (fst (check_rate (get_id (rc_account_id ctx)) (rc_timestamp ctx) (rl_max_orders_per_sec limits) (pc_rate_limits pc)),
      pc\<lparr>pc_rate_limits := snd (check_rate (get_id (rc_account_id ctx)) (rc_timestamp ctx) (rl_max_orders_per_sec limits) (pc_rate_limits pc))\<rparr>)"
  "pol_validate FatFingerPolicy ctx limits sw pc = (fat_finger_validate ctx limits, pc)"
  "pol_validate (PriceBandPolicy rnd) ctx limits sw pc = (price_band_validate rnd ctx limits, pc)"
  "pol_validate STPPolicy ctx limits sw pc = (True, pc)"
  "pol_validate PositionPolicy ctx limits sw pc =
     (margin_validate ctx (fst (get_position_state (get_id (rc_account_id ctx)) (get_id (rc_symbol_id ctx)) (pc_margin pc))),
      pc\<lparr>pc_margin := snd (get_position_state (get_id (rc_account_id ctx)) (get_id (rc_symbol_id ctx)) (pc_margin pc))\<rparr>)"
  "pol_validate CreditPolicy ctx limits sw pc =
     (credit_validate ctx limits (fst (get_account_state (get_id (rc_account_id ctx)) (pc_credit pc))),
      pc\<lparr>pc_credit := snd (get_account_state (get_id (rc_account_id ctx)) (pc_credit pc))\<rparr>)"
  by (simp_all add: policy_defs stp_validate_def case_prod_unfold Let_def)

lemma policy_reasons:
  "pol_reject_reason KillSwitchPolicy = RiskLimitExceeded" "pol_reject_reason CircuitBreakerPolicy = RiskLimitExceeded"
  "pol_reject_reason DuplicatePolicy = DuplicateOrder" "pol_reject_reason RateLimitPolicy = RiskLimitExceeded"
  "pol_reject_reason FatFingerPolicy = InvalidQuantity" "pol_reject_reason (PriceBandPolicy rnd) = InvalidPrice"
  "pol_reject_reason STPPolicy = RiskLimitExceeded" "pol_reject_reason PositionPolicy = RiskLimitExceeded"
  "pol_reject_reason CreditPolicy = RiskLimitExceeded"
  by (simp_all add: policy_defs)

lemma pipeline_decision:
  assumes "run_policies (PreTradeRiskPipeline rnd) ctx (re_limits e) sw (re_context e, res, trace) = (ok, pc, res1, trace1)"
  shows "ok \<longleftrightarrow> first_reject rnd ctx sw e = None"
    and "ok \<Longrightarrow> res1 = res"
    and "first_reject rnd ctx sw e = Some r \<Longrightarrow> rr_reason res1 = r"
    and "ok \<Longrightarrow> pc_credit pc = snd (get_account_state (get_id (rc_account_id ctx)) (pc_credit (re_context e)))"
    and "pc_credit pc = pc_credit (re_context e) \<or>
      pc_credit pc = snd (get_account_state (get_id (rc_account_id ctx)) (pc_credit (re_context e)))"
    and "kill_switch_validate ctx (re_limits e) sw \<Longrightarrow> circuit_breaker_validate sw \<Longrightarrow>
      pc_duplicates pc = snd (check_duplicate (rc_client_order_id ctx) (pc_duplicates (re_context e)))"
  using assms unfolding PreTradeRiskPipeline_def run_policies_step policy_eval
  by (auto simp: first_reject_def Let_def policy_reasons split: if_splits)

lemma get_account_state_money:
  "as_available_buying_power (snd (get_account_state a m) i) = as_available_buying_power (m i)"
  "as_reserved_capital (snd (get_account_state a m) i) = as_reserved_capital (m i)"
  "as_used_buying_power (snd (get_account_state a m) i) = as_used_buying_power (m i)"
  "as_daily_exposure (snd (get_account_state a m) i) = as_daily_exposure (m i)"
  by (auto simp: get_account_state_def Let_def)

lemma get_account_state_fst: "fst (get_account_state a m) = snd (get_account_state a m) (unat a mod 1024)"
  by (simp add: get_account_state_def Let_def)

lemma get_account_state_twice: "get_account_state a (snd (get_account_state a m)) = get_account_state a m"
  by (auto simp: get_account_state_def Let_def)

lemma risk_validate_result:
  "fst (risk_validate rnd t0 t1 t2 t3 ctx sw trace e) =
     (case first_reject rnd ctx sw e of
        Some r \<Rightarrow> Inl r
      | None \<Rightarrow> Inr \<lparr>rr_reason = RejectNone, rr_decision = RiskAccept, rr_timestamp = t2,
                    rr_reserve_capital = 0, rr_pipeline_latency_ns = t2 - t1\<rparr>)"
proof -
  let ?res = "\<lparr>rr_reason = RejectNone, rr_decision = RiskAccept, rr_timestamp = 0, rr_reserve_capital = 0,
    rr_pipeline_latency_ns = 0\<rparr>"
  obtain ok pc res1 trace1 where run: "run_policies (PreTradeRiskPipeline rnd) ctx (re_limits e) sw
      (re_context e, ?res, trace) = (ok, pc, res1, trace1)"
    by (metis prod_cases4)
  show ?thesis
  proof (cases "first_reject rnd ctx sw e")
    case None
    then have "ok" "res1 = ?res"
      using pipeline_decision(1,2) [OF run] by auto
    with None run show ?thesis
      by (simp add: risk_validate_def pipeline_validate_def Let_def)
  next
    case (Some r)
    then have "\<not> ok" "rr_reason res1 = r"
      using pipeline_decision(1,3) [OF run] by auto
    with Some run show ?thesis
      by (simp add: risk_validate_def pipeline_validate_def Let_def)
  qed
qed

text \<open>C20. What a validation decides: the order is accepted exactly when every check passes, and
  otherwise rejected with the reason of the first check that fails, in the order of the
  pipeline.\<close>

theorem risk_validate_decides:
  "fst (risk_validate rnd t0 t1 t2 t3 ctx sw trace e) =
     (case first_reject rnd ctx sw e of
        Some r \<Rightarrow> Inl r
      | None \<Rightarrow> Inr \<lparr>rr_reason = RejectNone, rr_decision = RiskAccept, rr_timestamp = t2,
                    rr_reserve_capital = 0, rr_pipeline_latency_ns = t2 - t1\<rparr>)"
  by (rule risk_validate_result)

lemma risk_validate_context:
  assumes "risk_validate rnd t0 t1 t2 t3 ctx sw trace e = (r, trace', e')"
  shows "re_limits e' = re_limits e"
    and "\<not> isl r \<Longrightarrow> pc_credit (re_context e') = credit_update_on_accept (get_id (rc_account_id ctx))
      (order_cost (rc_price ctx) (rc_qty ctx)) (snd (get_account_state (get_id (rc_account_id ctx)) (pc_credit (re_context e))))"
    and "isl r \<Longrightarrow> pc_credit (re_context e') = pc_credit (re_context e) \<or>
      pc_credit (re_context e') = snd (get_account_state (get_id (rc_account_id ctx)) (pc_credit (re_context e)))"
    and "kill_switch_validate ctx (re_limits e) sw \<Longrightarrow> circuit_breaker_validate sw \<Longrightarrow>
      pc_duplicates (re_context e') = snd (check_duplicate (rc_client_order_id ctx) (pc_duplicates (re_context e)))"
proof -
  let ?res = "\<lparr>rr_reason = RejectNone, rr_decision = RiskAccept, rr_timestamp = 0, rr_reserve_capital = 0,
    rr_pipeline_latency_ns = 0\<rparr>"
  obtain ok pc res1 trace1 where run: "run_policies (PreTradeRiskPipeline rnd) ctx (re_limits e) sw
      (re_context e, ?res, trace) = (ok, pc, res1, trace1)"
    by (metis prod_cases4)
  have "re_limits e' = re_limits e \<and> pc_duplicates (re_context e') = pc_duplicates pc \<and>
    pc_credit (re_context e') = (if ok then credit_update_on_accept (get_id (rc_account_id ctx))
       (order_cost (rc_price ctx) (rc_qty ctx)) (pc_credit pc) else pc_credit pc) \<and> (isl r \<longleftrightarrow> \<not> ok)"
    using assms run by (cases ok) (auto simp: risk_validate_def pipeline_validate_def Let_def)
  then show "re_limits e' = re_limits e"
    and "\<not> isl r \<Longrightarrow> pc_credit (re_context e') = credit_update_on_accept (get_id (rc_account_id ctx))
      (order_cost (rc_price ctx) (rc_qty ctx)) (snd (get_account_state (get_id (rc_account_id ctx)) (pc_credit (re_context e))))"
    and "isl r \<Longrightarrow> pc_credit (re_context e') = pc_credit (re_context e) \<or>
      pc_credit (re_context e') = snd (get_account_state (get_id (rc_account_id ctx)) (pc_credit (re_context e)))"
    and "kill_switch_validate ctx (re_limits e) sw \<Longrightarrow> circuit_breaker_validate sw \<Longrightarrow>
      pc_duplicates (re_context e') = snd (check_duplicate (rc_client_order_id ctx) (pc_duplicates (re_context e)))"
    using pipeline_decision(4-6) [OF run] by auto
qed

abbreviation account_of :: "risk_context \<Rightarrow> risk_engine \<Rightarrow> account_state" where
  "account_of ctx e \<equiv> pc_credit (re_context e) (unat (get_id (rc_account_id ctx)) mod 1024)"

lemma credit_on_accept:
  assumes "cost \<le> as_available_buying_power (m (unat a mod 1024))"
  shows "as_available_buying_power (credit_update_on_accept a cost m (unat a mod 1024)) =
      as_available_buying_power (m (unat a mod 1024)) - cost"
    and "as_reserved_capital (credit_update_on_accept a cost m (unat a mod 1024)) =
      as_reserved_capital (m (unat a mod 1024)) + cost"
  using assms by (simp_all add: credit_update_on_accept_def get_account_state_def put_account_state_def Let_def)


text \<open>C22. A rejected order moves no money: the buying power, the reserved and used capital and the
  exposure of every account stay as they were.\<close>

theorem rejected_moves_no_money:
  assumes "risk_validate rnd t0 t1 t2 t3 ctx sw trace e = (Inl reason, trace', e')"
  shows "as_available_buying_power (pc_credit (re_context e') i) = as_available_buying_power (pc_credit (re_context e) i) \<and>
    as_reserved_capital (pc_credit (re_context e') i) = as_reserved_capital (pc_credit (re_context e) i) \<and>
    as_used_buying_power (pc_credit (re_context e') i) = as_used_buying_power (pc_credit (re_context e) i) \<and>
    as_daily_exposure (pc_credit (re_context e') i) = as_daily_exposure (pc_credit (re_context e) i)"
proof -
  have "pc_credit (re_context e') = pc_credit (re_context e) \<or>
      pc_credit (re_context e') = snd (get_account_state (get_id (rc_account_id ctx)) (pc_credit (re_context e)))"
    using risk_validate_context(3) [OF assms] by simp
  then show ?thesis
    by (auto simp: get_account_state_money)
qed

text \<open>C24. The id of a rejected order is used up: when the duplicate check has been passed and a
  later check rejects, submitting the same id again is rejected as a duplicate.\<close>

theorem rejected_id_is_used_up:
  assumes "risk_validate rnd t0 t1 t2 t3 ctx sw trace e = (Inl reason, trace', e')"
    and "rc_client_order_id ctx' = rc_client_order_id ctx" and "rc_client_order_id ctx \<noteq> 0"
    and "kill_switch_validate ctx (re_limits e) sw" and "circuit_breaker_validate sw"
    and "kill_switch_validate ctx' (re_limits e) sw'" and "circuit_breaker_validate sw'"
  shows "fst (risk_validate rnd t4 t5 t6 t7 ctx' sw' trace2 e') = Inl DuplicateOrder"
proof -
  have "pc_duplicates (re_context e') = snd (check_duplicate (rc_client_order_id ctx) (pc_duplicates (re_context e)))"
    and limits: "re_limits e' = re_limits e"
    using risk_validate_context [OF assms(1)] assms(4,5) by simp_all
  then have "\<not> fst (check_duplicate (rc_client_order_id ctx') (pc_duplicates (re_context e')))"
    using assms(2,3) by (simp add: check_duplicate_def Let_def)
  then have "first_reject rnd ctx' sw' e' = Some DuplicateOrder"
    using assms(6,7) limits by (simp add: first_reject_def Let_def)
  then show ?thesis
    by (simp add: risk_validate_result)
qed

section \<open>Sample validations\<close>

definition sample_risk_ctx :: "u64 \<Rightarrow> s64 \<Rightarrow> u64 \<Rightarrow> risk_context" where
  "sample_risk_ctx i p q = \<lparr>rc_order_id = StrongId i, rc_price = Price p, rc_qty = Quantity q, rc_timestamp = 5,
     rc_reference_price = Price 0, rc_client_order_id = i, rc_symbol_id = StrongId 1, rc_client_id = StrongId 1,
     rc_account_id = StrongId 9, rc_side = Buy, rc_type = Limit\<rparr>"

definition switches_off :: risk_switches where
  "switches_off = \<lparr>ks_global_halt = False, ks_blocked_accounts = (\<lambda>_. False), ks_blocked_symbols = (\<lambda>_. False),
     cb_status = MS_Trading\<rparr>"

lemmas risk_eval = sample_risk_ctx_def switches_off_def risk_engine_new_def default_limits_def first_reject_def
  kill_switch_validate_def circuit_breaker_validate_def check_duplicate_def duplicates_reset_def
  check_rate_def tracker_check_def rate_limits_reset_def tracker_new_def WINDOW_SIZE_def fat_finger_validate_def
  price_band_validate_def margin_validate_def get_position_state_def margin_reset_def credit_validate_def
  get_account_state_def credit_reset_def order_cost_def

lemma sample_accept: "first_reject rnd (sample_risk_ctx 7 1000000 1000000) switches_off (risk_engine_new rnd) = None"
  by (simp add: risk_eval Let_def)

lemma sample_reject: "first_reject rnd (sample_risk_ctx 7 1000000 20000000000) switches_off (risk_engine_new rnd) = Some InvalidQuantity"
  by (simp add: risk_eval Let_def)


theorem rejected_moves_no_money_witness:
  "\<exists>trace' e'. risk_validate id 0 1 2 3 (sample_risk_ctx 7 1000000 20000000000) switches_off [] (risk_engine_new id) =
       (Inl InvalidQuantity, trace', e') \<and>
     as_available_buying_power (pc_credit (re_context e') 9) = 1000000000000000"
proof -
  let ?c = "sample_risk_ctx 7 1000000 20000000000"
  obtain r trace' e' where run: "risk_validate id 0 1 2 3 ?c switches_off [] (risk_engine_new id) = (r, trace', e')"
    by (metis prod_cases3)
  moreover have "r = Inl InvalidQuantity"
    using risk_validate_result [of id 0 1 2 3 ?c switches_off "[]" "risk_engine_new id"] run by (simp add: sample_reject)
  moreover have "as_available_buying_power (pc_credit (re_context (risk_engine_new id)) 9) = 1000000000000000"
    by (simp add: risk_engine_new_def credit_reset_def)
  ultimately show ?thesis
    using rejected_moves_no_money [of id 0 1 2 3 ?c switches_off "[]" "risk_engine_new id" InvalidQuantity trace' e' 9] by auto
qed

theorem rejected_id_is_used_up_witness:
  "\<exists>trace' e'. risk_validate id 0 1 2 3 (sample_risk_ctx 7 1000000 20000000000) switches_off [] (risk_engine_new id) =
       (Inl InvalidQuantity, trace', e') \<and>
     fst (risk_validate id 4 5 6 7 (sample_risk_ctx 7 1000000 1000000) switches_off [] e') = Inl DuplicateOrder"
proof -
  let ?c = "sample_risk_ctx 7 1000000 20000000000" and ?c' = "sample_risk_ctx 7 1000000 1000000"
  obtain r trace' e' where run: "risk_validate id 0 1 2 3 ?c switches_off [] (risk_engine_new id) = (r, trace', e')"
    by (metis prod_cases3)
  moreover have "r = Inl InvalidQuantity"
    using risk_validate_result [of id 0 1 2 3 ?c switches_off "[]" "risk_engine_new id"] run by (simp add: sample_reject)
  moreover have "rc_client_order_id ?c' = rc_client_order_id ?c" "rc_client_order_id ?c \<noteq> 0"
    "kill_switch_validate ?c (re_limits (risk_engine_new id)) switches_off" "circuit_breaker_validate switches_off"
    "kill_switch_validate ?c' (re_limits (risk_engine_new id)) switches_off"
    by (simp_all add: risk_eval)
  ultimately show ?thesis
    using rejected_id_is_used_up [of id 0 1 2 3 ?c switches_off "[]" "risk_engine_new id" InvalidQuantity trace' e' ?c' switches_off 4 5 6 7 "[]"]
    by auto
qed

section \<open>Credit\<close>

lemma credit_accept_slot:
  assumes "cost \<le> as_available_buying_power (m (unat a mod 1024))"
  shows "as_daily_exposure (credit_update_on_accept a cost m i) = as_daily_exposure (m i)"
    and "i \<noteq> unat a mod 1024 \<Longrightarrow> credit_update_on_accept a cost m i = m i"
  using assms by (simp_all add: credit_update_on_accept_def get_account_state_def put_account_state_def Let_def)

lemma credit_on_cancel:
  assumes "cost \<le> as_reserved_capital (m (unat a mod 1024))"
  shows "as_available_buying_power (credit_update_on_cancel a cost m (unat a mod 1024)) =
      as_available_buying_power (m (unat a mod 1024)) + cost"
    and "as_reserved_capital (credit_update_on_cancel a cost m (unat a mod 1024)) =
      as_reserved_capital (m (unat a mod 1024)) - cost"
    and "i \<noteq> unat a mod 1024 \<Longrightarrow> credit_update_on_cancel a cost m i = m i"
  using assms by (simp_all add: credit_update_on_cancel_def get_account_state_def put_account_state_def Let_def)

lemma credit_on_fill:
  assumes "acc = m (unat a mod 1024)" and "acc' = credit_update_on_fill a cost m (unat a mod 1024)"
  shows "as_reserved_capital acc' = (if cost \<le> as_reserved_capital acc then as_reserved_capital acc - cost else 0)"
    and "as_available_buying_power acc' =
      (if cost \<le> as_reserved_capital acc \<or> \<not> cost - as_reserved_capital acc \<le> as_available_buying_power acc
       then as_available_buying_power acc
       else as_available_buying_power acc - (cost - as_reserved_capital acc))"
    and "as_used_buying_power acc' = as_used_buying_power acc + cost"
    and "as_daily_exposure acc' = as_daily_exposure acc + cost"
    and "i \<noteq> unat a mod 1024 \<Longrightarrow> credit_update_on_fill a cost m i = m i"
  by (simp_all add: assms credit_update_on_fill_def get_account_state_def put_account_state_def Let_def)

text \<open>Reserving the cost of an order and releasing it on cancellation restores the buying
  power and the reserved capital of every account.\<close>

theorem reserve_cancel_roundtrip:
  assumes "cost \<le> as_available_buying_power (m (unat a mod 1024))"
    and "unat (as_reserved_capital (m (unat a mod 1024))) + unat cost < 2 ^ 64"
  shows "as_available_buying_power (credit_update_on_cancel a cost (credit_update_on_accept a cost m) i) =
      as_available_buying_power (m i) \<and>
    as_reserved_capital (credit_update_on_cancel a cost (credit_update_on_accept a cost m) i) =
      as_reserved_capital (m i)"
proof -
  let ?m = "credit_update_on_accept a cost m"
  have "cost \<le> as_reserved_capital (?m (unat a mod 1024))"
    using assms(2) by (simp add: credit_on_accept(2) [of cost m a, OF assms(1)] word_le_nat_alt unat_word_ariths)
  note c = credit_on_cancel [of cost ?m a, OF this]
  show ?thesis
  proof (cases "i = unat a mod 1024")
    case True
    then show ?thesis
      by (simp add: c(1,2) credit_on_accept [of cost m a, OF assms(1)])
  next
    case False
    then show ?thesis
      by (simp add: c(3) credit_accept_slot(2) [of cost m a, OF assms(1)])
  qed
qed

theorem reserve_cancel_roundtrip_witness:
  "as_available_buying_power (credit_update_on_cancel 9 500 (credit_update_on_accept 9 500 credit_reset) 9) = 1000000000000000"
proof -
  have "as_available_buying_power (credit_reset i) = 1000000000000000" "as_reserved_capital (credit_reset i) = 0" for i
    by (simp_all add: credit_reset_def)
  then show ?thesis
    using reserve_cancel_roundtrip [of 500 credit_reset 9 9] by (simp add: word_le_nat_alt)
qed

text \<open>A fill whose cost is covered by reserved capital and buying power moves money and makes
  none: available, reserved and used capital add up to what they were, reserved capital is spent
  first, and the exposure of the day grows by the cost. Other accounts are untouched.\<close>

theorem fill_conserves_money:
  assumes "unat cost \<le> unat (as_reserved_capital acc) + unat (as_available_buying_power acc)"
    and "acc = m (unat a mod 1024)" and "acc' = credit_update_on_fill a cost m (unat a mod 1024)"
  shows "as_available_buying_power acc' + as_reserved_capital acc' + as_used_buying_power acc' =
      as_available_buying_power acc + as_reserved_capital acc + as_used_buying_power acc \<and>
    as_reserved_capital acc' = (if cost \<le> as_reserved_capital acc then as_reserved_capital acc - cost else 0) \<and>
    as_daily_exposure acc' = as_daily_exposure acc + cost \<and>
    (i \<noteq> unat a mod 1024 \<longrightarrow> credit_update_on_fill a cost m i = m i)"
proof -
  have "cost - as_reserved_capital acc \<le> as_available_buying_power acc" if "\<not> cost \<le> as_reserved_capital acc"
  proof -
    have "as_reserved_capital acc \<le> cost"
      using that by simp
    then show ?thesis
      using assms(1) by (simp add: word_le_nat_alt unat_sub)
  qed
  then show ?thesis
    using credit_on_fill [OF assms(2,3)] by (cases "cost \<le> as_reserved_capital acc") simp_all
qed

theorem fill_conserves_money_witness:
  "as_reserved_capital (credit_update_on_fill 9 300 (credit_update_on_accept 9 500 credit_reset) 9) = 200"
proof -
  have r: "as_available_buying_power (credit_reset i) = 1000000000000000" "as_reserved_capital (credit_reset i) = 0" for i
    by (simp_all add: credit_reset_def)
  define m where "m = credit_update_on_accept 9 500 credit_reset"
  have "as_reserved_capital (m 9) = 500"
    using credit_on_accept(2) [of 500 credit_reset 9] by (simp add: r m_def word_le_nat_alt)
  then show ?thesis
    using fill_conserves_money [of 300 "m 9" m 9 "credit_update_on_fill 9 300 m 9"] by (simp add: word_le_nat_alt m_def)
qed

lemma accepted_cost:
  assumes "risk_validate rnd t0 t1 t2 t3 ctx sw trace e = (Inr res, trace', e')"
  shows "order_cost (rc_price ctx) (rc_qty ctx) \<le> as_available_buying_power (account_of ctx e)"
proof -
  have "first_reject rnd ctx sw e = None"
    using assms risk_validate_result [of rnd t0 t1 t2 t3 ctx sw trace e] by (auto split: option.splits)
  then have "credit_validate ctx (re_limits e)
      (fst (get_account_state (get_id (rc_account_id ctx)) (pc_credit (re_context e))))"
    by (auto simp: first_reject_def Let_def split: if_splits)
  then show ?thesis
    by (simp add: credit_validate_def Let_def not_less get_account_state_fst get_account_state_money split: if_splits)
qed

text \<open>C25. A fill is charged without the scaling that the reservation uses: after a complete fill at
  the order's own price the exposure of the account has grown by price times quantity, although
  \<open>validate\<close> reserved that product divided by a million.\<close>

theorem fill_charged_unscaled:
  assumes "risk_validate rnd t0 t1 t2 t3 ctx sw trace e = (Inr res, trace', e1)"
    and "e2 = risk_update_on_fill (get_id (rc_account_id ctx)) (get_id (rc_symbol_id ctx)) (rc_side ctx)
      (units (rc_qty ctx)) (ticks (rc_price ctx)) e1"
  shows "as_daily_exposure (account_of ctx e2) =
      as_daily_exposure (account_of ctx e) + ticks (rc_price ctx) * units (rc_qty ctx) \<and>
    as_reserved_capital (account_of ctx e1) =
      as_reserved_capital (account_of ctx e) + (ticks (rc_price ctx) * units (rc_qty ctx)) div 1000000"
proof -
  let ?a = "get_id (rc_account_id ctx)" and ?c = "order_cost (rc_price ctx) (rc_qty ctx)"
  let ?m = "snd (get_account_state ?a (pc_credit (re_context e)))"
  have cr: "pc_credit (re_context e1) = credit_update_on_accept ?a ?c ?m"
    using risk_validate_context(2) [OF assms(1)] by simp
  have le: "?c \<le> as_available_buying_power (?m (unat ?a mod 1024))"
    using accepted_cost [OF assms(1)] by (simp add: get_account_state_money)
  have "pc_credit (re_context e2) =
      credit_update_on_fill ?a (units (rc_qty ctx) * ticks (rc_price ctx)) (pc_credit (re_context e1))"
    by (simp add: assms(2) risk_update_on_fill_def Let_def)
  then have "as_daily_exposure (account_of ctx e2) =
      as_daily_exposure (account_of ctx e1) + units (rc_qty ctx) * ticks (rc_price ctx)"
    using credit_on_fill(4) [OF refl refl, of ?a "units (rc_qty ctx) * ticks (rc_price ctx)" "pc_credit (re_context e1)"] by simp
  moreover have "as_daily_exposure (account_of ctx e1) = as_daily_exposure (account_of ctx e)"
    unfolding cr by (simp add: credit_accept_slot(1) [of ?c ?m ?a, OF le] get_account_state_money)
  moreover have "as_reserved_capital (account_of ctx e1) = as_reserved_capital (account_of ctx e) + ?c"
    unfolding cr by (simp add: credit_on_accept(2) [of ?c ?m ?a, OF le] get_account_state_money)
  ultimately show ?thesis
    by (simp add: order_cost_def mult.commute)
qed

text \<open>One million units at a million ticks: a million is reserved, and the fill costs 10^12.\<close>

theorem fill_charged_unscaled_witness:
  "\<exists>res trace' e1. risk_validate id 0 1 2 3 (sample_risk_ctx 7 1000000 1000000) switches_off [] (risk_engine_new id) =
       (Inr res, trace', e1) \<and>
     as_reserved_capital (account_of (sample_risk_ctx 7 1000000 1000000) e1) = 1000000 \<and>
     as_daily_exposure (account_of (sample_risk_ctx 7 1000000 1000000) (risk_update_on_fill 9 1 Buy 1000000 1000000 e1)) = 1000000000000"
proof -
  let ?c = "sample_risk_ctx 7 1000000 1000000"
  obtain r trace' e1 where run: "risk_validate id 0 1 2 3 ?c switches_off [] (risk_engine_new id) = (r, trace', e1)"
    by (metis prod_cases3)
  moreover obtain res where "r = Inr res"
    using risk_validate_result [of id 0 1 2 3 ?c switches_off "[]" "risk_engine_new id"] run by (simp add: sample_accept)
  moreover have "as_daily_exposure (account_of ?c (risk_engine_new id)) = 0" "as_reserved_capital (account_of ?c (risk_engine_new id)) = 0"
    and "get_id (rc_account_id ?c) = 9" "get_id (rc_symbol_id ?c) = 1" "rc_side ?c = Buy" "units (rc_qty ?c) = 1000000"
      "ticks (rc_price ?c) = 1000000"
    by (simp_all add: risk_eval)
  ultimately show ?thesis
    using fill_charged_unscaled [of id 0 1 2 3 ?c switches_off "[]" "risk_engine_new id" res trace' e1, OF _ refl] by simp
qed

section \<open>The price band\<close>

text \<open>What rounding to double precision guarantees: it is monotone, leaves representable numbers
  alone, and represents zero and the small powers of one half.\<close>

definition rounding :: "(rat \<Rightarrow> rat) \<Rightarrow> bool" where
  "rounding rnd \<longleftrightarrow> mono rnd \<and> (\<forall>x. rnd (rnd x) = rnd x) \<and> rnd 0 = 0 \<and> (\<forall>k\<le>30. rnd (1 / 2 ^ k) = 1 / 2 ^ k)"

lemma rounding_mono: "rounding rnd \<Longrightarrow> x \<le> y \<Longrightarrow> rnd x \<le> rnd y"
  by (simp add: rounding_def mono_def)

lemma rounding_fixed: "rounding rnd \<Longrightarrow> rnd (rnd x) = rnd x" "rounding rnd \<Longrightarrow> rnd 0 = 0"
  by (simp_all add: rounding_def)



lemma rounding_pos: "rounding rnd \<Longrightarrow> 0 \<le> x \<Longrightarrow> 0 \<le> rnd x"
  using rounding_mono [of rnd 0 x] by (simp add: rounding_fixed)





end
