(* ===== verification/Kernel.thy ===== *)
theory Kernel
  imports Prelude "HOL-Library.AList" "HOL-Library.Multiset"
begin

text \<open>
  The kernel of \<open>kernel/\<close>: the module interface, the dependency resolver, the lifecycle, the health
  monitor, the thread manager, the service registry and the event bus. The implementations of
  the module interface are not part of the kernel: a module is a record of its answers and of
  its lifecycle functions, which act on a world of type \<open>'w\<close>. An \<open>unordered_map\<close> is an association
  list in the order of its iteration; where a second map over the same keys may iterate
  differently, its order is an argument.
\<close>

section \<open>Modules\<close>

datatype module_id = Mod_Kernel | Mod_Config | Mod_Clock | Mod_Logger | Mod_EventBus | Mod_Scheduler
  | Mod_ThreadManager | Mod_HealthMonitor | Mod_Risk | Mod_OrderBook | Mod_Matching | Mod_Router
  | Mod_Network | Mod_Storage | Mod_Simulator | Mod_Replay

datatype module_state = Created | Initializing | Configured | Starting | Running | Paused | Stopping
  | Stopped | Shutdown | Failed

datatype health_status = Healthy | Degraded | Unhealthy

text \<open>\<open>IModule\<close>; a fallible method answers \<open>Inl\<close> of its error text or \<open>Inr ()\<close>.\<close>

type_synonym 'w lifecycle = "'w \<Rightarrow> (string + unit) \<times> 'w"

record 'w imodule =
  im_id :: module_id
  im_name :: string
  im_dependencies :: "module_id list"
  im_state :: "'w \<Rightarrow> module_state"
  im_check_health :: "'w \<Rightarrow> health_status"
  im_initialize :: "'w lifecycle"
  im_configure :: "'w lifecycle"
  im_start :: "'w lifecycle"
  im_pause :: "'w lifecycle"
  im_resume :: "'w lifecycle"
  im_stop :: "'w lifecycle"
  im_shutdown :: "'w lifecycle"

text \<open>A pointer to a module, null or not, under its id.\<close>

type_synonym 'w module_map = "(module_id \<times> 'w imodule option) list"

text \<open>The error texts of the kernel, one constructor each.\<close>

datatype kernel_error =
    NullModule
  | SelfDependency module_id
  | MissingDependency module_id module_id
  | CyclicDependency
  | AlreadyRegistered module_id
  | ResolutionFailed kernel_error
  | FailedToInitialize string string
  | FailedToConfigure string string
  | FailedToStart string string
  | WorkerExists string

section \<open>Dependency resolution\<close>

text \<open>The adjacency lists (a missing entry is an empty list) and the in-degrees. A \<open>size_t\<close> counter is
  a natural number: it counts the entries of lists in memory, and no zero is ever decremented.\<close>

type_synonym dependency_graph = "(module_id \<Rightarrow> module_id list) \<times> (module_id \<Rightarrow> nat)"

fun add_dependencies :: "module_id list \<Rightarrow> module_id \<Rightarrow> module_id list \<Rightarrow> dependency_graph \<Rightarrow>
    kernel_error + dependency_graph" where
  "add_dependencies ids i [] g = Inr g"
| "add_dependencies ids i (dep # deps) (adj, deg) =
     (if dep = i then Inl (SelfDependency i)
      else if dep \<notin> set ids then Inl (MissingDependency i dep)
      else add_dependencies ids i deps (adj(dep := adj dep @ [i]), deg(i := deg i + 1)))"

fun build_graph :: "module_id list \<Rightarrow> 'w module_map \<Rightarrow> dependency_graph \<Rightarrow> kernel_error + dependency_graph" where
  "build_graph ids [] g = Inr g"
| "build_graph ids ((i, None) # ms) g = Inl NullModule"
| "build_graph ids ((i, Some m) # ms) g =
     (case add_dependencies ids i (im_dependencies m) g of
        Inl e \<Rightarrow> Inl e
      | Inr g' \<Rightarrow> build_graph ids ms g')"

fun relax_neighbors :: "module_id list \<Rightarrow> module_id list \<Rightarrow> (module_id \<Rightarrow> nat) \<Rightarrow> module_id list \<times> (module_id \<Rightarrow> nat)" where
  "relax_neighbors [] q deg = (q, deg)"
| "relax_neighbors (n # ns) q deg =
     (let deg' = deg(n := deg n - 1)
      in relax_neighbors ns (if deg' n = 0 then q @ [n] else q) deg')"

partial_function (option) kahn ::
  "(module_id \<Rightarrow> module_id list) \<Rightarrow> module_id list \<Rightarrow> (module_id \<Rightarrow> nat) \<Rightarrow> module_id list \<Rightarrow> module_id list run" where
  "kahn adj q deg order =
     (case q of
        [] \<Rightarrow> ret order
      | cur # rest \<Rightarrow>
          let (q', deg') = relax_neighbors (adj cur) rest deg
          in kahn adj q' deg' (order @ [cur]))"

text \<open>\<open>degree_order\<close> is the order in which the map of in-degrees is iterated.\<close>

definition resolve :: "module_id list \<Rightarrow> 'w module_map \<Rightarrow> (kernel_error + module_id list) run" where
  "resolve degree_order modules =
     (case build_graph (map fst modules) modules (\<lambda>_. [], \<lambda>_. 0) of
        Inl e \<Rightarrow> ret (Inl e)
      | Inr (adj, deg) \<Rightarrow>
          bind_run (kahn adj (filter (\<lambda>i. deg i = 0) degree_order) deg []) (\<lambda>order.
            if length order \<noteq> length modules then ret (Inl CyclicDependency)
            else ret (Inr order)))"

section \<open>Health monitor\<close>

record module_health_info =
  hi_id :: module_id
  hi_name :: string
  hi_state :: module_state
  hi_health :: health_status
  hi_last_heartbeat_time :: u64

type_synonym health_monitor = "(module_id \<times> module_health_info) list"

text \<open>\<open>stats_[module_id]\<close> creates a missing entry with the default values of the struct.\<close>

definition health_entry :: "module_id \<Rightarrow> health_monitor \<Rightarrow> module_health_info" where
  "health_entry i h = (case map_of h i of Some info \<Rightarrow> info
     | None \<Rightarrow> \<lparr>hi_id = Mod_Kernel, hi_name = [], hi_state = Created, hi_health = Healthy, hi_last_heartbeat_time = 0\<rparr>)"

definition record_heartbeat :: "u64 \<Rightarrow> module_id \<Rightarrow> health_monitor \<Rightarrow> health_monitor" where
  "record_heartbeat now i h =
     AList.update i ((health_entry i h)\<lparr>hi_id := i, hi_last_heartbeat_time := now\<rparr>) h"

definition update_status :: "module_id \<Rightarrow> module_state \<Rightarrow> health_status \<Rightarrow> health_monitor \<Rightarrow> health_monitor" where
  "update_status i st hs h = AList.update i ((health_entry i h)\<lparr>hi_id := i, hi_state := st, hi_health := hs\<rparr>) h"

definition has_critical_failures :: "health_monitor \<Rightarrow> bool" where
  "has_critical_failures h \<longleftrightarrow> list_ex (\<lambda>(i, info). hi_state info = Failed \<or> hi_health info = Unhealthy) h"

definition get_health_report :: "health_monitor \<Rightarrow> module_health_info list" where
  "get_health_report h = map snd h"

section \<open>Thread manager\<close>

text \<open>Thread ids are numbers; the id of a new thread is chosen by the operating system and is an
  argument. \<open>join_all\<close> is modelled from the point where the joined threads have ended.\<close>

record worker_stats =
  ws_name :: string
  ws_thread_id :: nat
  ws_core_id :: s32
  ws_is_active :: bool

record thread_manager =
  tm_threads :: "nat list"
  tm_workers :: "(string \<times> worker_stats) list"

definition spawn_worker :: "string \<Rightarrow> s32 \<Rightarrow> nat \<Rightarrow> thread_manager \<Rightarrow> (kernel_error + nat) \<times> thread_manager" where
  "spawn_worker name core tid tm =
     (if map_of (tm_workers tm) name \<noteq> None then (Inl (WorkerExists name), tm)
      else (Inr tid,
        tm\<lparr>tm_threads := tm_threads tm @ [tid],
           tm_workers := AList.update name \<lparr>ws_name = name, ws_thread_id = tid, ws_core_id = core, ws_is_active = True\<rparr> (tm_workers tm)\<rparr>))"

definition join_all :: "thread_manager \<Rightarrow> thread_manager" where
  "join_all tm = tm\<lparr>tm_threads := [], tm_workers := map (\<lambda>(n, s). (n, s\<lparr>ws_is_active := False\<rparr>)) (tm_workers tm)\<rparr>"

definition get_stats :: "thread_manager \<Rightarrow> worker_stats list" where
  "get_stats tm = map snd (tm_workers tm)"

section \<open>Service registry and event bus\<close>

text \<open>Types are named by strings, services are pointers.\<close>

type_synonym service_registry = "string \<rightharpoonup> addr"

definition register_service :: "string \<Rightarrow> addr \<Rightarrow> service_registry \<Rightarrow> service_registry" where
  "register_service ty service r = r(ty \<mapsto> service)"

definition get_service :: "string \<Rightarrow> service_registry \<Rightarrow> addr option" where
  "get_service ty r = r ty"

datatype system_heartbeat_event = SystemHeartbeatEvent u64
datatype system_shutdown_event = SystemShutdownEvent u64

text \<open>The subscribers of one event type, in the order of their subscriptions.\<close>

type_synonym ('e, 'w) callbacks = "('e \<Rightarrow> 'w \<Rightarrow> 'w) list"

record 'w event_bus =
  eb_heartbeat :: "(system_heartbeat_event, 'w) callbacks"
  eb_shutdown :: "(system_shutdown_event, 'w) callbacks"

definition subscribe :: "('e \<Rightarrow> 'w \<Rightarrow> 'w) \<Rightarrow> ('e, 'w) callbacks \<Rightarrow> ('e, 'w) callbacks" where
  "subscribe cb cbs = cbs @ [cb]"

definition publish :: "'e \<Rightarrow> ('e, 'w) callbacks \<Rightarrow> 'w \<Rightarrow> 'w" where
  "publish ev cbs w = fold (\<lambda>cb. cb ev) cbs w"

section \<open>The kernel\<close>

record 'w kernel =
  k_registry :: service_registry
  k_modules :: "'w module_map"
  k_startup_order :: "module_id list"
  k_thread_manager :: thread_manager
  k_health_monitor :: health_monitor
  k_event_bus :: "'w event_bus"
  k_shutdown_requested :: bool

text \<open>The constructor registers the three core services, which live at the given addresses.\<close>

definition kernel_new :: "addr \<Rightarrow> addr \<Rightarrow> addr \<Rightarrow> 'w kernel" where
  "kernel_new tm hm eb =
     \<lparr>k_registry = register_service ''EventBus'' eb (register_service ''HealthMonitor'' hm
        (register_service ''ThreadManager'' tm (\<lambda>_. None))),
      k_modules = [], k_startup_order = [], k_thread_manager = \<lparr>tm_threads = [], tm_workers = []\<rparr>,
      k_health_monitor = [], k_event_bus = \<lparr>eb_heartbeat = [], eb_shutdown = []\<rparr>, k_shutdown_requested = False\<rparr>"

definition handle_signal :: "int \<Rightarrow> 'w kernel \<Rightarrow> 'w kernel" where
  "handle_signal signal k = (if signal = 2 \<or> signal = 15 then k\<lparr>k_shutdown_requested := True\<rparr> else k)"

definition register_module :: "'w imodule \<Rightarrow> 'w kernel \<Rightarrow> (kernel_error + unit) \<times> 'w kernel" where
  "register_module m k =
     (if im_id m \<in> set (map fst (k_modules k)) then (Inl (AlreadyRegistered (im_id m)), k)
      else (Inr (), k\<lparr>k_modules := (im_id m, Some m) # k_modules k\<rparr>))"

abbreviation set_status_of :: "module_id \<Rightarrow> module_state \<Rightarrow> health_status \<Rightarrow> 'w kernel \<Rightarrow> 'w kernel" where
  "set_status_of i st hs k \<equiv> k\<lparr>k_health_monitor := update_status i st hs (k_health_monitor k)\<rparr>"

text \<open>\<open>modules_[id]\<close> followed by a dereference.\<close>

definition module_at :: "module_id \<Rightarrow> 'w kernel \<Rightarrow> 'w imodule run" where
  "module_at i k = (case map_of (k_modules k) i of Some (Some m) \<Rightarrow> ret m | _ \<Rightarrow> fail NullDeref)"

fun initialize_modules :: "module_id list \<Rightarrow> 'w kernel \<Rightarrow> 'w \<Rightarrow> ((kernel_error + unit) \<times> 'w kernel \<times> 'w) run" where
  "initialize_modules [] k w = ret (Inr (), k, w)"
| "initialize_modules (i # is) k w =
     bind_run (module_at i k) (\<lambda>m.
       let k1 = set_status_of i Initializing Healthy k
       in case im_initialize m w of
            (Inl err, w') \<Rightarrow> ret (Inl (FailedToInitialize (im_name m) err), set_status_of i Failed Unhealthy k1, w')
          | (Inr _, w') \<Rightarrow> initialize_modules is (set_status_of i Configured Healthy k1) w')"

text \<open>The pointers are copied into a map of their own: \<open>ptr_order\<close> gives that map in the order of its
  iteration and \<open>degree_order\<close> is the order of the in-degrees inside \<open>resolve\<close>.\<close>

definition kernel_initialize :: "('w module_map \<Rightarrow> 'w module_map) \<Rightarrow> module_id list \<Rightarrow> 'w kernel \<Rightarrow> 'w \<Rightarrow>
    ((kernel_error + unit) \<times> 'w kernel \<times> 'w) run" where
  "kernel_initialize ptr_order degree_order k w =
     bind_run (resolve degree_order (ptr_order (k_modules k))) (\<lambda>res.
       case res of
         Inl e \<Rightarrow> ret (Inl (ResolutionFailed e), k, w)
       | Inr order \<Rightarrow> initialize_modules order (k\<lparr>k_startup_order := order\<rparr>) w)"

fun configure_modules :: "module_id list \<Rightarrow> 'w kernel \<Rightarrow> 'w \<Rightarrow> ((kernel_error + unit) \<times> 'w kernel \<times> 'w) run" where
  "configure_modules [] k w = ret (Inr (), k, w)"
| "configure_modules (i # is) k w =
     bind_run (module_at i k) (\<lambda>m.
       case im_configure m w of
         (Inl err, w') \<Rightarrow> ret (Inl (FailedToConfigure (im_name m) err), set_status_of i Failed Unhealthy k, w')
       | (Inr _, w') \<Rightarrow> configure_modules is (set_status_of i Configured Healthy k) w')"

definition kernel_configure :: "'w kernel \<Rightarrow> 'w \<Rightarrow> ((kernel_error + unit) \<times> 'w kernel \<times> 'w) run" where
  "kernel_configure k w = configure_modules (k_startup_order k) k w"

text \<open>The console output is left out; \<open>clock\<close> gives the reading of the steady clock for each heartbeat.\<close>

fun start_modules :: "(module_id \<Rightarrow> u64) \<Rightarrow> module_id list \<Rightarrow> 'w kernel \<Rightarrow> 'w \<Rightarrow>
    ((kernel_error + unit) \<times> 'w kernel \<times> 'w) run" where
  "start_modules clock [] k w = ret (Inr (), k, w)"
| "start_modules clock (i # is) k w =
     bind_run (module_at i k) (\<lambda>m.
       let k1 = set_status_of i Starting Healthy k
       in case im_start m w of
            (Inl err, w') \<Rightarrow> ret (Inl (FailedToStart (im_name m) err), set_status_of i Failed Unhealthy k1, w')
          | (Inr _, w') \<Rightarrow>
              let k2 = set_status_of i Running Healthy k1
              in start_modules clock is (k2\<lparr>k_health_monitor := record_heartbeat (clock i) i (k_health_monitor k2)\<rparr>) w')"

definition kernel_start :: "(module_id \<Rightarrow> u64) \<Rightarrow> 'w kernel \<Rightarrow> 'w \<Rightarrow> ((kernel_error + unit) \<times> 'w kernel \<times> 'w) run" where
  "kernel_start clock k w = start_modules clock (k_startup_order k) k w"

text \<open>The results of \<open>stop\<close> and \<open>shutdown\<close> of a module are not looked at.\<close>

fun stop_modules :: "module_id list \<Rightarrow> 'w kernel \<Rightarrow> 'w \<Rightarrow> ('w kernel \<times> 'w) run" where
  "stop_modules [] k w = ret (k, w)"
| "stop_modules (i # is) k w =
     bind_run (module_at i k) (\<lambda>m.
       if im_state m w = Running
       then let k1 = set_status_of i Stopping Healthy k; (_, w') = im_stop m w
            in stop_modules is (set_status_of i Stopped Healthy k1) w'
       else stop_modules is k w)"

definition kernel_stop :: "'w kernel \<Rightarrow> 'w \<Rightarrow> ('w kernel \<times> 'w) run" where
  "kernel_stop k w = stop_modules (rev (k_startup_order k)) k w"

fun shutdown_modules :: "module_id list \<Rightarrow> 'w kernel \<Rightarrow> 'w \<Rightarrow> ('w kernel \<times> 'w) run" where
  "shutdown_modules [] k w = ret (k, w)"
| "shutdown_modules (i # is) k w =
     bind_run (module_at i k) (\<lambda>m.
       let (_, w') = im_shutdown m w
       in shutdown_modules is (set_status_of i Shutdown Healthy k) w')"

definition kernel_shutdown :: "'w kernel \<Rightarrow> 'w \<Rightarrow> ('w kernel \<times> 'w) run" where
  "kernel_shutdown k w =
     bind_run (shutdown_modules (rev (k_startup_order k)) k w) (\<lambda>(k', w').
       ret (k'\<lparr>k_thread_manager := join_all (k_thread_manager k')\<rparr>, w'))"

text \<open>The destructor.\<close>

definition kernel_destroy :: "'w kernel \<Rightarrow> 'w \<Rightarrow> ('w kernel \<times> 'w) run" where
  "kernel_destroy k w = bind_run (kernel_stop k w) (\<lambda>(k', w'). kernel_shutdown k' w')"

text \<open>The condition under which the polling loop of \<open>wait\<close> goes on.\<close>

definition wait_continues :: "'w kernel \<Rightarrow> bool" where
  "wait_continues k \<longleftrightarrow> \<not> k_shutdown_requested k \<and> \<not> has_critical_failures (k_health_monitor k)"

end
