(* ===== verification/Kernel_Properties.thy ===== *)
theory Kernel_Properties
  imports Kernel
begin

text \<open>
  What the kernel guarantees: dependency resolution returns a topological order exactly when there
  is one, by the invariant of its queue, and the modules start in dependency order.
\<close>

section \<open>Dependency resolution sorts topologically\<close>

definition deps_of :: "'w module_map \<Rightarrow> module_id \<Rightarrow> module_id list" where
  "deps_of ms i = (case map_of ms i of Some (Some m) \<Rightarrow> im_dependencies m | _ \<Rightarrow> [])"

definition graph_ok :: "'w module_map \<Rightarrow> bool" where
  "graph_ok ms \<longleftrightarrow> (\<forall>(i, mo) \<in> set ms. mo \<noteq> None) \<and>
     (\<forall>i \<in> fst ` set ms. set (deps_of ms i) \<subseteq> fst ` set ms - {i})"

definition dependency_rel :: "'w module_map \<Rightarrow> (module_id \<times> module_id) set" where
  "dependency_rel ms = {(d, i). i \<in> fst ` set ms \<and> d \<in> set (deps_of ms i)}"

text \<open>Every element comes after what it depends on.\<close>

definition topological :: "(module_id \<Rightarrow> module_id list) \<Rightarrow> module_id list \<Rightarrow> bool" where
  "topological D xs \<longleftrightarrow> (\<forall>i < length xs. set (D (xs ! i)) \<subseteq> set (take i xs))"

lemma topological_Nil: "topological D []"
  by (simp add: topological_def)

lemma topological_snoc: "topological D (xs @ [z]) \<longleftrightarrow> topological D xs \<and> set (D z) \<subseteq> set xs"
  by (auto simp: topological_def nth_append less_Suc_eq)

subsection \<open>The graph\<close>

lemma add_dependencies_ok:
  "(\<exists>g'. add_dependencies ids i ds g = Inr g') \<longleftrightarrow> i \<notin> set ds \<and> set ds \<subseteq> set ids"
  by (induction ids i ds g rule: add_dependencies.induct) auto

lemma add_dependencies_graph:
  assumes "add_dependencies ids i ds (adj, deg) = Inr (adj', deg')"
  shows "count_list (adj' d) j = count_list (adj d) j + (if j = i then count_list ds d else 0) \<and>
    deg' j = deg j + (if j = i then length ds else 0)"
  using assms by (induction ds arbitrary: adj deg) (auto split: if_splits)

lemma build_graph_ok:
  assumes "distinct (map fst ms)"
  shows "(\<exists>g'. build_graph ids ms g = Inr g') \<longleftrightarrow>
    (\<forall>(i, mo) \<in> set ms. mo \<noteq> None) \<and> (\<forall>i \<in> fst ` set ms. set (deps_of ms i) \<subseteq> set ids - {i})"
  using assms
proof (induction ids ms g rule: build_graph.induct)
  case (3 ids i m ms g)
  have tail: "deps_of ((i, Some m) # ms) j = deps_of ms j" if "j \<in> fst ` set ms" for j
    using that 3(2) by (auto simp: deps_of_def)
  have head: "deps_of ((i, Some m) # ms) i = im_dependencies m"
    by (simp add: deps_of_def)
  have dist: "distinct (map fst ms)"
    using 3(2) by simp
  show ?case
  proof (cases "add_dependencies ids i (im_dependencies m) g")
    case (Inl e)
    then show ?thesis
      using add_dependencies_ok [of ids i "im_dependencies m" g] by (auto simp: head)
  next
    case (Inr g')
    then have "i \<notin> set (im_dependencies m) \<and> set (im_dependencies m) \<subseteq> set ids"
      using add_dependencies_ok [of ids i "im_dependencies m" g] by auto
    then show ?thesis
      using 3(1) [OF Inr dist] Inr by (auto simp: head tail)
  qed
qed simp_all

lemma build_graph_counts:
  assumes "build_graph ids ms (adj, deg) = Inr (adj', deg')" and "distinct (map fst ms)"
  shows "count_list (adj' d) j = count_list (adj d) j + count_list (deps_of ms j) d \<and>
    deg' j = deg j + length (deps_of ms j)"
  using assms
proof (induction ms arbitrary: adj deg)
  case Nil
  then show ?case by (simp add: deps_of_def)
next
  case (Cons p ms)
  obtain i m where p: "p = (i, Some m)"
    using Cons(2) by (cases p; cases "snd p") auto
  obtain adj1 deg1 where step: "add_dependencies ids i (im_dependencies m) (adj, deg) = Inr (adj1, deg1)"
    and rest: "build_graph ids ms (adj1, deg1) = Inr (adj', deg')"
    using Cons(2) by (auto simp: p split: sum.splits)
  have "deps_of (p # ms) j = (if j = i then im_dependencies m else deps_of ms j)"
    by (simp add: deps_of_def p)
  moreover have "map_of ms i = None"
    using Cons(3) by (simp add: p map_of_eq_None_iff)
  then have "deps_of ms i = []"
    by (simp add: deps_of_def)
  ultimately show ?case
    using Cons(1) [OF rest] Cons(3) add_dependencies_graph [OF step, of d j] by (auto simp: p)
qed

subsection \<open>The loop\<close>

abbreviation missing :: "(module_id \<Rightarrow> module_id list) \<Rightarrow> module_id list \<Rightarrow> module_id \<Rightarrow> nat" where
  "missing D P j \<equiv> length (filter (\<lambda>x. x \<notin> set P) (D j))"

text \<open>\<open>P\<close> is the order so far, \<open>Q\<close> the queue and \<open>ns\<close> the neighbours still to be relaxed.\<close>

definition kahn_inv :: "(module_id \<Rightarrow> module_id list) \<Rightarrow> module_id set \<Rightarrow> module_id list \<Rightarrow> module_id list \<Rightarrow>
    module_id list \<Rightarrow> (module_id \<Rightarrow> nat) \<Rightarrow> bool" where
  "kahn_inv D V P ns Q deg \<longleftrightarrow> distinct (P @ Q) \<and> set (P @ Q) \<subseteq> V \<and>
     (\<forall>j. deg j = missing D P j + count_list ns j) \<and>
     (\<forall>j \<in> V. deg j = 0 \<longleftrightarrow> j \<in> set (P @ Q)) \<and> topological D (P @ Q)"

lemma kahn_inv_relax:
  assumes "kahn_inv D V P (n # ns) Q deg" and "n \<in> V"
  shows "kahn_inv D V P ns (if deg n - 1 = 0 then Q @ [n] else Q) (deg(n := deg n - 1))"
proof -
  have pos: "deg n \<noteq> 0" and nin: "n \<notin> set (P @ Q)"
    and deg: "\<forall>j. deg j = missing D P j + count_list (n # ns) j"
    using assms by (auto simp: kahn_inv_def)
  have "set (D n) \<subseteq> set (P @ Q)" if "deg n - 1 = 0"
  proof -
    have "missing D P n = 0"
      using that deg [rule_format, of n] by simp
    then show ?thesis
      by (auto simp: filter_empty_conv)
  qed
  then have "topological D (P @ (if deg n - 1 = 0 then Q @ [n] else Q))"
    using assms(1) topological_snoc [of D "P @ Q" n] by (simp add: kahn_inv_def)
  moreover have "\<forall>j \<in> V. (deg(n := deg n - 1)) j = 0 \<longleftrightarrow> j \<in> set (P @ (if deg n - 1 = 0 then Q @ [n] else Q))"
  proof -
    have "\<forall>j \<in> V. deg j = 0 \<longleftrightarrow> j \<in> set (P @ Q)"
      using assms(1) unfolding kahn_inv_def by blast
    then show ?thesis
      using nin by simp
  qed
  moreover have "\<forall>j. (deg(n := deg n - 1)) j = missing D P j + count_list ns j"
    using deg by simp
  moreover have "distinct (P @ Q)" "set (P @ Q) \<subseteq> V"
    using assms(1) unfolding kahn_inv_def by blast+
  then have "distinct (P @ (if deg n - 1 = 0 then Q @ [n] else Q))" "set (P @ (if deg n - 1 = 0 then Q @ [n] else Q)) \<subseteq> V"
    using nin assms(2) by simp_all
  ultimately show ?thesis
    unfolding kahn_inv_def by blast
qed

lemma relax_neighbors_inv:
  assumes "kahn_inv D V P ns Q deg" and "set ns \<subseteq> V" and "relax_neighbors ns Q deg = (Q', deg')"
  shows "kahn_inv D V P [] Q' deg'"
  using assms
proof (induction ns arbitrary: Q deg)
  case (Cons n ns)
  have n: "n \<in> V" "set ns \<subseteq> V"
    using Cons(3) by simp_all
  have "relax_neighbors ns (if deg n - 1 = 0 then Q @ [n] else Q) (deg(n := deg n - 1)) = (Q', deg')"
    using Cons(4) by (simp add: Let_def)
  then show ?case
    by (rule Cons(1) [OF kahn_inv_relax [OF Cons(2) n(1)] n(2)])
qed simp

lemma missing_step:
  assumes "c \<notin> set P"
  shows "missing D P j = missing D (P @ [c]) j + count_list (D j) c"
proof -
  have "length (filter (\<lambda>x. x \<notin> set P) xs) = length (filter (\<lambda>x. x \<notin> set (P @ [c])) xs) + count_list xs c" for xs
    using assms by (induction xs) auto
  then show ?thesis .
qed


lemma kahn_step:
  "kahn adj [] deg order = ret order"
  "kahn adj (c # q) deg order = (let (q', deg') = relax_neighbors (adj c) q deg in kahn adj q' deg' (order @ [c]))"
  by (subst kahn.simps, simp)+

lemma kahn_returns:
  assumes "kahn_inv D V P [] Q deg" and "finite V"
    and "\<forall>d j. count_list (adj d) j = count_list (D j) d" and "\<forall>d. set (adj d) \<subseteq> V"
  shows "\<exists>P' deg'. kahn adj Q deg P = ret P' \<and> kahn_inv D V P' [] [] deg'"
  using assms(1)
proof (induction "card V - length P" arbitrary: P Q deg rule: less_induct)
  case less
  show ?case
  proof (cases Q)
    case Nil
    then show ?thesis
      using less(2) by (auto simp: kahn_step)
  next
    case (Cons c rest)
    obtain Q' deg' where relax: "relax_neighbors (adj c) rest deg = (Q', deg')"
      by fastforce
    have c: "c \<notin> set P" "distinct (P @ c # rest)" "set (P @ c # rest) \<subseteq> V"
      using less(2) Cons by (auto simp: kahn_inv_def)
    have "\<forall>j. deg j = missing D (P @ [c]) j + count_list (adj c) j"
      using less(2) assms(3) missing_step [OF c(1), of D] by (simp add: kahn_inv_def)
    then have "kahn_inv D V (P @ [c]) (adj c) rest deg"
      using less(2) unfolding kahn_inv_def Cons append_assoc append.simps by blast
    then have inv: "kahn_inv D V (P @ [c]) [] Q' deg'"
      by (rule relax_neighbors_inv [OF _ assms(4) [rule_format] relax])
    have "length (P @ c # rest) \<le> card V"
      using c(2,3) assms(2) by (metis card_mono distinct_card)
    then have "card V - length (P @ [c]) < card V - length P"
      by simp
    from less(1) [OF this inv] show ?thesis
      by (simp add: Cons kahn_step relax)
  qed
qed

subsection \<open>Orders and cycles\<close>

lemma topological_acyclic:
  assumes "distinct xs" and "topological D xs" and "\<forall>(d, i) \<in> r. i \<in> set xs \<and> d \<in> set (D i)"
  shows "acyclic r"
proof -
  obtain idx where idx: "\<forall>x \<in> set xs. idx x < length xs \<and> xs ! idx x = x"
    using bchoice [of "set xs" "\<lambda>x k. k < length xs \<and> xs ! k = x"] by (auto simp: in_set_conv_nth)
  have "idx d < idx i" if "(d, i) \<in> r" for d i
  proof -
    have i: "i \<in> set xs" "d \<in> set (D i)"
      using assms(3) that by auto
    then have "d \<in> set (take (idx i) xs)"
      using assms(2) idx unfolding topological_def by (metis subsetD)
    then obtain k where k: "k < idx i" "k < length xs" "xs ! k = d"
      by (auto simp: in_set_conv_nth)
    then have "idx d = k"
      using idx assms(1) by (metis nth_eq_iff_index_eq nth_mem)
    then show ?thesis
      using k(1) by simp
  qed
  then have "r \<subseteq> measure idx"
    by auto
  then show ?thesis
    using wf_acyclic wf_measure wf_subset by blast
qed

lemma closed_set_cyclic:
  assumes "finite r" and "acyclic r" and "\<forall>x \<in> S. \<exists>y \<in> S. (y, x) \<in> r"
  shows "S = {}"
proof -
  have "wf r"
    using assms(1,2) by (rule finite_acyclic_wf)
  show ?thesis
  proof (rule ccontr)
    assume "S \<noteq> {}"
    then obtain x where "x \<in> S"
      by blast
    then obtain z where "z \<in> S" "\<forall>y. (y, z) \<in> r \<longrightarrow> y \<notin> S"
      by (rule wfE_min [OF \<open>wf r\<close>]) blast
    then show False
      using assms(3) by blast
  qed
qed

subsection \<open>Resolution\<close>

lemma dependency_rel_finite: "finite (dependency_rel ms)"
proof (rule finite_subset)
  show "dependency_rel ms \<subseteq> (\<Union>i \<in> fst ` set ms. set (deps_of ms i)) \<times> fst ` set ms"
    by (auto simp: dependency_rel_def)
qed simp

lemma build_graph_adj:
  assumes "build_graph (map fst ms) ms (\<lambda>_. [], \<lambda>_. 0) = Inr (adj, deg)" and "distinct (map fst ms)"
  shows "\<forall>d j. count_list (adj d) j = count_list (deps_of ms j) d" and "\<forall>d. set (adj d) \<subseteq> fst ` set ms"
    and "\<forall>j. deg j = length (deps_of ms j)"
proof -
  have c: "count_list (adj d) j = count_list (deps_of ms j) d" "deg j = length (deps_of ms j)" for d j
    using build_graph_counts [OF assms, of d j] by simp_all
  then show "\<forall>d j. count_list (adj d) j = count_list (deps_of ms j) d" "\<forall>j. deg j = length (deps_of ms j)"
    by simp_all
  have "j \<in> fst ` set ms" if "j \<in> set (adj d)" for j d
  proof -
    have "deps_of ms j \<noteq> []"
      using that c(1) [of d j] by (metis count_list_0_iff empty_iff empty_set)
    then show ?thesis
      by (auto simp: deps_of_def image_iff split: option.splits dest: map_of_SomeD intro: bexI [rotated])
  qed
  then show "\<forall>d. set (adj d) \<subseteq> fst ` set ms"
    by blast
qed

lemma kahn_complete:
  assumes "distinct P" and "set P \<subseteq> fst ` set ms" and "topological (deps_of ms) P"
    and "\<forall>j \<in> fst ` set ms. missing (deps_of ms) P j = 0 \<longleftrightarrow> j \<in> set P" and "graph_ok ms"
  shows "set P = fst ` set ms \<longleftrightarrow> acyclic (dependency_rel ms)"
proof
  assume "set P = fst ` set ms"
  then show "acyclic (dependency_rel ms)"
    by (intro topological_acyclic [OF assms(1,3)]) (auto simp: dependency_rel_def)
next
  assume acyc: "acyclic (dependency_rel ms)"
  have "\<exists>y \<in> fst ` set ms - set P. (y, x) \<in> dependency_rel ms" if x: "x \<in> fst ` set ms - set P" for x
  proof -
    have "filter (\<lambda>y. y \<notin> set P) (deps_of ms x) \<noteq> []"
      using x assms(4) by auto
    then obtain y where y: "y \<in> set (deps_of ms x)" "y \<notin> set P"
      by (auto simp: filter_empty_conv)
    then have "y \<in> fst ` set ms"
      using x assms(5) unfolding graph_ok_def by blast
    then show ?thesis
      using x y by (auto simp: dependency_rel_def)
  qed
  then have "fst ` set ms - set P = {}"
    by (intro closed_set_cyclic [OF dependency_rel_finite acyc]) blast
  then show "set P = fst ` set ms"
    using assms(2) by blast
qed

lemma resolve_result:
  assumes "distinct (map fst ms)" and "distinct dorder" and "set dorder = fst ` set ms"
  shows "\<exists>r. resolve dorder ms = ret r \<and>
    (\<forall>order. r = Inr order \<longrightarrow> distinct order \<and> set order = fst ` set ms \<and> topological (deps_of ms) order) \<and>
    (isl r \<longleftrightarrow> \<not> (graph_ok ms \<and> acyclic (dependency_rel ms)))"
proof (cases "build_graph (map fst ms) ms (\<lambda>_. [], \<lambda>_. 0)")
  case (Inl e)
  then have "\<not> graph_ok ms"
    using build_graph_ok [OF assms(1), of "map fst ms" "(\<lambda>_. [], \<lambda>_. 0)"] by (auto simp: graph_ok_def)
  then show ?thesis
    by (simp add: resolve_def Inl)
next
  case (Inr g)
  obtain adj deg where g: "g = (adj, deg)"
    by (cases g)
  note graph = build_graph_adj [OF Inr [unfolded g] assms(1)]
  let ?D = "deps_of ms" and ?V = "fst ` set ms" and ?Q = "filter (\<lambda>i. deg i = 0) dorder"
  have ok: "graph_ok ms"
    using build_graph_ok [OF assms(1), of "map fst ms" "(\<lambda>_. [], \<lambda>_. 0)"] Inr by (auto simp: graph_ok_def)
  have "topological ?D ?Q"
    using graph(3) nth_mem [of _ ?Q] by (auto simp: topological_def)
  then have "kahn_inv ?D ?V [] [] ?Q deg"
    using assms(2,3) graph(3) by (simp add: kahn_inv_def)
  then obtain P deg' where run: "kahn adj ?Q deg [] = ret P" and inv: "kahn_inv ?D ?V P [] [] deg'"
    using kahn_returns [OF _ _ graph(1,2)] by (metis List.finite_set finite_imageI)
  have P: "distinct P" "set P \<subseteq> ?V" "topological ?D P" "\<forall>j \<in> ?V. missing ?D P j = 0 \<longleftrightarrow> j \<in> set P"
    using inv by (auto simp: kahn_inv_def)
  have "card ?V = length ms" "card (set P) = length P"
    using distinct_card [OF assms(1)] distinct_card [OF P(1)] by simp_all
  then have len: "length P = length ms \<longleftrightarrow> set P = ?V"
    using P(2) card_subset_eq [of ?V "set P"] by auto
  have "set P = ?V \<longleftrightarrow> acyclic (dependency_rel ms)"
    using kahn_complete [OF P ok] .
  then show ?thesis
    using P ok len by (simp add: resolve_def Inr g run)
qed

section \<open>The lifecycle\<close>

definition kernel_ok :: "'w kernel \<Rightarrow> bool" where
  "kernel_ok k \<longleftrightarrow> distinct (map fst (k_modules k)) \<and> (\<forall>(i, mo) \<in> set (k_modules k). \<exists>m. mo = Some m \<and> im_id m = i)"

lemma kernel_ok_new: "kernel_ok (kernel_new tm hm eb)"
  by (simp add: kernel_ok_def kernel_new_def)

lemma kernel_ok_register: "kernel_ok k \<Longrightarrow> register_module m k = (r, k') \<Longrightarrow> kernel_ok k'"
  by (auto simp: kernel_ok_def register_module_def split: if_splits)

lemma module_at_ok:
  assumes "kernel_ok k" and "i \<in> fst ` set (k_modules k)"
  shows "\<exists>m. module_at i k = ret m"
proof -
  obtain mo where "(i, mo) \<in> set (k_modules k)"
    using assms(2) by auto
  moreover from this obtain m where "mo = Some m"
    using assms(1) by (auto simp: kernel_ok_def)
  ultimately have "map_of (k_modules k) i = Some (Some m)"
    using assms(1) by (simp add: kernel_ok_def map_of_is_SomeI)
  then show ?thesis
    by (simp add: module_at_def)
qed

text \<open>The state of a module as the health monitor has it.\<close>

abbreviation status :: "'w kernel \<Rightarrow> module_id \<Rightarrow> module_state" where
  "status k i \<equiv> hi_state (health_entry i (k_health_monitor k))"

lemma health_entry_update:
  "hi_state (health_entry j (update_status i st hs h)) = (if j = i then st else hi_state (health_entry j h))"
  by (simp add: health_entry_def update_status_def update_conv')

lemma health_entry_heartbeat:
  "hi_state (health_entry j (record_heartbeat t i h)) = hi_state (health_entry j h)"
  by (simp add: health_entry_def record_heartbeat_def update_conv')

lemma module_at_frame [simp]:
  "module_at i (k\<lparr>k_health_monitor := h\<rparr>) = module_at i k" "kernel_ok (k\<lparr>k_health_monitor := h\<rparr>) = kernel_ok k"
  by (simp_all add: module_at_def kernel_ok_def)

lemma failed_is_critical: "status k i = Failed \<Longrightarrow> has_critical_failures (k_health_monitor k)"
  by (auto simp: health_entry_def has_critical_failures_def list_ex_iff split: option.splits dest!: map_of_SomeD intro!: bexI [rotated])

lemma initialize_modules_ok:
  assumes "initialize_modules xs k w = ret (Inr (), k', w')"
  shows "k_modules k' = k_modules k \<and> k_startup_order k' = k_startup_order k \<and> (\<forall>i \<in> set xs. status k' i = Configured) \<and>
    (\<forall>i. i \<notin> set xs \<longrightarrow> status k' i = status k i)"
  using assms
proof (induction xs arbitrary: k w)
  case (Cons i xs)
  obtain m where m: "module_at i k = ret m"
    using Cons(2) by (auto simp: bind_run_eq_ret)
  obtain w1 where "im_initialize m w = (Inr (), w1)"
    and "initialize_modules xs (set_status_of i Configured Healthy (set_status_of i Initializing Healthy k)) w1 = ret (Inr (), k', w')"
    using Cons(2) by (auto simp: m Let_def split: prod.splits sum.splits)
  from Cons(1) [OF this(2)] show ?case
    by (auto simp: health_entry_update)
qed simp

text \<open>Starting stops at the first module that fails, number \<open>n\<close> of the order.\<close>

definition started :: "module_id list \<Rightarrow> nat \<Rightarrow> 'w kernel \<Rightarrow> 'w kernel \<Rightarrow> bool" where
  "started xs n k k' \<longleftrightarrow> (\<forall>i \<in> set (take n xs). status k' i = Running) \<and>
     (n < length xs \<longrightarrow> status k' (xs ! n) = Failed) \<and>
     (\<forall>i. i \<notin> set (take (Suc n) xs) \<longrightarrow> status k' i = status k i)"

lemma start_modules_stops:
  assumes "kernel_ok k" and "distinct xs" and "set xs \<subseteq> fst ` set (k_modules k)"
  shows "\<exists>r k' w' n. start_modules clock xs k w = ret (r, k', w') \<and> n \<le> length xs \<and> (isl r \<longleftrightarrow> n < length xs) \<and> started xs n k k'"
  using assms
proof (induction xs arbitrary: k w)
  case Nil
  then show ?case
    by (simp add: started_def)
next
  case (Cons i xs)
  obtain m where m: "module_at i k = ret m"
    using module_at_ok [OF Cons(2), of i] Cons(4) by auto
  obtain r1 w1 where start: "im_start m w = (r1, w1)"
    by fastforce
  show ?case
  proof (cases r1)
    case (Inl err)
    then show ?thesis
      by (intro exI [of _ "Inl (FailedToStart (im_name m) err)"] exI exI [of _ w1] exI [of _ 0] conjI)
        (auto simp: m start started_def health_entry_update)
  next
    case (Inr u)
    let ?h = "record_heartbeat (clock i) i (update_status i Running Healthy (update_status i Starting Healthy (k_health_monitor k)))"
    let ?k = "k\<lparr>k_health_monitor := ?h\<rparr>"
    have "kernel_ok ?k" "distinct xs" "set xs \<subseteq> fst ` set (k_modules ?k)"
      using Cons(2-4) by simp_all
    from Cons(1) [OF this, of w1] obtain r k' w' n where rest: "start_modules clock xs ?k w1 = ret (r, k', w')"
      and n: "n \<le> length xs" "isl r \<longleftrightarrow> n < length xs" "started xs n ?k k'"
      by blast
    have "status ?k i = Running" "\<forall>j. j \<noteq> i \<longrightarrow> status ?k j = status k j"
      by (simp_all add: health_entry_update health_entry_heartbeat)
    then have "started (i # xs) (Suc n) k k'"
      using n(3) Cons(3) by (auto simp: started_def dest: in_set_takeD)
    moreover have "start_modules clock (i # xs) k w = ret (r, k', w')"
      using rest by (simp add: m start Inr)
    ultimately show ?thesis
      using n(1,2) by (intro exI [of _ r] exI [of _ k'] exI [of _ w'] exI [of _ "Suc n"] conjI) auto
  qed
qed

lemma started_deps:
  assumes "started xs n k k'" and "topological D xs" and "\<forall>i \<in> set xs. status k i = Configured"
  shows "\<forall>i \<in> set xs. status k' i \<in> {Running, Failed} \<longrightarrow> (\<forall>d \<in> set (D i). status k' d = Running)"
proof (intro ballI impI)
  fix i d
  assume i: "i \<in> set xs" "status k' i \<in> {Running, Failed}" and d: "d \<in> set (D i)"
  have "i \<in> set (take (Suc n) xs)"
  proof (rule ccontr)
    assume "i \<notin> set (take (Suc n) xs)"
    then have "status k' i = Configured"
      using assms(1,3) i(1) unfolding started_def by metis
    then show False
      using i(2) by simp
  qed
  then obtain j where j: "j \<le> n" "j < length xs" "xs ! j = i"
    by (auto simp: in_set_conv_nth less_Suc_eq_le)
  then have "d \<in> set (take j xs)"
    using assms(2) d unfolding topological_def by blast
  then have "d \<in> set (take n xs)"
    using set_take_subset_set_take [OF j(1), of xs] by blast
  then show "status k' d = Running"
    using assms(1) unfolding started_def by blast
qed

lemma started_result:
  assumes "started xs n k k'" and "n \<le> length xs"
  shows "if n < length xs then (\<exists>i \<in> set xs. status k' i = Failed) \<and> \<not> wait_continues k'
    else \<forall>i \<in> set xs. status k' i = Running"
proof (cases "n < length xs")
  case True
  then have "status k' (xs ! n) = Failed"
    using assms(1) unfolding started_def by blast
  then show ?thesis
    using True failed_is_critical [of "xs ! n" k'] nth_mem [OF True] by (auto simp: wait_continues_def)
next
  case False
  then show ?thesis
    using assms unfolding started_def by simp
qed

lemma deps_of_reorder:
  assumes "mset ms' = mset ms" and "distinct (map fst ms)"
  shows "deps_of ms' = deps_of ms" and "fst ` set ms' = fst ` set ms" and "distinct (map fst ms')"
proof -
  show d: "distinct (map fst ms')"
    using assms by (metis mset_map mset_eq_imp_distinct_iff)
  have "set ms' = set ms"
    using assms(1) by (rule mset_eq_setD)
  then show "fst ` set ms' = fst ` set ms"
    by simp
  have "map_of ms' = map_of ms"
    using map_of_inject_set [OF d assms(2)] \<open>set ms' = set ms\<close> by simp
  then show "deps_of ms' = deps_of ms"
    by (simp add: deps_of_def fun_eq_iff)
qed

text \<open>C27. Dependency resolution always returns. It answers with an error exactly when a module
  pointer is null, a module depends on itself or on a module that is not registered, or the
  dependencies have a cycle; otherwise with all modules, each once and after everything it
  depends on, whatever the iteration order of the hash maps.\<close>

theorem resolve_topological:
  assumes "distinct (map fst ms)" and "distinct dorder" and "set dorder = fst ` set ms"
  shows "\<exists>r. resolve dorder ms = ret r \<and>
    (\<forall>order. r = Inr order \<longrightarrow> distinct order \<and> set order = fst ` set ms \<and> topological (deps_of ms) order) \<and>
    (isl r \<longleftrightarrow> \<not> (graph_ok ms \<and> acyclic (dependency_rel ms)))"
  by (rule resolve_result [OF assms])

text \<open>C28. Modules start in dependency order. After a successful initialisation, \<open>start\<close> returns; every
  module that the health monitor then has as running or failed was started when all the modules
  it depends on were running. Success means that all modules run; failure means that one of
  them is marked failed, which ends \<open>wait\<close>.\<close>

theorem kernel_start_order:
  assumes "kernel_ok k" and "distinct dorder" and "set dorder = fst ` set (k_modules k)"
    and "mset (ptr_order (k_modules k)) = mset (k_modules k)"
    and "kernel_initialize ptr_order dorder k w0 = ret (Inr (), k1, w1)"
  shows "\<exists>r k2 w2. kernel_start clock k1 w = ret (r, k2, w2) \<and>
    (\<forall>i \<in> fst ` set (k_modules k). status k2 i \<in> {Running, Failed} \<longrightarrow>
       (\<forall>d \<in> set (deps_of (k_modules k) i). status k2 d = Running)) \<and>
    (if isl r then (\<exists>i \<in> fst ` set (k_modules k). status k2 i = Failed) \<and> \<not> wait_continues k2
     else \<forall>i \<in> fst ` set (k_modules k). status k2 i = Running)"
proof -
  let ?ms = "k_modules k" and ?ms' = "ptr_order (k_modules k)"
  have dist: "distinct (map fst ?ms)"
    using assms(1) by (simp add: kernel_ok_def)
  note reorder = deps_of_reorder [OF assms(4) dist]
  obtain order where res: "resolve dorder ?ms' = ret (Inr order)"
    and ini: "initialize_modules order (k\<lparr>k_startup_order := order\<rparr>) w0 = ret (Inr (), k1, w1)"
  proof -
    obtain res where "resolve dorder ?ms' = ret res" and
      "(case res of Inl e \<Rightarrow> ret (Inl (ResolutionFailed e), k, w0)
        | Inr order \<Rightarrow> initialize_modules order (k\<lparr>k_startup_order := order\<rparr>) w0) = ret (Inr (), k1, w1)"
      using assms(5) by (auto simp: kernel_initialize_def bind_run_eq_ret)
    then show ?thesis
      using that by (cases res) auto
  qed
  have order: "distinct order" "set order = fst ` set ?ms" "topological (deps_of ?ms) order"
    using resolve_result [OF reorder(3) assms(2), unfolded reorder(1,2), OF assms(3)] res by auto
  have k1: "k_modules k1 = ?ms" "k_startup_order k1 = order" "\<forall>i \<in> set order. status k1 i = Configured"
    using initialize_modules_ok [OF ini] by simp_all
  have "kernel_ok k1" "set order \<subseteq> fst ` set (k_modules k1)"
    using assms(1) k1(1) order(2) by (simp_all add: kernel_ok_def)
  then obtain r k2 w2 n where run: "start_modules clock order k1 w = ret (r, k2, w2)"
    and n: "n \<le> length order" "isl r \<longleftrightarrow> n < length order" and st: "started order n k1 k2"
    using start_modules_stops [OF _ order(1), of k1 clock w] by metis
  note deps = started_deps [OF st order(3) k1(3)] and final = started_result [OF st n(1)]
  have "kernel_start clock k1 w = ret (r, k2, w2)"
    by (simp add: kernel_start_def k1(2) run)
  then show ?thesis
    using deps final unfolding order(2) [symmetric] n(2) [symmetric]
    by (intro exI [of _ r] exI [of _ k2] exI [of _ w2] conjI)
qed

section \<open>A sample kernel\<close>

text \<open>Three modules in a chain; the world counts the calls and the start of the third fails.\<close>

definition sample_module :: "module_id \<Rightarrow> module_id list \<Rightarrow> nat imodule" where
  "sample_module i deps = \<lparr>im_id = i, im_name = [], im_dependencies = deps, im_state = (\<lambda>_. Running),
     im_check_health = (\<lambda>_. Healthy), im_initialize = (\<lambda>w. (Inr (), Suc w)), im_configure = (\<lambda>w. (Inr (), Suc w)),
     im_start = (\<lambda>w. (if w \<ge> 5 then Inl ''full'' else Inr (), Suc w)), im_pause = (\<lambda>w. (Inr (), w)),
     im_resume = (\<lambda>w. (Inr (), w)), im_stop = (\<lambda>w. (Inr (), w)), im_shutdown = (\<lambda>w. (Inr (), w))\<rparr>"

definition sample_kernel :: "nat kernel" where
  "sample_kernel = (kernel_new 1 2 3)\<lparr>k_modules :=
     [(Mod_Matching, Some (sample_module Mod_Matching [Mod_OrderBook, Mod_Risk])),
      (Mod_Risk, Some (sample_module Mod_Risk [Mod_OrderBook])),
      (Mod_OrderBook, Some (sample_module Mod_OrderBook []))]\<rparr>"

lemma sample_resolve:
  "resolve [Mod_Matching, Mod_Risk, Mod_OrderBook] (k_modules sample_kernel) = ret (Inr [Mod_OrderBook, Mod_Risk, Mod_Matching])"
  by (simp add: resolve_def sample_kernel_def sample_module_def kahn_step)

theorem resolve_topological_witness:
  "graph_ok (k_modules sample_kernel) \<and> acyclic (dependency_rel (k_modules sample_kernel)) \<and>
   topological (deps_of (k_modules sample_kernel)) [Mod_OrderBook, Mod_Risk, Mod_Matching]"
proof -
  let ?ms = "k_modules sample_kernel"
  have "distinct (map fst ?ms)" "set [Mod_Matching, Mod_Risk, Mod_OrderBook] = fst ` set ?ms"
    by (simp_all add: sample_kernel_def)
  then show ?thesis
    using resolve_topological [of ?ms "[Mod_Matching, Mod_Risk, Mod_OrderBook]"] by (auto simp: sample_resolve)
qed

theorem kernel_start_order_witness:
  "\<exists>k1 w1 r k2 w2. kernel_initialize id [Mod_Matching, Mod_Risk, Mod_OrderBook] sample_kernel 0 = ret (Inr (), k1, w1) \<and>
     kernel_start (\<lambda>_. 0) k1 w1 = ret (r, k2, w2) \<and>
     (\<forall>d \<in> {Mod_OrderBook, Mod_Risk}. status k2 Mod_Matching \<in> {Running, Failed} \<longrightarrow> status k2 d = Running)"
proof -
  let ?d = "[Mod_Matching, Mod_Risk, Mod_OrderBook]"
  obtain k1 w1 where ini: "kernel_initialize id ?d sample_kernel 0 = ret (Inr (), k1, w1)"
  proof -
    have "\<exists>k1 w1. kernel_initialize id ?d sample_kernel 0 = ret (Inr (), k1, w1)"
      by (simp add: kernel_initialize_def sample_resolve) (simp add: sample_kernel_def sample_module_def module_at_def Let_def)
    then show ?thesis
      using that by blast
  qed
  have "kernel_ok sample_kernel" "set ?d = fst ` set (k_modules sample_kernel)"
    "set (deps_of (k_modules sample_kernel) Mod_Matching) = {Mod_OrderBook, Mod_Risk}"
    by (simp_all add: kernel_ok_def sample_kernel_def deps_of_def sample_module_def)
  then show ?thesis
    using kernel_start_order [OF _ _ _ _ ini, of "\<lambda>_. 0" w1] ini by (simp add: sample_kernel_def) blast
qed

end
