(* ===== verification/Wire.thy ===== *)
theory Wire
  imports Prelude
begin

text \<open>
  The memory layout of the structs that leave the process: packets, journal records, events.
  The code copies them as they lie in memory, so an integer is its bytes, least significant
  first, on the little-endian targets of the program (x86-64 and AArch64).
\<close>

section \<open>Integers as bytes\<close>

fun le_bytes :: "nat \<Rightarrow> nat \<Rightarrow> u8 list" where
  "le_bytes 0 v = []"
| "le_bytes (Suc n) v = of_nat v # le_bytes n (v div 256)"

fun of_le_bytes :: "u8 list \<Rightarrow> nat" where
  "of_le_bytes [] = 0"
| "of_le_bytes (b # bs) = unat b + 256 * of_le_bytes bs"

definition put8 :: "u8 \<Rightarrow> u8 list" where
  "put8 x = [x]"

definition put16 :: "u16 \<Rightarrow> u8 list" where
  "put16 x = le_bytes 2 (unat x)"

definition put32 :: "u32 \<Rightarrow> u8 list" where
  "put32 x = le_bytes 4 (unat x)"

definition put64 :: "u64 \<Rightarrow> u8 list" where
  "put64 x = le_bytes 8 (unat x)"

text \<open>The field of the given width at an offset.\<close>

definition get8 :: "u8 list \<Rightarrow> nat \<Rightarrow> u8" where
  "get8 bs off = of_nat (of_le_bytes (take 1 (drop off bs)))"

definition get16 :: "u8 list \<Rightarrow> nat \<Rightarrow> u16" where
  "get16 bs off = of_nat (of_le_bytes (take 2 (drop off bs)))"

definition get32 :: "u8 list \<Rightarrow> nat \<Rightarrow> u32" where
  "get32 bs off = of_nat (of_le_bytes (take 4 (drop off bs)))"

definition get64 :: "u8 list \<Rightarrow> nat \<Rightarrow> u64" where
  "get64 bs off = of_nat (of_le_bytes (take 8 (drop off bs)))"

text \<open>An array of \<open>n\<close> bytes at an offset.\<close>

definition get_bytes :: "nat \<Rightarrow> u8 list \<Rightarrow> nat \<Rightarrow> u8 list" where
  "get_bytes n bs off = take n (drop off bs)"

named_theorems wire_simps "reading back what was written"

lemma length_le_bytes [simp]: "length (le_bytes n v) = n"
  by (induction n arbitrary: v) simp_all

lemma of_le_bytes_le_bytes: "v < 256 ^ n \<Longrightarrow> of_le_bytes (le_bytes n v) = v"
proof (induction n arbitrary: v)
  case (Suc n)
  have "v div 256 < 256 ^ n"
    using Suc.prems by (simp add: less_mult_imp_div_less mult.commute)
  then show ?case
    by (simp add: Suc.IH unat_of_nat)
qed simp

lemma length_put [simp]:
  "length (put8 a) = 1" "length (put16 b) = 2" "length (put32 c) = 4" "length (put64 d) = 8"
  by (simp_all add: put8_def put16_def put32_def put64_def)

lemma of_le_bytes_put:
  "of_le_bytes (put8 a) = unat a" "of_le_bytes (put16 b) = unat b"
  "of_le_bytes (put32 c) = unat c" "of_le_bytes (put64 d) = unat d"
  using unsigned_less [of b, where ?'a = nat] unsigned_less [of c, where ?'a = nat] unsigned_less [of d, where ?'a = nat]
  by (simp_all add: put8_def put16_def put32_def put64_def of_le_bytes_le_bytes)

text \<open>A field at the front is read back; a field behind a prefix is read past it.\<close>

lemma get_front [wire_simps]:
  "get8 (put8 a @ bs) 0 = a" "get16 (put16 b @ bs) 0 = b" "get32 (put32 c @ bs) 0 = c" "get64 (put64 d @ bs) 0 = d"
  "length as = n \<Longrightarrow> get_bytes n (as @ bs) 0 = as"
  by (simp_all add: get8_def get16_def get32_def get64_def get_bytes_def of_le_bytes_put)

lemma get_skip [wire_simps]:
  assumes "length as \<le> off"
  shows "get8 (as @ bs) off = get8 bs (off - length as)" "get16 (as @ bs) off = get16 bs (off - length as)"
    "get32 (as @ bs) off = get32 bs (off - length as)" "get64 (as @ bs) off = get64 bs (off - length as)"
    "get_bytes n (as @ bs) off = get_bytes n bs (off - length as)"
  using assms by (simp_all add: get8_def get16_def get32_def get64_def get_bytes_def)

lemma get_last [wire_simps]:
  "get8 (put8 a) 0 = a" "get16 (put16 b) 0 = b" "get32 (put32 c) 0 = c" "get64 (put64 d) 0 = d"
  "length as = n \<Longrightarrow> get_bytes n as 0 = as"
  by (simp_all add: get8_def get16_def get32_def get64_def get_bytes_def of_le_bytes_put)

text \<open>What lies behind a field does not matter.\<close>

lemma take_drop_prefix: "off + n \<le> length as \<Longrightarrow> take n (drop off (as @ bs)) = take n (drop off as)"
  by simp

lemma get_prefix:
  "off + 1 \<le> length as \<Longrightarrow> get8 (as @ bs) off = get8 as off"
  "off + 2 \<le> length as \<Longrightarrow> get16 (as @ bs) off = get16 as off"
  "off + 4 \<le> length as \<Longrightarrow> get32 (as @ bs) off = get32 as off"
  "off + 8 \<le> length as \<Longrightarrow> get64 (as @ bs) off = get64 as off"
  "off + n \<le> length as \<Longrightarrow> get_bytes n (as @ bs) off = get_bytes n as off"
  unfolding get8_def get16_def get32_def get64_def get_bytes_def by (simp_all only: take_drop_prefix)

text \<open>\<open>len\<close> bytes of an array from an index on, as a pointer into the array reads them.\<close>

definition view :: "u8 list \<Rightarrow> nat \<Rightarrow> nat \<Rightarrow> u8 list run" where
  "view mem off len = (if off + len \<le> length mem then ret (take len (drop off mem)) else fail OutOfBounds)"

end
