(* ===== verification/Protocol.thy ===== *)
theory Protocol
  imports Wire
begin

text \<open>
  The wire protocol of \<open>gateway/include/gateway\<close>: the packets of \<open>protocol.hpp\<close> with their layout,
  \<open>PacketEncoder\<close> and \<open>PacketDecoder\<close>. The locale \<open>wire_packet\<close> is what the codec relies on for a
  packet type; it is interpreted on every packet of the protocol.
\<close>

section \<open>Messages\<close>

datatype message_type = MT_Heartbeat | MT_LoginRequest | MT_LoginResponse | MT_Logout | MT_NewOrder
  | MT_CancelOrder | MT_ReplaceOrder | MT_ExecutionReport | MT_Reject | MT_Trade | MT_BookUpdate

fun message_type_code :: "message_type \<Rightarrow> u16" where
  "message_type_code MT_Heartbeat = 1"
| "message_type_code MT_LoginRequest = 2"
| "message_type_code MT_LoginResponse = 3"
| "message_type_code MT_Logout = 4"
| "message_type_code MT_NewOrder = 5"
| "message_type_code MT_CancelOrder = 6"
| "message_type_code MT_ReplaceOrder = 7"
| "message_type_code MT_ExecutionReport = 8"
| "message_type_code MT_Reject = 9"
| "message_type_code MT_Trade = 10"
| "message_type_code MT_BookUpdate = 11"

record message_header =
  mh_length :: u16
  mh_type :: u16
  mh_padding :: u32
  mh_sequence :: u64
  mh_timestamp :: u64

definition header_size :: nat where "header_size = 24"

definition header_bytes :: "message_header \<Rightarrow> u8 list" where
  "header_bytes h = put16 (mh_length h) @ put16 (mh_type h) @ put32 (mh_padding h) @
     put64 (mh_sequence h) @ put64 (mh_timestamp h)"

definition read_header :: "u8 list \<Rightarrow> message_header" where
  "read_header bs = \<lparr>mh_length = get16 bs 0, mh_type = get16 bs 2, mh_padding = get32 bs 4,
     mh_sequence = get64 bs 8, mh_timestamp = get64 bs 16\<rparr>"

lemma length_header_bytes [simp]: "length (header_bytes h) = 24"
  by (simp add: header_bytes_def)

lemma read_header_bytes [wire_simps]: "read_header (header_bytes h @ bs) = h"
  by (cases h) (simp add: read_header_def header_bytes_def wire_simps)

section \<open>Packets\<close>

text \<open>Each packet with its bytes, the reading of its fields from bytes, and its size. A \<open>char\<close> array is a
  list of its bytes. The four bytes with which the compiler rounds \<open>RejectPacket\<close> up to a multiple
  of eight carry no data and are zero.\<close>

record heartbeat_packet =
  hb_header :: message_header

definition heartbeat_bytes :: "heartbeat_packet \<Rightarrow> u8 list" where
  "heartbeat_bytes p = header_bytes (hb_header p)"

definition read_heartbeat :: "u8 list \<Rightarrow> heartbeat_packet" where
  "read_heartbeat bs = \<lparr>hb_header = read_header bs\<rparr>"

definition heartbeat_ok :: "heartbeat_packet \<Rightarrow> bool" where
  "heartbeat_ok p \<longleftrightarrow> True"

record login_request_packet =
  lrq_header :: message_header
  lrq_client_id :: u32
  lrq_account_id :: u32
  lrq_username :: "u8 list"
  lrq_password :: "u8 list"

definition login_request_bytes :: "login_request_packet \<Rightarrow> u8 list" where
  "login_request_bytes p = header_bytes (lrq_header p) @ put32 (lrq_client_id p) @ put32 (lrq_account_id p) @
     lrq_username p @ lrq_password p"

definition read_login_request :: "u8 list \<Rightarrow> login_request_packet" where
  "read_login_request bs = \<lparr>lrq_header = read_header bs, lrq_client_id = get32 bs 24, lrq_account_id = get32 bs 28,
     lrq_username = get_bytes 16 bs 32, lrq_password = get_bytes 16 bs 48\<rparr>"

definition login_request_ok :: "login_request_packet \<Rightarrow> bool" where
  "login_request_ok p \<longleftrightarrow> length (lrq_username p) = 16 \<and> length (lrq_password p) = 16"

record login_response_packet =
  lrs_header :: message_header
  lrs_client_id :: u32
  lrs_account_id :: u32
  lrs_success :: u8
  lrs_reject_reason :: "u8 list"

definition login_response_bytes :: "login_response_packet \<Rightarrow> u8 list" where
  "login_response_bytes p = header_bytes (lrs_header p) @ put32 (lrs_client_id p) @ put32 (lrs_account_id p) @
     put8 (lrs_success p) @ lrs_reject_reason p"

definition read_login_response :: "u8 list \<Rightarrow> login_response_packet" where
  "read_login_response bs = \<lparr>lrs_header = read_header bs, lrs_client_id = get32 bs 24, lrs_account_id = get32 bs 28,
     lrs_success = get8 bs 32, lrs_reject_reason = get_bytes 23 bs 33\<rparr>"

definition login_response_ok :: "login_response_packet \<Rightarrow> bool" where
  "login_response_ok p \<longleftrightarrow> length (lrs_reject_reason p) = 23"

record logout_packet =
  lg_header :: message_header
  lg_client_id :: u32
  lg_padding :: u32

definition logout_bytes :: "logout_packet \<Rightarrow> u8 list" where
  "logout_bytes p = header_bytes (lg_header p) @ put32 (lg_client_id p) @ put32 (lg_padding p)"

definition read_logout :: "u8 list \<Rightarrow> logout_packet" where
  "read_logout bs = \<lparr>lg_header = read_header bs, lg_client_id = get32 bs 24, lg_padding = get32 bs 28\<rparr>"

definition logout_ok :: "logout_packet \<Rightarrow> bool" where
  "logout_ok p \<longleftrightarrow> True"

record new_order_packet =
  no_header :: message_header
  no_client_order_id :: u64
  no_symbol_id :: u32
  no_account_id :: u32
  no_price_ticks :: u64
  no_qty_units :: u64
  no_side :: u8
  no_type :: u8
  no_tif :: u8
  no_padding :: "u8 list"

definition new_order_bytes :: "new_order_packet \<Rightarrow> u8 list" where
  "new_order_bytes p = header_bytes (no_header p) @ put64 (no_client_order_id p) @ put32 (no_symbol_id p) @
     put32 (no_account_id p) @ put64 (no_price_ticks p) @ put64 (no_qty_units p) @
     put8 (no_side p) @ put8 (no_type p) @ put8 (no_tif p) @ no_padding p"

definition read_new_order :: "u8 list \<Rightarrow> new_order_packet" where
  "read_new_order bs = \<lparr>no_header = read_header bs, no_client_order_id = get64 bs 24, no_symbol_id = get32 bs 32,
     no_account_id = get32 bs 36, no_price_ticks = get64 bs 40, no_qty_units = get64 bs 48,
     no_side = get8 bs 56, no_type = get8 bs 57, no_tif = get8 bs 58,
     no_padding = get_bytes 5 bs 59\<rparr>"

definition new_order_ok :: "new_order_packet \<Rightarrow> bool" where
  "new_order_ok p \<longleftrightarrow> length (no_padding p) = 5"

record cancel_order_packet =
  co_header :: message_header
  co_client_order_id :: u64
  co_orig_client_order_id :: u64
  co_symbol_id :: u32
  co_account_id :: u32

definition cancel_order_bytes :: "cancel_order_packet \<Rightarrow> u8 list" where
  "cancel_order_bytes p = header_bytes (co_header p) @ put64 (co_client_order_id p) @
     put64 (co_orig_client_order_id p) @ put32 (co_symbol_id p) @ put32 (co_account_id p)"

definition read_cancel_order :: "u8 list \<Rightarrow> cancel_order_packet" where
  "read_cancel_order bs = \<lparr>co_header = read_header bs, co_client_order_id = get64 bs 24,
     co_orig_client_order_id = get64 bs 32, co_symbol_id = get32 bs 40,
     co_account_id = get32 bs 44\<rparr>"

definition cancel_order_ok :: "cancel_order_packet \<Rightarrow> bool" where
  "cancel_order_ok p \<longleftrightarrow> True"

record replace_order_packet =
  ro_header :: message_header
  ro_client_order_id :: u64
  ro_orig_client_order_id :: u64
  ro_symbol_id :: u32
  ro_account_id :: u32
  ro_price_ticks :: u64
  ro_qty_units :: u64

definition replace_order_bytes :: "replace_order_packet \<Rightarrow> u8 list" where
  "replace_order_bytes p = header_bytes (ro_header p) @ put64 (ro_client_order_id p) @
     put64 (ro_orig_client_order_id p) @ put32 (ro_symbol_id p) @ put32 (ro_account_id p) @
     put64 (ro_price_ticks p) @ put64 (ro_qty_units p)"

definition read_replace_order :: "u8 list \<Rightarrow> replace_order_packet" where
  "read_replace_order bs = \<lparr>ro_header = read_header bs, ro_client_order_id = get64 bs 24,
     ro_orig_client_order_id = get64 bs 32, ro_symbol_id = get32 bs 40,
     ro_account_id = get32 bs 44, ro_price_ticks = get64 bs 48, ro_qty_units = get64 bs 56\<rparr>"

definition replace_order_ok :: "replace_order_packet \<Rightarrow> bool" where
  "replace_order_ok p \<longleftrightarrow> True"

record execution_report_packet =
  ep_header :: message_header
  ep_order_id :: u64
  ep_client_order_id :: u64
  ep_symbol_id :: u32
  ep_account_id :: u32
  ep_price_ticks :: u64
  ep_qty_units :: u64
  ep_filled_qty :: u64
  ep_remaining_qty :: u64
  ep_side :: u8
  ep_status :: u8
  ep_padding :: "u8 list"

definition execution_report_bytes :: "execution_report_packet \<Rightarrow> u8 list" where
  "execution_report_bytes p = header_bytes (ep_header p) @ put64 (ep_order_id p) @ put64 (ep_client_order_id p) @
     put32 (ep_symbol_id p) @ put32 (ep_account_id p) @ put64 (ep_price_ticks p) @
     put64 (ep_qty_units p) @ put64 (ep_filled_qty p) @ put64 (ep_remaining_qty p) @
     put8 (ep_side p) @ put8 (ep_status p) @ ep_padding p"

definition read_execution_report :: "u8 list \<Rightarrow> execution_report_packet" where
  "read_execution_report bs = \<lparr>ep_header = read_header bs, ep_order_id = get64 bs 24, ep_client_order_id = get64 bs 32,
     ep_symbol_id = get32 bs 40, ep_account_id = get32 bs 44, ep_price_ticks = get64 bs 48,
     ep_qty_units = get64 bs 56, ep_filled_qty = get64 bs 64, ep_remaining_qty = get64 bs 72,
     ep_side = get8 bs 80, ep_status = get8 bs 81, ep_padding = get_bytes 6 bs 82\<rparr>"

definition execution_report_ok :: "execution_report_packet \<Rightarrow> bool" where
  "execution_report_ok p \<longleftrightarrow> length (ep_padding p) = 6"

record reject_packet =
  rp_header :: message_header
  rp_client_order_id :: u64
  rp_account_id :: u32
  rp_reason :: u16
  rp_padding :: "u8 list"

definition reject_bytes :: "reject_packet \<Rightarrow> u8 list" where
  "reject_bytes p = header_bytes (rp_header p) @ put64 (rp_client_order_id p) @ put32 (rp_account_id p) @
     put16 (rp_reason p) @ rp_padding p @ [0, 0, 0, 0]"

definition read_reject :: "u8 list \<Rightarrow> reject_packet" where
  "read_reject bs = \<lparr>rp_header = read_header bs, rp_client_order_id = get64 bs 24, rp_account_id = get32 bs 32,
     rp_reason = get16 bs 36, rp_padding = get_bytes 6 bs 38\<rparr>"

definition reject_ok :: "reject_packet \<Rightarrow> bool" where
  "reject_ok p \<longleftrightarrow> length (rp_padding p) = 6"

section \<open>Encoder and decoder\<close>

text \<open>\<open>PacketEncoder::encode\<close> for a packet type with the given layout, size and access to its header: the
  bytes written, none when the destination is too small (result 0).\<close>

definition encode :: "('p \<Rightarrow> u8 list) \<Rightarrow> ((message_header \<Rightarrow> message_header) \<Rightarrow> 'p \<Rightarrow> 'p) \<Rightarrow> nat \<Rightarrow>
    nat \<Rightarrow> message_type \<Rightarrow> u64 \<Rightarrow> u64 \<Rightarrow> 'p \<Rightarrow> u8 list" where
  "encode to_bytes header_update sz dest_len ty seq ts packet =
     (if dest_len < sz then []
      else to_bytes (header_update (\<lambda>h. h\<lparr>mh_length := of_nat sz, mh_type := message_type_code ty,
             mh_sequence := seq, mh_timestamp := ts\<rparr>) packet))"

text \<open>\<open>PacketDecoder::decode\<close>: the header and the number of bytes of the frame, or \<open>std::nullopt\<close> while
  the frame is incomplete. The payload starts behind the header.\<close>

definition decode :: "u8 list \<Rightarrow> (message_header \<times> nat) option" where
  "decode data =
     (if length data < header_size then None
      else let header = read_header data
           in if length data < unat (mh_length header) then None
              else Some (header, unat (mh_length header)))"

section \<open>What the codec relies on\<close>

locale wire_packet =
  fixes to_bytes :: "'p \<Rightarrow> u8 list"
    and of_bytes :: "u8 list \<Rightarrow> 'p"
    and header :: "'p \<Rightarrow> message_header"
    and header_update :: "(message_header \<Rightarrow> message_header) \<Rightarrow> 'p \<Rightarrow> 'p"
    and ok :: "'p \<Rightarrow> bool"
    and sz :: nat
  assumes size_to_bytes: "ok p \<Longrightarrow> length (to_bytes p) = sz"
    and of_to_bytes: "ok p \<Longrightarrow> of_bytes (to_bytes p @ bs) = p"
    and header_to_bytes: "read_header (to_bytes p @ bs) = header p"
    and header_header_update: "header (header_update f p) = f (header p)"
    and ok_header_update: "ok (header_update f p) = ok p"
    and size_bounds: "24 \<le> sz" "sz < 2 ^ 16"
begin

text \<open>A stamped packet followed by anything decodes to its header and its size, and its bytes read back
  as the packet.\<close>

lemma decode_encode:
  assumes "ok p" and "sz \<le> dest_len"
    and "q = header_update (\<lambda>h. h\<lparr>mh_length := of_nat sz, mh_type := message_type_code ty,
             mh_sequence := seq, mh_timestamp := ts\<rparr>) p"
  shows "decode (encode to_bytes header_update sz dest_len ty seq ts p @ bs) = Some (header q, sz)"
    and "of_bytes (encode to_bytes header_update sz dest_len ty seq ts p @ bs) = q"
    and "length (encode to_bytes header_update sz dest_len ty seq ts p) = sz"
proof -
  have q: "encode to_bytes header_update sz dest_len ty seq ts p = to_bytes q" "ok q"
    using assms by (simp_all add: encode_def ok_header_update)
  have len: "unat (mh_length (header q)) = sz"
    using size_bounds(2) by (simp add: assms(3) header_header_update unat_of_nat)
  show "length (encode to_bytes header_update sz dest_len ty seq ts p) = sz"
    by (simp add: q size_to_bytes)
  show "of_bytes (encode to_bytes header_update sz dest_len ty seq ts p @ bs) = q"
    by (simp add: q of_to_bytes)
  show "decode (encode to_bytes header_update sz dest_len ty seq ts p @ bs) = Some (header q, sz)"
    using size_bounds(1) by (simp add: q decode_def header_to_bytes size_to_bytes len header_size_def)
qed

end

interpretation heartbeat_wire: wire_packet heartbeat_bytes read_heartbeat hb_header hb_header_update heartbeat_ok 24
  by unfold_locales (simp_all add: heartbeat_bytes_def read_heartbeat_def heartbeat_ok_def wire_simps)

interpretation login_request_wire: wire_packet login_request_bytes read_login_request lrq_header lrq_header_update login_request_ok 64
  by unfold_locales (simp_all add: login_request_bytes_def read_login_request_def login_request_ok_def wire_simps)

interpretation login_response_wire: wire_packet login_response_bytes read_login_response lrs_header lrs_header_update login_response_ok 56
  by unfold_locales (simp_all add: login_response_bytes_def read_login_response_def login_response_ok_def wire_simps)

interpretation logout_wire: wire_packet logout_bytes read_logout lg_header lg_header_update logout_ok 32
  by unfold_locales (simp_all add: logout_bytes_def read_logout_def logout_ok_def wire_simps)

interpretation new_order_wire: wire_packet new_order_bytes read_new_order no_header no_header_update new_order_ok 64
  by unfold_locales (simp_all add: new_order_bytes_def read_new_order_def new_order_ok_def wire_simps)

interpretation cancel_order_wire: wire_packet cancel_order_bytes read_cancel_order co_header co_header_update cancel_order_ok 48
  by unfold_locales (simp_all add: cancel_order_bytes_def read_cancel_order_def cancel_order_ok_def wire_simps)

interpretation replace_order_wire: wire_packet replace_order_bytes read_replace_order ro_header ro_header_update replace_order_ok 64
  by unfold_locales (simp_all add: replace_order_bytes_def read_replace_order_def replace_order_ok_def wire_simps)

interpretation execution_report_wire: wire_packet execution_report_bytes read_execution_report ep_header ep_header_update execution_report_ok 88
  by unfold_locales (simp_all add: execution_report_bytes_def read_execution_report_def execution_report_ok_def wire_simps)

interpretation reject_wire: wire_packet reject_bytes read_reject rp_header rp_header_update reject_ok 48
  by unfold_locales (simp_all add: reject_bytes_def read_reject_def reject_ok_def wire_simps)

end
