(* ===== verification/Gateway.thy ===== *)
theory Gateway
  imports Protocol Domain Ring_Buffer
begin

text \<open>
  The gateway of \<open>gateway/\<close>: client connections, \<open>SessionManager\<close>, \<open>SequenceManager\<close>, the two
  transports and \<open>Gateway\<close> itself, from the bytes of a connection to the commands in the inbound
  queue. Results of system calls are arguments (\<open>os_calls\<close>); \<open>now n\<close> is the \<open>n\<close>-th reading of the
  steady clock, and the gateway counts its readings. A pointer into a framing buffer is the
  contents of the buffer with an index.
\<close>

section \<open>Commands\<close>

datatype command_type = CmdNewOrder | CmdCancelOrder | CmdReplaceOrder | CmdUnnamed u8

fun command_type_code :: "command_type \<Rightarrow> u8" where
  "command_type_code CmdNewOrder = 0"
| "command_type_code CmdCancelOrder = 1"
| "command_type_code CmdReplaceOrder = 2"
| "command_type_code (CmdUnnamed c) = c"

definition command_type_of_code :: "u8 \<Rightarrow> command_type" where
  "command_type_of_code c = (if c = 0 then CmdNewOrder else if c = 1 then CmdCancelOrder else if c = 2 then CmdReplaceOrder
     else CmdUnnamed c)"

record order_command =
  cmd_type :: command_type
  cmd_sequence :: u64
  cmd_timestamp :: u64
  cmd_client_order_id :: u64
  cmd_orig_client_order_id :: u64
  cmd_symbol_id :: symbol_id
  cmd_account_id :: account_id
  cmd_price :: price
  cmd_qty :: quantity
  cmd_side :: side
  cmd_order_type :: order_type
  cmd_tif :: time_in_force
  cmd_conn_id :: s32

definition command_default :: order_command where
  "command_default = \<lparr>cmd_type = CmdNewOrder, cmd_sequence = 0, cmd_timestamp = 0, cmd_client_order_id = 0,
     cmd_orig_client_order_id = 0, cmd_symbol_id = StrongId 0, cmd_account_id = StrongId 0, cmd_price = Price 0,
     cmd_qty = Quantity 0, cmd_side = Buy, cmd_order_type = Limit, cmd_tif = GTC, cmd_conn_id = - 1\<rparr>"

section \<open>Sequence numbers\<close>

type_synonym sequence_manager = u64

definition sequence_new :: sequence_manager where
  "sequence_new = 1"

definition next_sequence :: "sequence_manager \<Rightarrow> u64 \<times> sequence_manager" where
  "next_sequence s = (s, s + 1)"

definition sequence_reset :: "u64 \<Rightarrow> sequence_manager \<Rightarrow> sequence_manager" where
  "sequence_reset start s = start"

section \<open>Sessions\<close>

definition BUFFER_SIZE :: nat where "BUFFER_SIZE = 8192"
definition MAX_CONNECTIONS :: nat where "MAX_CONNECTIONS = 64"

record client_connection =
  cc_conn_id :: s32
  cc_client_id :: u32
  cc_account_id :: u32
  cc_authenticated :: bool
  cc_last_heartbeat_ts :: u64
  cc_next_inbound_seq :: u64
  cc_next_outbound_seq :: u64
  cc_buffer :: "u8 list"
  cc_buffer_len :: nat

definition connection_default :: client_connection where
  "connection_default = \<lparr>cc_conn_id = - 1, cc_client_id = 0, cc_account_id = 0, cc_authenticated = False,
     cc_last_heartbeat_ts = 0, cc_next_inbound_seq = 1, cc_next_outbound_seq = 1,
     cc_buffer = replicate BUFFER_SIZE 0, cc_buffer_len = 0\<rparr>"

text \<open>A pointer to a connection is its index in the array.\<close>

record session_manager =
  sm_connections :: "client_connection list"
  sm_active_count :: nat

definition sessions_reset :: session_manager where
  "sessions_reset = \<lparr>sm_connections = replicate MAX_CONNECTIONS connection_default, sm_active_count = 0\<rparr>"

definition get_connection :: "s32 \<Rightarrow> session_manager \<Rightarrow> nat option" where
  "get_connection conn_id sm = List.find (\<lambda>i. cc_conn_id (sm_connections sm ! i) = conn_id) [0..<sm_active_count sm]"

definition create_connection :: "s32 \<Rightarrow> session_manager \<Rightarrow> nat option \<times> session_manager" where
  "create_connection conn_id sm =
     (if sm_active_count sm \<ge> MAX_CONNECTIONS then (None, sm)
      else case get_connection conn_id sm of
             Some i \<Rightarrow> (Some i, sm)
           | None \<Rightarrow>
               let i = sm_active_count sm
               in (Some i, sm\<lparr>sm_active_count := i + 1,
                     sm_connections := (sm_connections sm)[i := connection_default\<lparr>cc_conn_id := conn_id\<rparr>]\<rparr>))"

definition remove_connection :: "s32 \<Rightarrow> session_manager \<Rightarrow> session_manager" where
  "remove_connection conn_id sm =
     (case get_connection conn_id sm of
        None \<Rightarrow> sm
      | Some i \<Rightarrow>
          let conns = sm_connections sm; n = sm_active_count sm;
              conns1 = (if i \<noteq> n - 1 then conns[i := conns ! (n - 1)] else conns)
          in sm\<lparr>sm_connections := conns1, sm_active_count := n - 1\<rparr>)"

definition update_connection :: "nat \<Rightarrow> (client_connection \<Rightarrow> client_connection) \<Rightarrow> session_manager \<Rightarrow> session_manager" where
  "update_connection i f sm = sm\<lparr>sm_connections := (sm_connections sm)[i := f (sm_connections sm ! i)]\<rparr>"

definition authenticate :: "s32 \<Rightarrow> u32 \<Rightarrow> u32 \<Rightarrow> u8 list \<Rightarrow> u8 list \<Rightarrow> session_manager \<Rightarrow> bool \<times> session_manager" where
  "authenticate conn_id client account username password sm =
     (case get_connection conn_id sm of
        None \<Rightarrow> (False, sm)
      | Some i \<Rightarrow>
          if username ! 0 = 0 \<or> password ! 0 = 0 then (False, sm)
          else (True, update_connection i (\<lambda>c. c\<lparr>cc_client_id := client, cc_account_id := account,
                  cc_authenticated := True, cc_last_heartbeat_ts := 0\<rparr>) sm))"

section \<open>Transports\<close>

text \<open>Results of the system calls of \<open>TcpTransport\<close>. \<open>recv\<close> answers with bytes, with zero, or with an
  error that does or does not mean that the call would block.\<close>

datatype recv_result = Received "u8 list" | PeerClosed | RecvError bool

record os_calls =
  os_socket :: s32
  os_bind :: s32
  os_listen :: s32
  os_accept :: s32
  os_recv :: "s32 \<Rightarrow> recv_result"
  os_write :: "s32 \<Rightarrow> u8 list \<Rightarrow> int"

record simulation_transport =
  sim_listener :: bool
  sim_sent_messages :: "u8 list list"

text \<open>\<open>tcp_written\<close> and \<open>tcp_closed\<close> record the calls of \<open>write\<close> and \<open>close\<close>.\<close>

record tcp_transport =
  tcp_server_fd :: s32
  tcp_clients :: "s32 list"
  tcp_listener :: bool
  tcp_written :: "(s32 \<times> u8 list) list"
  tcp_closed :: "s32 list"

datatype transport = Simulation simulation_transport | Tcp tcp_transport

definition simulation_new :: transport where
  "simulation_new = Simulation \<lparr>sim_listener = False, sim_sent_messages = []\<rparr>"

definition tcp_new :: transport where
  "tcp_new = Tcp \<lparr>tcp_server_fd = - 1, tcp_clients = [], tcp_listener = False, tcp_written = [], tcp_closed = []\<rparr>"

definition simulation_send :: "u8 list \<Rightarrow> simulation_transport \<Rightarrow> bool \<times> simulation_transport" where
  "simulation_send data t = (True, t\<lparr>sim_sent_messages := sim_sent_messages t @ [data]\<rparr>)"

definition clear_sent :: "simulation_transport \<Rightarrow> simulation_transport" where
  "clear_sent t = t\<lparr>sim_sent_messages := []\<rparr>"

definition tcp_send :: "os_calls \<Rightarrow> s32 \<Rightarrow> u8 list \<Rightarrow> tcp_transport \<Rightarrow> bool \<times> tcp_transport" where
  "tcp_send os conn_id data t =
     (os_write os conn_id data = int (length data), t\<lparr>tcp_written := tcp_written t @ [(conn_id, data)]\<rparr>)"

definition tcp_start :: "os_calls \<Rightarrow> tcp_transport \<Rightarrow> bool \<times> tcp_transport" where
  "tcp_start os t =
     (let t1 = t\<lparr>tcp_server_fd := os_socket os\<rparr>;
          failed = t1\<lparr>tcp_closed := tcp_closed t1 @ [tcp_server_fd t1], tcp_server_fd := - 1\<rparr>
      in if sint (os_socket os) < 0 then (False, t1)
         else if sint (os_bind os) < 0 then (False, failed)
         else if sint (os_listen os) < 0 then (False, failed)
         else (True, t1))"

definition tcp_stop :: "tcp_transport \<Rightarrow> tcp_transport" where
  "tcp_stop t =
     (let t1 = (if sint (tcp_server_fd t) \<ge> 0
                then t\<lparr>tcp_closed := tcp_closed t @ [tcp_server_fd t], tcp_server_fd := - 1\<rparr> else t)
      in t1\<lparr>tcp_closed := tcp_closed t1 @ tcp_clients t1, tcp_clients := []\<rparr>)"

text \<open>The virtual methods, by the class of the transport.\<close>

fun transport_send :: "os_calls \<Rightarrow> s32 \<Rightarrow> u8 list \<Rightarrow> transport \<Rightarrow> bool \<times> transport" where
  "transport_send os conn_id data (Simulation t) = map_prod id Simulation (simulation_send data t)"
| "transport_send os conn_id data (Tcp t) = map_prod id Tcp (tcp_send os conn_id data t)"

fun transport_start :: "os_calls \<Rightarrow> transport \<Rightarrow> bool \<times> transport" where
  "transport_start os (Simulation t) = (True, Simulation t)"
| "transport_start os (Tcp t) = map_prod id Tcp (tcp_start os t)"

fun transport_stop :: "transport \<Rightarrow> transport" where
  "transport_stop (Simulation t) = Simulation t"
| "transport_stop (Tcp t) = Tcp (tcp_stop t)"

fun set_listener :: "transport \<Rightarrow> transport" where
  "set_listener (Simulation t) = Simulation (t\<lparr>sim_listener := True\<rparr>)"
| "set_listener (Tcp t) = Tcp (t\<lparr>tcp_listener := True\<rparr>)"

section \<open>The gateway\<close>

abbreviation inbound_cap :: u64 where "inbound_cap \<equiv> 4096"

record gateway =
  gw_transport :: "transport option"
  gw_inbound :: "order_command spsc_queue"
  gw_sessions :: session_manager
  gw_sequences :: sequence_manager
  gw_readings :: nat

definition gateway_new :: "transport option \<Rightarrow> order_command spsc_queue \<Rightarrow> gateway" where
  "gateway_new t q = \<lparr>gw_transport = map_option set_listener t, gw_inbound = q, gw_sessions = sessions_reset,
     gw_sequences = sequence_new, gw_readings = 0\<rparr>"

definition gateway_start :: "os_calls \<Rightarrow> gateway \<Rightarrow> bool \<times> gateway" where
  "gateway_start os g =
     (case gw_transport g of
        None \<Rightarrow> (False, g)
      | Some t \<Rightarrow> let (ok, t1) = transport_start os t in (ok, g\<lparr>gw_transport := Some t1\<rparr>))"

definition gateway_stop :: "gateway \<Rightarrow> gateway" where
  "gateway_stop g = g\<lparr>gw_transport := map_option transport_stop (gw_transport g), gw_sessions := sessions_reset\<rparr>"

definition on_connect :: "s32 \<Rightarrow> gateway \<Rightarrow> gateway" where
  "on_connect conn_id g = g\<lparr>gw_sessions := snd (create_connection conn_id (gw_sessions g))\<rparr>"

definition on_disconnect :: "s32 \<Rightarrow> gateway \<Rightarrow> gateway" where
  "on_disconnect conn_id g = g\<lparr>gw_sessions := remove_connection conn_id (gw_sessions g)\<rparr>"

text \<open>\<open>transport_->disconnect(conn_id)\<close>, which calls the listener back.\<close>

definition transport_disconnect :: "s32 \<Rightarrow> gateway \<Rightarrow> gateway run" where
  "transport_disconnect conn_id g =
     (case gw_transport g of
        None \<Rightarrow> fail NullDeref
      | Some (Simulation t) \<Rightarrow> ret (if sim_listener t then on_disconnect conn_id g else g)
      | Some (Tcp t) \<Rightarrow>
          let t1 = t\<lparr>tcp_clients := remove1 conn_id (tcp_clients t)\<rparr>;
              g1 = (if tcp_listener t then on_disconnect conn_id g else g)
          in ret (g1\<lparr>gw_transport := Some (Tcp (t1\<lparr>tcp_closed := tcp_closed t1 @ [conn_id]\<rparr>))\<rparr>))"

text \<open>\<open>Clock::now_steady()\<close>.\<close>

definition read_clock :: "(nat \<Rightarrow> u64) \<Rightarrow> gateway \<Rightarrow> u64 \<times> gateway" where
  "read_clock now g = (now (gw_readings g), g\<lparr>gw_readings := Suc (gw_readings g)\<rparr>)"

text \<open>\<open>send_packet\<close>; the write buffer has 8192 bytes.\<close>

definition send_packet :: "os_calls \<Rightarrow> ('p \<Rightarrow> u8 list) \<Rightarrow> ((message_header \<Rightarrow> message_header) \<Rightarrow> 'p \<Rightarrow> 'p) \<Rightarrow> nat \<Rightarrow>
    s32 \<Rightarrow> message_type \<Rightarrow> u64 \<Rightarrow> u64 \<Rightarrow> 'p \<Rightarrow> gateway \<Rightarrow> bool \<times> gateway" where
  "send_packet os to_bytes header_update sz conn_id ty seq ts packet g =
     (case gw_transport g of
        None \<Rightarrow> (False, g)
      | Some t \<Rightarrow>
          let data = encode to_bytes header_update sz 8192 ty seq ts packet
          in if data = [] then (False, g)
             else let (ok, t1) = transport_send os conn_id data t in (ok, g\<lparr>gw_transport := Some t1\<rparr>))"

definition blank_header :: message_header where
  "blank_header = \<lparr>mh_length = 0, mh_type = 0, mh_padding = 0, mh_sequence = 0, mh_timestamp = 0\<rparr>"

text \<open>The characters of \<open>Auth Failure\<close>.\<close>

definition auth_failure :: "u8 list" where
  "auth_failure = [65, 117, 116, 104, 32, 70, 97, 105, 108, 117, 114, 101]"

definition send_login_response :: "os_calls \<Rightarrow> (nat \<Rightarrow> u64) \<Rightarrow> s32 \<Rightarrow> login_request_packet \<Rightarrow> bool \<Rightarrow> gateway \<Rightarrow> gateway" where
  "send_login_response os now conn_id packet ok g =
     (let resp = \<lparr>lrs_header = blank_header, lrs_client_id = lrq_client_id packet, lrs_account_id = lrq_account_id packet,
            lrs_success = (if ok then 1 else 0),
            lrs_reject_reason = (if ok then replicate 23 0 else auth_failure @ replicate 11 0)\<rparr>;
          (ts, g1) = read_clock now g
      in snd (send_packet os login_response_bytes lrs_header_update 56 conn_id MT_LoginResponse 0 ts resp g1))"

definition send_unauthenticated :: "os_calls \<Rightarrow> (nat \<Rightarrow> u64) \<Rightarrow> s32 \<Rightarrow> gateway \<Rightarrow> gateway" where
  "send_unauthenticated os now conn_id g =
     (let reject = \<lparr>rp_header = blank_header, rp_client_order_id = 0, rp_account_id = 0,
            rp_reason = reject_reason_code RejectNone, rp_padding = replicate 6 0\<rparr>;
          (ts, g1) = read_clock now g
      in snd (send_packet os reject_bytes rp_header_update 48 conn_id MT_Reject 0 ts reject g1))"

definition send_heartbeat :: "os_calls \<Rightarrow> (nat \<Rightarrow> u64) \<Rightarrow> s32 \<Rightarrow> gateway \<Rightarrow> gateway" where
  "send_heartbeat os now conn_id g =
     (let (ts, g1) = read_clock now g
      in snd (send_packet os heartbeat_bytes hb_header_update 24 conn_id MT_Heartbeat 0 ts \<lparr>hb_header = blank_header\<rparr> g1))"

text \<open>The command of an order packet, without the sequence number and the time.\<close>

definition new_order_command :: "s32 \<Rightarrow> new_order_packet \<Rightarrow> order_command" where
  "new_order_command conn_id packet = command_default\<lparr>cmd_type := CmdNewOrder,
     cmd_client_order_id := no_client_order_id packet, cmd_symbol_id := StrongId (no_symbol_id packet),
     cmd_account_id := StrongId (no_account_id packet), cmd_price := Price (no_price_ticks packet),
     cmd_qty := Quantity (no_qty_units packet), cmd_side := (if no_side packet = 0 then Buy else Sell),
     cmd_order_type := (if no_type packet = 0 then Limit else Market), cmd_tif := tif_of_code (no_tif packet),
     cmd_conn_id := conn_id\<rparr>"

definition cancel_order_command :: "s32 \<Rightarrow> cancel_order_packet \<Rightarrow> order_command" where
  "cancel_order_command conn_id packet = command_default\<lparr>cmd_type := CmdCancelOrder,
     cmd_client_order_id := co_client_order_id packet, cmd_orig_client_order_id := co_orig_client_order_id packet,
     cmd_symbol_id := StrongId (co_symbol_id packet), cmd_account_id := StrongId (co_account_id packet),
     cmd_conn_id := conn_id\<rparr>"

definition replace_order_command :: "s32 \<Rightarrow> replace_order_packet \<Rightarrow> order_command" where
  "replace_order_command conn_id packet = command_default\<lparr>cmd_type := CmdReplaceOrder,
     cmd_client_order_id := ro_client_order_id packet, cmd_orig_client_order_id := ro_orig_client_order_id packet,
     cmd_symbol_id := StrongId (ro_symbol_id packet), cmd_account_id := StrongId (ro_account_id packet),
     cmd_price := Price (ro_price_ticks packet), cmd_qty := Quantity (ro_qty_units packet), cmd_conn_id := conn_id\<rparr>"

text \<open>Sequence number, time, push; the result of \<open>push\<close> is not looked at.\<close>

definition enqueue_command :: "(nat \<Rightarrow> u64) \<Rightarrow> order_command \<Rightarrow> gateway \<Rightarrow> gateway" where
  "enqueue_command now cmd g =
     (let (seq, sequences) = next_sequence (gw_sequences g);
          (ts, g1) = read_clock now (g\<lparr>gw_sequences := sequences\<rparr>);
          (_, q) = spsc_push inbound_cap (cmd\<lparr>cmd_sequence := seq, cmd_timestamp := ts\<rparr>) (gw_inbound g1)
      in g1\<lparr>gw_inbound := q\<rparr>)"

text \<open>\<open>payload - sizeof(MessageHeader)\<close> is the start of the frame, index \<open>off\<close> of the buffer \<open>mem\<close>. The
  packet is read as the whole struct, whatever the length in the header.\<close>

definition handle_packet :: "os_calls \<Rightarrow> (nat \<Rightarrow> u64) \<Rightarrow> s32 \<Rightarrow> message_header \<Rightarrow> u8 list \<Rightarrow> nat \<Rightarrow> gateway \<Rightarrow> gateway run" where
  "handle_packet os now conn_id header mem off g =
     (case get_connection conn_id (gw_sessions g) of
        None \<Rightarrow> ret g
      | Some i \<Rightarrow>
          if mh_type header = message_type_code MT_LoginRequest then
            bind_run (view mem off 64) (\<lambda>bs.
            let packet = read_login_request bs;
                (ok, sm) = authenticate conn_id (lrq_client_id packet) (lrq_account_id packet)
                             (lrq_username packet) (lrq_password packet) (gw_sessions g)
            in ret (send_login_response os now conn_id packet ok (g\<lparr>gw_sessions := sm\<rparr>)))
          else if \<not> cc_authenticated (sm_connections (gw_sessions g) ! i) then
            ret (send_unauthenticated os now conn_id g)
          else if mh_type header = message_type_code MT_Heartbeat then
            let (ts, g1) = read_clock now g;
                g2 = g1\<lparr>gw_sessions := update_connection i (\<lambda>c. c\<lparr>cc_last_heartbeat_ts := ts\<rparr>) (gw_sessions g1)\<rparr>
            in ret (send_heartbeat os now conn_id g2)
          else if mh_type header = message_type_code MT_Logout then
            ret (g\<lparr>gw_sessions := update_connection i (\<lambda>c. c\<lparr>cc_authenticated := False\<rparr>) (gw_sessions g)\<rparr>)
          else if mh_type header = message_type_code MT_NewOrder then
            bind_run (view mem off 64) (\<lambda>bs. ret (enqueue_command now (new_order_command conn_id (read_new_order bs)) g))
          else if mh_type header = message_type_code MT_CancelOrder then
            bind_run (view mem off 48) (\<lambda>bs. ret (enqueue_command now (cancel_order_command conn_id (read_cancel_order bs)) g))
          else if mh_type header = message_type_code MT_ReplaceOrder then
            bind_run (view mem off 64) (\<lambda>bs. ret (enqueue_command now (replace_order_command conn_id (read_replace_order bs)) g))
          else ret g)"

text \<open>The frame parser loop on connection number \<open>i\<close>.\<close>

partial_function (option) parse_frames :: "os_calls \<Rightarrow> (nat \<Rightarrow> u64) \<Rightarrow> s32 \<Rightarrow> nat \<Rightarrow> nat \<Rightarrow> gateway \<Rightarrow> (nat \<times> gateway) run" where
  "parse_frames os now conn_id i processed g =
     (let conn = sm_connections (gw_sessions g) ! i
      in if processed < cc_buffer_len conn then
           case decode (take (cc_buffer_len conn - processed) (drop processed (cc_buffer conn))) of
             None \<Rightarrow> ret (processed, g)
           | Some (header, bytes_read) \<Rightarrow>
               bind_run (handle_packet os now conn_id header (cc_buffer conn) processed g) (\<lambda>g1.
               parse_frames os now conn_id i (processed + bytes_read) g1)
         else ret (processed, g))"

text \<open>\<open>memcpy\<close> behind the buffered bytes, and \<open>memmove\<close> of the rest to the front.\<close>

definition buffer_append :: "u8 list \<Rightarrow> client_connection \<Rightarrow> client_connection" where
  "buffer_append data c = c\<lparr>cc_buffer := take (cc_buffer_len c) (cc_buffer c) @ data @
     drop (cc_buffer_len c + length data) (cc_buffer c), cc_buffer_len := cc_buffer_len c + length data\<rparr>"

definition buffer_shift :: "nat \<Rightarrow> client_connection \<Rightarrow> client_connection" where
  "buffer_shift processed c =
     (if processed > 0 then
        if processed < cc_buffer_len c then
          let rest = take (cc_buffer_len c - processed) (drop processed (cc_buffer c))
          in c\<lparr>cc_buffer := rest @ drop (length rest) (cc_buffer c), cc_buffer_len := cc_buffer_len c - processed\<rparr>
        else c\<lparr>cc_buffer_len := 0\<rparr>
      else c)"

definition on_read :: "os_calls \<Rightarrow> (nat \<Rightarrow> u64) \<Rightarrow> s32 \<Rightarrow> u8 list \<Rightarrow> gateway \<Rightarrow> gateway run" where
  "on_read os now conn_id data g =
     (case get_connection conn_id (gw_sessions g) of
        None \<Rightarrow> ret g
      | Some i \<Rightarrow>
          if cc_buffer_len (sm_connections (gw_sessions g) ! i) + length data > BUFFER_SIZE then
            transport_disconnect conn_id g
          else
            bind_run (parse_frames os now conn_id i 0 (g\<lparr>gw_sessions := update_connection i (buffer_append data) (gw_sessions g)\<rparr>))
              (\<lambda>(processed, g1).
            ret (g1\<lparr>gw_sessions := update_connection i (buffer_shift processed) (gw_sessions g1)\<rparr>)))"

section \<open>Polling\<close>

text \<open>The clients and the listener of the transport the gateway polls.\<close>

definition polled_clients :: "gateway \<Rightarrow> s32 list" where
  "polled_clients g = (case gw_transport g of Some (Tcp t) \<Rightarrow> tcp_clients t | _ \<Rightarrow> [])"

definition polled_listener :: "gateway \<Rightarrow> bool" where
  "polled_listener g = (case gw_transport g of Some (Tcp t) \<Rightarrow> tcp_listener t | _ \<Rightarrow> False)"

definition tcp_accept :: "os_calls \<Rightarrow> tcp_transport \<Rightarrow> gateway \<Rightarrow> gateway" where
  "tcp_accept os t g =
     (if sint (os_accept os) \<ge> 0 then
        let g1 = g\<lparr>gw_transport := Some (Tcp (t\<lparr>tcp_clients := tcp_clients t @ [os_accept os]\<rparr>))\<rparr>
        in if tcp_listener t then on_connect (os_accept os) g1 else g1
      else g)"

text \<open>The loop over the clients. Its iterators do not survive a change of the vector of clients during
  the callback.\<close>

fun tcp_receive :: "os_calls \<Rightarrow> (nat \<Rightarrow> u64) \<Rightarrow> s32 list \<Rightarrow> s32 list \<Rightarrow> gateway \<Rightarrow> (s32 list \<times> gateway) run" where
  "tcp_receive os now [] disconnected g = ret (disconnected, g)"
| "tcp_receive os now (fd # fds) disconnected g =
     (case os_recv os fd of
        Received data \<Rightarrow>
          if polled_listener g then
            bind_run (on_read os now fd data g) (\<lambda>g1.
            if polled_clients g1 \<noteq> polled_clients g then fail DanglingDeref
            else tcp_receive os now fds disconnected g1)
          else tcp_receive os now fds disconnected g
      | PeerClosed \<Rightarrow> tcp_receive os now fds (disconnected @ [fd]) g
      | RecvError would_block \<Rightarrow>
          tcp_receive os now fds (if would_block then disconnected else disconnected @ [fd]) g)"

fun tcp_drop :: "s32 list \<Rightarrow> gateway \<Rightarrow> gateway run" where
  "tcp_drop [] g = ret g"
| "tcp_drop (fd # fds) g = bind_run (transport_disconnect fd g) (tcp_drop fds)"

definition gateway_poll :: "os_calls \<Rightarrow> (nat \<Rightarrow> u64) \<Rightarrow> gateway \<Rightarrow> gateway run" where
  "gateway_poll os now g =
     (case gw_transport g of
        Some (Tcp t) \<Rightarrow>
          if sint (tcp_server_fd t) < 0 then ret g
          else
            let g1 = tcp_accept os t g
            in bind_run (tcp_receive os now (polled_clients g1) [] g1) (\<lambda>(disconnected, g2).
               tcp_drop disconnected g2)
      | _ \<Rightarrow> ret g)"

text \<open>The test hooks of \<open>SimulationTransport\<close>.\<close>

definition simulate_connect :: "s32 \<Rightarrow> simulation_transport \<Rightarrow> gateway \<Rightarrow> gateway" where
  "simulate_connect conn_id t g = (if sim_listener t then on_connect conn_id g else g)"

definition simulate_disconnect :: "s32 \<Rightarrow> simulation_transport \<Rightarrow> gateway \<Rightarrow> gateway" where
  "simulate_disconnect conn_id t g = (if sim_listener t then on_disconnect conn_id g else g)"

definition simulate_read :: "os_calls \<Rightarrow> (nat \<Rightarrow> u64) \<Rightarrow> s32 \<Rightarrow> u8 list \<Rightarrow> simulation_transport \<Rightarrow> gateway \<Rightarrow> gateway run" where
  "simulate_read os now conn_id data t g = (if sim_listener t then on_read os now conn_id data g else ret g)"

end
