(* ===== verification/Gateway_Properties.thy ===== *)
theory Gateway_Properties
  imports Gateway
begin

text \<open>
  What the gateway guarantees: the session table is a bounded map of connections, the framing does
  not depend on how the bytes of a stream are cut into pieces, order messages reach the inbound queue
  as they were sent and only after a login; and a frame of length zero makes the parser loop forever.
\<close>

section \<open>Sessions\<close>

definition sessions_ok :: "session_manager \<Rightarrow> bool" where
  "sessions_ok sm \<longleftrightarrow> length (sm_connections sm) = MAX_CONNECTIONS \<and> sm_active_count sm \<le> MAX_CONNECTIONS \<and>
     distinct (map cc_conn_id (take (sm_active_count sm) (sm_connections sm))) \<and>
     (\<forall>c \<in> set (sm_connections sm). length (cc_buffer c) = BUFFER_SIZE \<and> cc_buffer_len c \<le> BUFFER_SIZE)"

definition lookup_connection :: "session_manager \<Rightarrow> s32 \<Rightarrow> client_connection option" where
  "lookup_connection sm conn_id = map_option ((!) (sm_connections sm)) (get_connection conn_id sm)"

lemma sessions_ok_distinct:
  assumes "sessions_ok sm" and "i < sm_active_count sm" and "j < sm_active_count sm"
    and "cc_conn_id (sm_connections sm ! i) = cc_conn_id (sm_connections sm ! j)"
  shows "i = j"
proof -
  let ?ids = "map cc_conn_id (take (sm_active_count sm) (sm_connections sm))"
  have "distinct ?ids" and len: "length ?ids = sm_active_count sm"
    using assms(1) by (auto simp: sessions_ok_def)
  moreover have "?ids ! i = ?ids ! j"
    using assms(2-4) len by simp
  ultimately show ?thesis
    using assms(2,3) nth_eq_iff_index_eq by metis
qed

lemma get_connection_iff:
  assumes "sessions_ok sm"
  shows "get_connection conn_id sm = Some i \<longleftrightarrow>
    i < sm_active_count sm \<and> cc_conn_id (sm_connections sm ! i) = conn_id"
proof
  assume "get_connection conn_id sm = Some i"
  then show "i < sm_active_count sm \<and> cc_conn_id (sm_connections sm ! i) = conn_id"
    unfolding get_connection_def by (auto simp: find_Some_iff)
next
  assume i: "i < sm_active_count sm \<and> cc_conn_id (sm_connections sm ! i) = conn_id"
  then have "\<forall>j < i. cc_conn_id (sm_connections sm ! j) \<noteq> conn_id"
    using sessions_ok_distinct [OF assms, of _ i] by (metis less_trans less_irrefl)
  with i show "get_connection conn_id sm = Some i"
    unfolding get_connection_def by (auto simp: find_Some_iff intro!: exI [of _ i])
qed

lemma get_connection_None:
  "get_connection conn_id sm = None \<longleftrightarrow> (\<forall>i < sm_active_count sm. cc_conn_id (sm_connections sm ! i) \<noteq> conn_id)"
  unfolding get_connection_def by (auto simp: find_None_iff)

lemma sessions_ok_reset: "sessions_ok sessions_reset"
  by (simp add: sessions_ok_def sessions_reset_def connection_default_def)

lemma lookup_reset: "lookup_connection sessions_reset conn_id = None"
  by (simp add: lookup_connection_def get_connection_def sessions_reset_def)

lemma take_list_update_same: "i < n \<Longrightarrow> map f (take n (xs[i := y])) = (map f (take n xs))[i := f y]"
  by (simp add: take_update_swap map_update)

lemma sessions_ok_update:
  assumes "sessions_ok sm" and "get_connection conn_id sm = Some i"
    and "\<And>c. cc_conn_id (f c) = cc_conn_id c"
    and "length (cc_buffer (f (sm_connections sm ! i))) = BUFFER_SIZE" "cc_buffer_len (f (sm_connections sm ! i)) \<le> BUFFER_SIZE"
  shows "sessions_ok (update_connection i f sm)"
    and "get_connection j (update_connection i f sm) = get_connection j sm"
proof -
  have i: "i < sm_active_count sm" "i < length (sm_connections sm)"
    using get_connection_iff [OF assms(1)] assms(1,2) by (auto simp: sessions_ok_def)
  have ids: "cc_conn_id ((sm_connections sm)[i := f (sm_connections sm ! i)] ! k) = cc_conn_id (sm_connections sm ! k)" for k
    using i assms(3) by (cases "k = i") simp_all
  have "map cc_conn_id (take (sm_active_count sm) ((sm_connections sm)[i := f (sm_connections sm ! i)])) =
      map cc_conn_id (take (sm_active_count sm) (sm_connections sm))"
    using i assms(1) by (intro nth_equalityI) (auto simp: ids sessions_ok_def)
  moreover have "\<forall>c \<in> set ((sm_connections sm)[i := f (sm_connections sm ! i)]).
      length (cc_buffer c) = BUFFER_SIZE \<and> cc_buffer_len c \<le> BUFFER_SIZE"
    using assms(1,4,5) set_update_subset_insert [of "sm_connections sm" i] unfolding sessions_ok_def by blast
  ultimately show "sessions_ok (update_connection i f sm)"
    using assms(1) by (simp add: sessions_ok_def update_connection_def)
  show "get_connection j (update_connection i f sm) = get_connection j sm"
    by (simp add: get_connection_def update_connection_def ids)
qed

lemma update_connection_nth:
  assumes "sessions_ok sm" and "get_connection conn_id sm = Some i"
  shows "sm_connections (update_connection i f sm) ! i = f (sm_connections sm ! i)"
proof -
  have "i < length (sm_connections sm)"
    using get_connection_iff [OF assms(1)] assms(1,2) by (auto simp: sessions_ok_def)
  then show ?thesis
    by (simp add: update_connection_def)
qed

lemma lookup_iff:
  assumes "sessions_ok sm"
  shows "lookup_connection sm j = Some c \<longleftrightarrow> (\<exists>i < sm_active_count sm. c = sm_connections sm ! i \<and> cc_conn_id c = j)"
  using get_connection_iff [OF assms, of j] by (auto simp: lookup_connection_def)

lemma lookup_eqI:
  assumes "sessions_ok sm"
    and "\<And>c. (\<exists>i < sm_active_count sm. c = sm_connections sm ! i \<and> cc_conn_id c = j) \<longleftrightarrow> x = Some c"
  shows "lookup_connection sm j = x"
  using assms(2) lookup_iff [OF assms(1), of j] by (metis not_Some_eq)

lemma create_connection_ok:
  assumes "sessions_ok sm"
  shows "sessions_ok (snd (create_connection conn_id sm))"
    and "lookup_connection (snd (create_connection conn_id sm)) j =
      (if j = conn_id \<and> lookup_connection sm conn_id = None \<and> sm_active_count sm < MAX_CONNECTIONS
       then Some (connection_default\<lparr>cc_conn_id := conn_id\<rparr>) else lookup_connection sm j)"
proof -
  let ?sm = "snd (create_connection conn_id sm)" and ?n = "sm_active_count sm"
  have "sessions_ok ?sm \<and> lookup_connection ?sm j =
      (if j = conn_id \<and> lookup_connection sm conn_id = None \<and> ?n < MAX_CONNECTIONS
       then Some (connection_default\<lparr>cc_conn_id := conn_id\<rparr>) else lookup_connection sm j)"
  proof (cases "?n < MAX_CONNECTIONS \<and> get_connection conn_id sm = None")
    case False
    then have "?sm = sm"
      by (auto simp: create_connection_def Let_def split: option.splits)
    then show ?thesis
      using assms False by (auto simp: lookup_connection_def)
  next
    case True
    let ?c = "connection_default\<lparr>cc_conn_id := conn_id\<rparr>"
    let ?conns = "(sm_connections sm)[?n := ?c]"
    have sm: "?sm = sm\<lparr>sm_active_count := Suc ?n, sm_connections := ?conns\<rparr>"
      using True by (auto simp: create_connection_def Let_def)
    have len: "length (sm_connections sm) = MAX_CONNECTIONS" and new: "\<forall>i < ?n. cc_conn_id (sm_connections sm ! i) \<noteq> conn_id"
      using assms True by (auto simp: sessions_ok_def get_connection_None)
    have "take (Suc ?n) ?conns = take ?n (sm_connections sm) @ [?c]"
      using True len by (simp add: take_Suc_conv_app_nth)
    moreover have "conn_id \<notin> set (map cc_conn_id (take ?n (sm_connections sm)))"
    proof
      assume "conn_id \<in> set (map cc_conn_id (take ?n (sm_connections sm)))"
      then obtain i where "i < ?n" "cc_conn_id (sm_connections sm ! i) = conn_id"
        by (auto simp: in_set_conv_nth)
      with new show False
        by blast
    qed
    moreover have "\<forall>c \<in> set ?conns. length (cc_buffer c) = BUFFER_SIZE \<and> cc_buffer_len c \<le> BUFFER_SIZE"
      using assms set_update_subset_insert [of "sm_connections sm" ?n ?c] unfolding sessions_ok_def
      by (auto simp: connection_default_def)
    ultimately have ok: "sessions_ok ?sm"
      using assms True len by (simp add: sm sessions_ok_def)
    have "lookup_connection ?sm j = (if j = conn_id then Some ?c else lookup_connection sm j)"
    proof (rule lookup_eqI [OF ok])
      fix c
      have "(\<exists>i < Suc ?n. c = ?conns ! i \<and> cc_conn_id c = j) \<longleftrightarrow>
          (c = ?c \<and> cc_conn_id c = j) \<or> (\<exists>i < ?n. c = sm_connections sm ! i \<and> cc_conn_id c = j)"
        using True len by (auto simp: less_Suc_eq)
      also have "\<dots> \<longleftrightarrow> (if j = conn_id then Some ?c else lookup_connection sm j) = Some c"
        using new lookup_iff [OF assms, of j c] by auto
      finally show "(\<exists>i < sm_active_count ?sm. c = sm_connections ?sm ! i \<and> cc_conn_id c = j) \<longleftrightarrow>
          (if j = conn_id then Some ?c else lookup_connection sm j) = Some c"
        by (simp add: sm)
    qed
    then show ?thesis
      using ok True by (simp add: lookup_connection_def)
  qed
  then show "sessions_ok ?sm" and "lookup_connection ?sm j =
      (if j = conn_id \<and> lookup_connection sm conn_id = None \<and> ?n < MAX_CONNECTIONS
       then Some (connection_default\<lparr>cc_conn_id := conn_id\<rparr>) else lookup_connection sm j)"
    by blast+
qed

lemma remove_connection_ok:
  assumes "sessions_ok sm"
  shows "sessions_ok (remove_connection conn_id sm)"
    and "lookup_connection (remove_connection conn_id sm) j = (if j = conn_id then None else lookup_connection sm j)"
proof -
  let ?sm = "remove_connection conn_id sm" and ?n = "sm_active_count sm" and ?cs = "sm_connections sm"
  have "sessions_ok ?sm \<and> lookup_connection ?sm j = (if j = conn_id then None else lookup_connection sm j)"
  proof (cases "get_connection conn_id sm")
    case None
    then show ?thesis
      using assms by (simp add: remove_connection_def lookup_connection_def)
  next
    case (Some i)
    let ?conns = "?cs[i := ?cs ! (?n - 1)]"
    have i: "i < ?n" "cc_conn_id (?cs ! i) = conn_id" and n: "?n \<le> length ?cs" "length ?cs = MAX_CONNECTIONS"
      using get_connection_iff [OF assms] Some assms by (auto simp: sessions_ok_def)
    have sm: "?sm = sm\<lparr>sm_connections := ?conns, sm_active_count := ?n - 1\<rparr>"
      using Some i n by (auto simp: remove_connection_def Let_def)
    have inj: "a = b" if "a < ?n" "b < ?n" "cc_conn_id (?cs ! a) = cc_conn_id (?cs ! b)" for a b
      using sessions_ok_distinct [OF assms that] .
    have nth: "?conns ! a = ?cs ! (if a = i then ?n - 1 else a)" if "a < ?n - 1" for a
      using that i n by simp
    have "distinct (map cc_conn_id (take (?n - 1) ?conns))"
    proof (unfold distinct_conv_nth, intro allI impI)
      fix a b
      assume "a < length (map cc_conn_id (take (?n - 1) ?conns))" "b < length (map cc_conn_id (take (?n - 1) ?conns))" "a \<noteq> b"
      then have ab: "a < ?n - 1" "b < ?n - 1" "a \<noteq> b" "a < ?n" "b < ?n"
        by auto
      have "cc_conn_id (?conns ! a) \<noteq> cc_conn_id (?conns ! b)"
        unfolding nth [OF ab(1)] nth [OF ab(2)]
        using inj [of "if a = i then ?n - 1 else a" "if b = i then ?n - 1 else b"] ab by (auto split: if_splits)
      then show "map cc_conn_id (take (?n - 1) ?conns) ! a \<noteq> map cc_conn_id (take (?n - 1) ?conns) ! b"
        using ab n by simp
    qed
    moreover have "\<forall>c \<in> set ?conns. length (cc_buffer c) = BUFFER_SIZE \<and> cc_buffer_len c \<le> BUFFER_SIZE"
      using assms set_update_subset_insert [of ?cs i "?cs ! (?n - 1)"] i n nth_mem [of "?n - 1" ?cs]
      unfolding sessions_ok_def by fastforce
    ultimately have ok: "sessions_ok ?sm"
      using assms n by (auto simp: sm sessions_ok_def)
    have "lookup_connection ?sm j = (if j = conn_id then None else lookup_connection sm j)"
    proof (rule lookup_eqI [OF ok])
      fix c
      have "(\<exists>a < ?n - 1. c = ?conns ! a \<and> cc_conn_id c = j) \<longleftrightarrow> (\<exists>a < ?n. a \<noteq> i \<and> c = ?cs ! a \<and> cc_conn_id c = j)"
      proof
        assume "\<exists>a < ?n - 1. c = ?conns ! a \<and> cc_conn_id c = j"
        then obtain a where "a < ?n - 1" "c = ?cs ! (if a = i then ?n - 1 else a)" "cc_conn_id c = j"
          using nth by auto
        then show "\<exists>a < ?n. a \<noteq> i \<and> c = ?cs ! a \<and> cc_conn_id c = j"
          by (intro exI [of _ "if a = i then ?n - 1 else a"]) auto
      next
        assume "\<exists>a < ?n. a \<noteq> i \<and> c = ?cs ! a \<and> cc_conn_id c = j"
        then obtain a where "a < ?n" "a \<noteq> i" "c = ?cs ! a" "cc_conn_id c = j"
          by blast
        then show "\<exists>a < ?n - 1. c = ?conns ! a \<and> cc_conn_id c = j"
          using i n by (intro exI [of _ "if a = ?n - 1 then i else a"]) auto
      qed
      also have "\<dots> \<longleftrightarrow> j \<noteq> conn_id \<and> lookup_connection sm j = Some c"
      proof -
        have "a \<noteq> i \<longleftrightarrow> cc_conn_id (?cs ! a) \<noteq> conn_id" if "a < ?n" for a
          using inj [OF that i(1)] i(2) by metis
        then show ?thesis
          unfolding lookup_iff [OF assms] by blast
      qed
      finally show "(\<exists>a < sm_active_count ?sm. c = sm_connections ?sm ! a \<and> cc_conn_id c = j) \<longleftrightarrow>
          (if j = conn_id then None else lookup_connection sm j) = Some c"
        by (simp add: sm)
    qed
    then show ?thesis
      using ok by blast
  qed
  then show "sessions_ok ?sm" and "lookup_connection ?sm j = (if j = conn_id then None else lookup_connection sm j)"
    by blast+
qed

lemma lookup_update:
  assumes "sessions_ok sm" and "get_connection conn_id sm = Some i" and "\<And>c. cc_conn_id (f c) = cc_conn_id c"
    and "length (cc_buffer (f (sm_connections sm ! i))) = BUFFER_SIZE" "cc_buffer_len (f (sm_connections sm ! i)) \<le> BUFFER_SIZE"
  shows "lookup_connection (update_connection i f sm) = (lookup_connection sm)(conn_id \<mapsto> f (sm_connections sm ! i))"
proof
  fix j
  note same = sessions_ok_update(2) [OF assms, of j] and nth = update_connection_nth [OF assms(1,2), of f]
  have "k \<noteq> i" if "get_connection j sm = Some k" "j \<noteq> conn_id" for k
    using that assms(2) get_connection_iff [OF assms(1)] by auto
  moreover have "sm_connections (update_connection i f sm) ! k = sm_connections sm ! k" if "k \<noteq> i" for k
    using that by (simp add: update_connection_def)
  ultimately show "lookup_connection (update_connection i f sm) j = ((lookup_connection sm)(conn_id \<mapsto> f (sm_connections sm ! i))) j"
    using nth assms(2) by (cases "get_connection j sm") (auto simp: lookup_connection_def same)
qed

lemma authenticate_ok:
  assumes "sessions_ok sm"
  shows "sessions_ok (snd (authenticate conn_id client account username password sm))"
    and "get_connection j (snd (authenticate conn_id client account username password sm)) = get_connection j sm"
proof -
  let ?f = "\<lambda>c. c\<lparr>cc_client_id := client, cc_account_id := account, cc_authenticated := True, cc_last_heartbeat_ts := 0\<rparr>"
  have buffers: "length (cc_buffer (sm_connections sm ! i)) = BUFFER_SIZE" "cc_buffer_len (sm_connections sm ! i) \<le> BUFFER_SIZE"
    if "get_connection conn_id sm = Some i" for i
    using get_connection_iff [OF assms] that assms by (auto simp: sessions_ok_def)
  show "sessions_ok (snd (authenticate conn_id client account username password sm))"
    and "get_connection j (snd (authenticate conn_id client account username password sm)) = get_connection j sm"
    using assms sessions_ok_update [OF assms, of conn_id _ ?f] buffers
    by (auto simp: authenticate_def split: option.splits)
qed

subsection \<open>The contract of the session table\<close>

text \<open>What the gateway relies on: connections are kept under their ids, at most \<open>MAX_CONNECTIONS\<close> of them.\<close>

locale session_table =
  fixes lookup :: "'sm \<Rightarrow> s32 \<Rightarrow> client_connection option"
    and create :: "s32 \<Rightarrow> 'sm \<Rightarrow> 'sm"
    and remove :: "s32 \<Rightarrow> 'sm \<Rightarrow> 'sm"
    and invar :: "'sm \<Rightarrow> bool"
    and capacity :: nat
  assumes lookup_bound: "invar sm \<Longrightarrow> finite (dom (lookup sm)) \<and> card (dom (lookup sm)) \<le> capacity"
    and create_invar: "invar sm \<Longrightarrow> invar (create j sm)"
    and create_lookup: "invar sm \<Longrightarrow> lookup (create j sm) =
      (if lookup sm j = None \<and> card (dom (lookup sm)) < capacity
       then (lookup sm)(j \<mapsto> connection_default\<lparr>cc_conn_id := j\<rparr>) else lookup sm)"
    and remove_invar: "invar sm \<Longrightarrow> invar (remove j sm)"
    and remove_lookup: "invar sm \<Longrightarrow> lookup (remove j sm) = (lookup sm)(j := None)"
begin

lemma connect_disconnect: "invar sm \<Longrightarrow> lookup sm j = None \<Longrightarrow> lookup (remove j (create j sm)) = lookup sm"
  by (auto simp: remove_lookup create_invar create_lookup fun_eq_iff)

lemma reconnect_is_fresh:
  "invar sm \<Longrightarrow> lookup sm j \<noteq> None \<Longrightarrow> lookup (create j (remove j sm)) j = Some (connection_default\<lparr>cc_conn_id := j\<rparr>)"
  using lookup_bound [of sm] card_Diff1_less [of "dom (lookup sm)" j]
  by (auto simp: create_lookup remove_invar remove_lookup domI dom_fun_upd)

end

lemma lookup_dom:
  assumes "sessions_ok sm"
  shows "dom (lookup_connection sm) = set (map cc_conn_id (take (sm_active_count sm) (sm_connections sm)))"
    and "card (dom (lookup_connection sm)) = sm_active_count sm"
proof -
  have n: "sm_active_count sm \<le> length (sm_connections sm)" "distinct (map cc_conn_id (take (sm_active_count sm) (sm_connections sm)))"
    using assms by (auto simp: sessions_ok_def)
  show dom: "dom (lookup_connection sm) = set (map cc_conn_id (take (sm_active_count sm) (sm_connections sm)))"
  proof (intro set_eqI)
    fix j
    have "j \<in> dom (lookup_connection sm) \<longleftrightarrow> (\<exists>i < sm_active_count sm. cc_conn_id (sm_connections sm ! i) = j)"
      using lookup_iff [OF assms, of j] by (simp add: dom_def)
    also have "\<dots> \<longleftrightarrow> j \<in> set (map cc_conn_id (take (sm_active_count sm) (sm_connections sm)))"
      unfolding set_map nth_image [OF n(1), symmetric] image_image by auto
    finally show "j \<in> dom (lookup_connection sm) \<longleftrightarrow> j \<in> set (map cc_conn_id (take (sm_active_count sm) (sm_connections sm)))" .
  qed
  show "card (dom (lookup_connection sm)) = sm_active_count sm"
    unfolding dom using distinct_card [OF n(2)] n(1) by simp
qed

interpretation sessions: session_table lookup_connection "\<lambda>j sm. snd (create_connection j sm)" remove_connection
  sessions_ok MAX_CONNECTIONS
proof unfold_locales
  fix sm j
  assume ok: "sessions_ok sm"
  show "finite (dom (lookup_connection sm)) \<and> card (dom (lookup_connection sm)) \<le> MAX_CONNECTIONS"
    using lookup_dom [OF ok] ok by (simp add: sessions_ok_def)
  show "sessions_ok (snd (create_connection j sm))" "sessions_ok (remove_connection j sm)"
    by (rule create_connection_ok(1) [OF ok], rule remove_connection_ok(1) [OF ok])
  show "lookup_connection (snd (create_connection j sm)) =
      (if lookup_connection sm j = None \<and> card (dom (lookup_connection sm)) < MAX_CONNECTIONS
       then (lookup_connection sm)(j \<mapsto> connection_default\<lparr>cc_conn_id := j\<rparr>) else lookup_connection sm)"
    by (simp add: fun_eq_iff create_connection_ok(2) [OF ok] lookup_dom(2) [OF ok])
  show "lookup_connection (remove_connection j sm) = (lookup_connection sm)(j := None)"
    by (simp add: fun_eq_iff remove_connection_ok(2) [OF ok])
qed

section \<open>One packet\<close>

text \<open>The gateway without the contents of the framing buffers, which no packet handler looks at.\<close>

definition strip_buffer :: "client_connection \<Rightarrow> client_connection" where
  "strip_buffer c = c\<lparr>cc_buffer := [], cc_buffer_len := 0\<rparr>"

definition strip_sessions :: "session_manager \<Rightarrow> session_manager" where
  "strip_sessions sm = sm\<lparr>sm_connections := map strip_buffer (sm_connections sm)\<rparr>"

definition gw_core :: "gateway \<Rightarrow> gateway" where
  "gw_core g = g\<lparr>gw_sessions := strip_sessions (gw_sessions g)\<rparr>"

definition buffered :: "client_connection \<Rightarrow> u8 list" where
  "buffered c = take (cc_buffer_len c) (cc_buffer c)"

named_theorems gateway_frame "what a step of the gateway leaves alone"

lemma send_packet_frame [gateway_frame]:
  "send_packet os tb hu sz conn_id ty seq ts p (g\<lparr>gw_sessions := s\<rparr>) =
     (fst (send_packet os tb hu sz conn_id ty seq ts p g), (snd (send_packet os tb hu sz conn_id ty seq ts p g))\<lparr>gw_sessions := s\<rparr>)"
  "gw_sessions (snd (send_packet os tb hu sz conn_id ty seq ts p g)) = gw_sessions g"
  "gw_inbound (snd (send_packet os tb hu sz conn_id ty seq ts p g)) = gw_inbound g"
  "gw_sequences (snd (send_packet os tb hu sz conn_id ty seq ts p g)) = gw_sequences g"
  by (simp_all add: send_packet_def Let_def split: option.splits prod.splits)

lemma read_clock_frame [gateway_frame]:
  "read_clock now (g\<lparr>gw_sessions := s\<rparr>) = (fst (read_clock now g), (snd (read_clock now g))\<lparr>gw_sessions := s\<rparr>)"
  "gw_sessions (snd (read_clock now g)) = gw_sessions g" "gw_inbound (snd (read_clock now g)) = gw_inbound g"
  "gw_sequences (snd (read_clock now g)) = gw_sequences g"
  by (simp_all add: read_clock_def)

lemma send_frame [gateway_frame]:
  "send_login_response os now conn_id p ok (g\<lparr>gw_sessions := s\<rparr>) = (send_login_response os now conn_id p ok g)\<lparr>gw_sessions := s\<rparr>"
  "send_unauthenticated os now conn_id (g\<lparr>gw_sessions := s\<rparr>) = (send_unauthenticated os now conn_id g)\<lparr>gw_sessions := s\<rparr>"
  "send_heartbeat os now conn_id (g\<lparr>gw_sessions := s\<rparr>) = (send_heartbeat os now conn_id g)\<lparr>gw_sessions := s\<rparr>"
  "gw_sessions (send_login_response os now conn_id p ok g) = gw_sessions g"
  "gw_sessions (send_unauthenticated os now conn_id g) = gw_sessions g"
  "gw_sessions (send_heartbeat os now conn_id g) = gw_sessions g"
  "gw_inbound (send_login_response os now conn_id p ok g) = gw_inbound g"
  "gw_inbound (send_unauthenticated os now conn_id g) = gw_inbound g"
  "gw_inbound (send_heartbeat os now conn_id g) = gw_inbound g"
  "gw_sequences (send_login_response os now conn_id p ok g) = gw_sequences g"
  "gw_sequences (send_unauthenticated os now conn_id g) = gw_sequences g"
  "gw_sequences (send_heartbeat os now conn_id g) = gw_sequences g"
  by (simp_all add: send_login_response_def send_unauthenticated_def send_heartbeat_def Let_def case_prod_unfold gateway_frame)

lemma enqueue_frame [gateway_frame]:
  "enqueue_command now cmd (g\<lparr>gw_sessions := s\<rparr>) = (enqueue_command now cmd g)\<lparr>gw_sessions := s\<rparr>"
  "gw_sessions (enqueue_command now cmd g) = gw_sessions g"
  by (simp_all add: enqueue_command_def read_clock_def next_sequence_def Let_def case_prod_unfold)

text \<open>What a packet does to the sessions: at most one connection changes, and of it neither the id nor
  the buffer.\<close>

definition flags_only :: "(client_connection \<Rightarrow> client_connection) \<Rightarrow> bool" where
  "flags_only f \<longleftrightarrow> (\<forall>c. cc_conn_id (f c) = cc_conn_id c \<and> cc_buffer (f c) = cc_buffer c \<and>
     cc_buffer_len (f c) = cc_buffer_len c \<and> strip_buffer (f c) = f (strip_buffer c))"

lemma get_connection_strip: "sm_active_count sm \<le> length (sm_connections sm) \<Longrightarrow> get_connection j (strip_sessions sm) = get_connection j sm"
  unfolding get_connection_def strip_sessions_def by (auto intro!: find_cong simp: strip_buffer_def)

lemma strip_update:
  assumes "flags_only f" and "i < length (sm_connections sm)"
  shows "strip_sessions (update_connection i f sm) = update_connection i f (strip_sessions sm)"
  using assms by (simp add: strip_sessions_def update_connection_def flags_only_def map_update)

lemma authenticate_update:
  assumes "get_connection conn_id sm = Some i"
  shows "\<exists>f. flags_only f \<and> snd (authenticate conn_id client account username password sm) = update_connection i f sm"
proof (cases "username ! 0 = 0 \<or> password ! 0 = 0")
  case True
  then show ?thesis
    using assms by (intro exI [of _ id]) (auto simp: authenticate_def flags_only_def update_connection_def)
next
  case False
  then show ?thesis
    using assms by (auto simp: authenticate_def flags_only_def strip_buffer_def
        intro!: exI [of _ "\<lambda>c. c\<lparr>cc_client_id := client, cc_account_id := account, cc_authenticated := True, cc_last_heartbeat_ts := 0\<rparr>"])
qed

lemma authenticate_strip:
  assumes "get_connection conn_id sm = Some i" and "i < length (sm_connections sm)" and "sm_active_count sm \<le> length (sm_connections sm)"
  shows "authenticate conn_id client account username password (strip_sessions sm) =
    map_prod id strip_sessions (authenticate conn_id client account username password sm)"
  using assms(1) strip_update [OF _ assms(2), of "\<lambda>c. c\<lparr>cc_client_id := client, cc_account_id := account, cc_authenticated := True, cc_last_heartbeat_ts := 0\<rparr>"]
  by (auto simp: authenticate_def get_connection_strip [OF assms(3)] flags_only_def strip_buffer_def)

definition map_run :: "('a \<Rightarrow> 'b) \<Rightarrow> 'a run \<Rightarrow> 'b run" where
  "map_run f m = bind_run m (\<lambda>x. ret (f x))"

lemma map_run_simps [simp]:
  "map_run f (ret x) = ret (f x)" "map_run f (fail e) = fail e"
  by (simp_all add: map_run_def)

lemma session_bounds:
  assumes "sessions_ok sm" and "get_connection conn_id sm = Some i"
  shows "i < length (sm_connections sm)" "sm_active_count sm \<le> length (sm_connections sm)"
    "length (cc_buffer (sm_connections sm ! i)) = BUFFER_SIZE" "cc_buffer_len (sm_connections sm ! i) \<le> BUFFER_SIZE"
proof -
  show len: "i < length (sm_connections sm)" "sm_active_count sm \<le> length (sm_connections sm)"
    using get_connection_iff [OF assms(1)] assms by (auto simp: sessions_ok_def)
  then show "length (cc_buffer (sm_connections sm ! i)) = BUFFER_SIZE" "cc_buffer_len (sm_connections sm ! i) \<le> BUFFER_SIZE"
    using assms(1) by (simp_all add: sessions_ok_def)
qed

lemma handle_packet_sessions:
  assumes "sessions_ok (gw_sessions g)" and "get_connection conn_id (gw_sessions g) = Some i"
    and "handle_packet os now conn_id header mem off g = ret g'"
  shows "\<exists>f. flags_only f \<and> gw_sessions g' = update_connection i f (gw_sessions g)"
proof -
  have id: "flags_only id" "update_connection i id (gw_sessions g) = gw_sessions g"
    by (simp_all add: flags_only_def update_connection_def)
  have fl: "flags_only (\<lambda>c. c\<lparr>cc_last_heartbeat_ts := ts\<rparr>)" "flags_only (\<lambda>c. c\<lparr>cc_authenticated := False\<rparr>)" for ts
    by (simp_all add: flags_only_def strip_buffer_def)
  show ?thesis
  proof (cases "mh_type header = message_type_code MT_LoginRequest")
    case True
    then show ?thesis
      using assms(2,3) authenticate_update [OF assms(2)]
      by (auto simp: handle_packet_def bind_run_eq_ret case_prod_unfold Let_def gateway_frame)
  next
    case False
    then show ?thesis
      using assms(2,3) id fl
      by (auto simp: handle_packet_def bind_run_eq_ret case_prod_unfold Let_def gateway_frame split: if_splits) metis+
  qed
qed

lemma handle_packet_core:
  assumes "sessions_ok (gw_sessions g)" and "get_connection conn_id (gw_sessions g) = Some i"
  shows "handle_packet os now conn_id header mem off (gw_core g) = map_run gw_core (handle_packet os now conn_id header mem off g)"
proof -
  let ?s = "gw_sessions g"
  note b = session_bounds(1,2) [OF assms]
  have get: "get_connection conn_id (strip_sessions ?s) = Some i"
    using assms(2) by (simp add: get_connection_strip [OF b(2)])
  have auth: "cc_authenticated (sm_connections (strip_sessions ?s) ! i) = cc_authenticated (sm_connections ?s ! i)"
    using b by (simp add: strip_sessions_def strip_buffer_def)
  have upd: "update_connection i (\<lambda>c. c\<lparr>cc_last_heartbeat_ts := ts\<rparr>) (strip_sessions ?s) =
      strip_sessions (update_connection i (\<lambda>c. c\<lparr>cc_last_heartbeat_ts := ts\<rparr>) ?s)"
    "update_connection i (\<lambda>c. c\<lparr>cc_authenticated := False\<rparr>) (strip_sessions ?s) =
      strip_sessions (update_connection i (\<lambda>c. c\<lparr>cc_authenticated := False\<rparr>) ?s)" for ts
    by (simp_all add: strip_update [OF _ b(1)] flags_only_def strip_buffer_def)
  show ?thesis
    unfolding handle_packet_def gw_core_def view_def
    by (simp add: get assms(2) auth upd authenticate_strip [OF assms(2) b] case_prod_unfold Let_def gateway_frame)
qed

section \<open>A stream of packets\<close>

text \<open>A complete frame: its length is the length in its header and covers the struct of its type.\<close>

definition packet_size :: "u16 \<Rightarrow> nat" where
  "packet_size ty =
     (if ty = message_type_code MT_LoginRequest \<or> ty = message_type_code MT_NewOrder \<or> ty = message_type_code MT_ReplaceOrder then 64
      else if ty = message_type_code MT_CancelOrder then 48 else 24)"

definition frame_ok :: "u8 list \<Rightarrow> bool" where
  "frame_ok f \<longleftrightarrow> length f = unat (mh_length (read_header f)) \<and> packet_size (mh_type (read_header f)) \<le> length f"

lemma packet_size_ge: "24 \<le> packet_size ty"
  by (simp add: packet_size_def)

text \<open>The reference: every frame by itself, one after the other.\<close>

fun handle_frames :: "os_calls \<Rightarrow> (nat \<Rightarrow> u64) \<Rightarrow> s32 \<Rightarrow> u8 list list \<Rightarrow> gateway \<Rightarrow> gateway run" where
  "handle_frames os now conn_id [] g = ret g"
| "handle_frames os now conn_id (f # fs) g =
     bind_run (handle_packet os now conn_id (read_header f) f 0 g) (handle_frames os now conn_id fs)"

text \<open>A frame inside the buffer is handled as if it were alone.\<close>

lemma handle_packet_in_buffer:
  assumes "frame_ok f" and "off + length f \<le> length mem" and "take (length f) (drop off mem) = f"
  shows "handle_packet os now conn_id (read_header f) mem off g = handle_packet os now conn_id (read_header f) f 0 g"
    and "\<exists>g'. handle_packet os now conn_id (read_header f) f 0 g = ret g'"
proof -
  have same: "view mem off n = view f 0 n" "\<exists>bs. view f 0 n = ret bs" if "n \<le> length f" for n
    using assms(2,3) that by (auto simp: view_def) (metis min.absorb1 take_take)
  let ?ty = "mh_type (read_header f)"
  have n: "packet_size ?ty \<le> length f"
    using assms(1) by (simp add: frame_ok_def)
  have "?ty = message_type_code MT_LoginRequest \<Longrightarrow> 64 \<le> length f"
    "?ty = message_type_code MT_NewOrder \<Longrightarrow> 64 \<le> length f"
    "?ty = message_type_code MT_ReplaceOrder \<Longrightarrow> 64 \<le> length f"
    "?ty = message_type_code MT_CancelOrder \<Longrightarrow> 48 \<le> length f"
    using n by (simp_all add: packet_size_def)
  note sizes = this
  show "handle_packet os now conn_id (read_header f) mem off g = handle_packet os now conn_id (read_header f) f 0 g"
    unfolding handle_packet_def using same(1) sizes by (auto split: option.splits)
  show "\<exists>g'. handle_packet os now conn_id (read_header f) f 0 g = ret g'"
    unfolding handle_packet_def view_def using sizes
    by (auto simp: Let_def case_prod_unfold split: option.splits)
qed

lemma read_header_prefix: "24 \<le> length f \<Longrightarrow> read_header (f @ bs) = read_header f"
  by (simp add: read_header_def get_prefix)

lemma frame_ok_size: "frame_ok f \<Longrightarrow> 24 \<le> length f"
  using packet_size_ge [of "mh_type (read_header f)"] by (simp add: frame_ok_def)

lemma decode_frame: "frame_ok f \<Longrightarrow> decode (f @ bs) = Some (read_header f, length f)"
  using frame_ok_size [of f] by (simp add: decode_def header_size_def read_header_prefix frame_ok_def Let_def)

lemma decode_proper_prefix:
  assumes "frame_ok (r @ s)" and "s \<noteq> []"
  shows "decode r = None"
proof (cases "length r < 24")
  case False
  then have "read_header r = read_header (r @ s)"
    by (simp add: read_header_prefix)
  moreover have "length r < unat (mh_length (read_header (r @ s)))"
    using assms unfolding frame_ok_def by (metis length_append length_greater_0_conv less_add_same_cancel1)
  ultimately show ?thesis
    by (simp add: decode_def Let_def)
qed (simp add: decode_def header_size_def)

lemma handle_packet_keeps:
  assumes "sessions_ok (gw_sessions g)" and "get_connection conn_id (gw_sessions g) = Some i"
    and "handle_packet os now conn_id header mem off g = ret g'"
  shows "sessions_ok (gw_sessions g')" and "get_connection conn_id (gw_sessions g') = Some i"
    and "cc_buffer (sm_connections (gw_sessions g') ! i) = cc_buffer (sm_connections (gw_sessions g) ! i)"
    and "cc_buffer_len (sm_connections (gw_sessions g') ! i) = cc_buffer_len (sm_connections (gw_sessions g) ! i)"
proof -
  obtain f where f: "flags_only f" "gw_sessions g' = update_connection i f (gw_sessions g)"
    using handle_packet_sessions [OF assms] by blast
  note b = session_bounds [OF assms(1,2)]
  show "sessions_ok (gw_sessions g')" "get_connection conn_id (gw_sessions g') = Some i"
    using sessions_ok_update [OF assms(1,2), of f] f b assms(2) by (simp_all add: flags_only_def)
  show "cc_buffer (sm_connections (gw_sessions g') ! i) = cc_buffer (sm_connections (gw_sessions g) ! i)"
    "cc_buffer_len (sm_connections (gw_sessions g') ! i) = cc_buffer_len (sm_connections (gw_sessions g) ! i)"
    using update_connection_nth [OF assms(1,2), of f] f by (simp_all add: flags_only_def)
qed

lemma parse_frames_stream:
  assumes "sessions_ok (gw_sessions g)" and "get_connection conn_id (gw_sessions g) = Some i"
    and "drop processed (buffered (sm_connections (gw_sessions g) ! i)) = concat fs @ r"
    and "processed \<le> cc_buffer_len (sm_connections (gw_sessions g) ! i)"
    and "list_all frame_ok fs" and "decode r = None"
  shows "\<exists>g'. parse_frames os now conn_id i processed g = ret (processed + length (concat fs), g') \<and>
    handle_frames os now conn_id fs (gw_core g) = ret (gw_core g') \<and>
    sessions_ok (gw_sessions g') \<and> get_connection conn_id (gw_sessions g') = Some i \<and>
    cc_buffer (sm_connections (gw_sessions g') ! i) = cc_buffer (sm_connections (gw_sessions g) ! i) \<and>
    cc_buffer_len (sm_connections (gw_sessions g') ! i) = cc_buffer_len (sm_connections (gw_sessions g) ! i)"
  using assms
proof (induction fs arbitrary: processed g)
  case Nil
  let ?c = "sm_connections (gw_sessions g) ! i"
  have "take (cc_buffer_len ?c - processed) (drop processed (cc_buffer ?c)) = r"
    using Nil(3) by (simp add: buffered_def drop_take)
  then have "parse_frames os now conn_id i processed g = ret (processed, g)"
    using Nil(6) by (subst parse_frames.simps) (simp add: Let_def)
  then show ?case
    using Nil(1,2) by simp
next
  case (Cons f fs)
  let ?c = "sm_connections (gw_sessions g) ! i" and ?h = "handle_packet os now conn_id (read_header f)"
  note b = session_bounds [OF Cons.prems(1,2)]
  have f: "frame_ok f"
    using Cons.prems(5) by simp
  have rest: "take (cc_buffer_len ?c - processed) (drop processed (cc_buffer ?c)) = f @ concat fs @ r"
    using Cons.prems(3) by (simp add: buffered_def drop_take)
  then have "length (f @ concat fs @ r) = cc_buffer_len ?c - processed"
    using b by (metis length_drop length_take min.absorb2 diff_le_mono)
  then have len: "processed + length f \<le> cc_buffer_len ?c"
    using frame_ok_size [OF f] by simp
  have "take (length f) (drop processed (cc_buffer ?c)) = take (length f) (take (cc_buffer_len ?c - processed) (drop processed (cc_buffer ?c)))"
    using len by (simp add: min_absorb1)
  then have "take (length f) (drop processed (cc_buffer ?c)) = f"
    by (simp add: rest)
  note alone = handle_packet_in_buffer [OF f _ this, of os now conn_id]
  obtain g1 where h: "?h (cc_buffer ?c) processed g = ret g1" "?h f 0 g = ret g1"
    using alone [of g] len b by fastforce
  note keeps = handle_packet_keeps [OF Cons.prems(1,2) h(1)]
  have core: "?h f 0 (gw_core g) = ret (gw_core g1)"
    using handle_packet_core [OF Cons.prems(1,2)] h(2) by simp
  have "drop (processed + length f) (buffered ?c) = concat fs @ r"
    using Cons.prems(3) by (metis add.commute append_assoc append_eq_conv_conj concat.simps(2) drop_drop)
  then have tail: "drop (processed + length f) (buffered (sm_connections (gw_sessions g1) ! i)) = concat fs @ r"
    "processed + length f \<le> cc_buffer_len (sm_connections (gw_sessions g1) ! i)"
    using keeps(3,4) len by (simp_all add: buffered_def)
  have "list_all frame_ok fs"
    using Cons.prems(5) by simp
  from Cons.IH [OF keeps(1,2) tail this Cons.prems(6)]
  obtain g' where IH: "parse_frames os now conn_id i (processed + length f) g1 = ret (processed + length f + length (concat fs), g')"
    "handle_frames os now conn_id fs (gw_core g1) = ret (gw_core g')"
    "sessions_ok (gw_sessions g')" "get_connection conn_id (gw_sessions g') = Some i"
    "cc_buffer (sm_connections (gw_sessions g') ! i) = cc_buffer ?c"
    "cc_buffer_len (sm_connections (gw_sessions g') ! i) = cc_buffer_len ?c"
    using keeps(3,4) by auto
  have "processed < cc_buffer_len ?c"
    using len frame_ok_size [OF f] by simp
  then have "parse_frames os now conn_id i processed g = ret (processed + length (concat (f # fs)), g')"
    using IH(1) by (subst parse_frames.simps) (simp add: Let_def rest decode_frame [OF f] h add.assoc)
  then show ?case
    using IH core by (intro exI [of _ g']) simp
qed


lemma gw_core_update:
  assumes "sessions_ok (gw_sessions g)" and "get_connection conn_id (gw_sessions g) = Some i" and "\<And>c. strip_buffer (f c) = strip_buffer c"
  shows "gw_core (g\<lparr>gw_sessions := update_connection i f (gw_sessions g)\<rparr>) = gw_core g"
  using session_bounds(1) [OF assms(1,2)] assms(3)
  by (simp add: gw_core_def strip_sessions_def update_connection_def map_update list_update_same_conv)

lemma buffer_append_eq:
  assumes "length (cc_buffer c) = BUFFER_SIZE" and "cc_buffer_len c + length data \<le> BUFFER_SIZE"
  shows "buffered (buffer_append data c) = buffered c @ data" "length (cc_buffer (buffer_append data c)) = BUFFER_SIZE"
    "cc_buffer_len (buffer_append data c) = cc_buffer_len c + length data"
  using assms by (simp_all add: buffer_append_def buffered_def)

lemma buffer_shift_eq:
  assumes "length (cc_buffer c) = BUFFER_SIZE" and "cc_buffer_len c \<le> BUFFER_SIZE" and "processed \<le> cc_buffer_len c"
  shows "buffered (buffer_shift processed c) = drop processed (buffered c)" "length (cc_buffer (buffer_shift processed c)) = BUFFER_SIZE"
    "cc_buffer_len (buffer_shift processed c) \<le> BUFFER_SIZE"
  using assms by (auto simp: buffer_shift_def buffered_def Let_def drop_take)

lemma strip_buffer_ops [simp]:
  "strip_buffer (buffer_append data c) = strip_buffer c" "strip_buffer (buffer_shift processed c) = strip_buffer c"
  "cc_conn_id (buffer_append data c) = cc_conn_id c" "cc_conn_id (buffer_shift processed c) = cc_conn_id c"
  by (simp_all add: strip_buffer_def buffer_append_def buffer_shift_def Let_def)

text \<open>Receiving bytes handles the frames that are now complete and keeps the rest.\<close>

lemma on_read_stream:
  assumes "sessions_ok (gw_sessions g)" and "get_connection conn_id (gw_sessions g) = Some i"
    and "buffered (sm_connections (gw_sessions g) ! i) @ data = concat fs @ r" and "list_all frame_ok fs" and "decode r = None"
    and "length (buffered (sm_connections (gw_sessions g) ! i) @ data) \<le> BUFFER_SIZE"
  shows "\<exists>g'. on_read os now conn_id data g = ret g' \<and> handle_frames os now conn_id fs (gw_core g) = ret (gw_core g') \<and>
    sessions_ok (gw_sessions g') \<and> get_connection conn_id (gw_sessions g') = Some i \<and>
    buffered (sm_connections (gw_sessions g') ! i) = r"
proof -
  let ?c = "sm_connections (gw_sessions g) ! i"
  let ?s = "update_connection i (buffer_append data) (gw_sessions g)"
  let ?g = "g\<lparr>gw_sessions := ?s\<rparr>"
  note b = session_bounds [OF assms(1,2)]
  have len: "cc_buffer_len ?c + length data \<le> BUFFER_SIZE"
    using assms(6) b by (simp add: buffered_def)
  note app = buffer_append_eq [OF b(3) len]
  have s: "sessions_ok ?s" "get_connection conn_id ?s = Some i" "sm_connections ?s ! i = buffer_append data ?c"
    using sessions_ok_update [OF assms(1,2), of "buffer_append data"] app len assms(2)
      update_connection_nth [OF assms(1,2)] by simp_all
  have buf: "drop 0 (buffered (sm_connections (gw_sessions ?g) ! i)) = concat fs @ r"
    using assms(3) by (simp add: s app)
  obtain g1 where g1: "parse_frames os now conn_id i 0 ?g = ret (0 + length (concat fs), g1)"
    "handle_frames os now conn_id fs (gw_core ?g) = ret (gw_core g1)" "sessions_ok (gw_sessions g1)"
    "get_connection conn_id (gw_sessions g1) = Some i"
    "cc_buffer (sm_connections (gw_sessions g1) ! i) = cc_buffer (buffer_append data ?c)"
    "cc_buffer_len (sm_connections (gw_sessions g1) ! i) = cc_buffer_len ?c + length data"
    using parse_frames_stream [of ?g conn_id i 0 fs r os now] s assms(4,5) buf app by auto
  let ?n = "length (concat fs)" and ?c1 = "sm_connections (gw_sessions g1) ! i"
  let ?g' = "g1\<lparr>gw_sessions := update_connection i (buffer_shift ?n) (gw_sessions g1)\<rparr>"
  have c1: "buffered ?c1 = concat fs @ r" "?n \<le> cc_buffer_len ?c1"
  proof -
    have "buffered ?c1 = buffered (buffer_append data ?c)"
      using g1(5,6) app(3) by (simp add: buffered_def)
    then show buf: "buffered ?c1 = concat fs @ r"
      using app(1) assms(3) by simp
    have "length (buffered ?c1) = cc_buffer_len ?c1"
      using session_bounds(3,4) [OF g1(3,4)] by (simp add: buffered_def)
    then show "?n \<le> cc_buffer_len ?c1"
      using buf by simp
  qed
  note shift = buffer_shift_eq [OF session_bounds(3,4) [OF g1(3,4)] c1(2)]
  have "on_read os now conn_id data g = ret ?g'"
    using assms(2) len g1(1) by (simp add: on_read_def)
  moreover have "gw_core ?g' = gw_core g1" "gw_core ?g = gw_core g"
    by (rule gw_core_update [OF g1(3,4)], simp, rule gw_core_update [OF assms(1,2)], simp)
  moreover have "sessions_ok (gw_sessions ?g')" "get_connection conn_id (gw_sessions ?g') = Some i"
    "sm_connections (gw_sessions ?g') ! i = buffer_shift ?n ?c1"
    using sessions_ok_update [OF g1(3,4), of "buffer_shift ?n"] shift g1(4) update_connection_nth [OF g1(3,4)] by simp_all
  ultimately show ?thesis
    using g1(2) shift(1) c1(1) by (intro exI [of _ ?g']) simp
qed

text \<open>Whatever has arrived of a stream of frames is complete frames and an incomplete rest.\<close>

lemma split_stream:
  assumes "p @ rest = concat frames" and "list_all frame_ok frames"
  shows "\<exists>fs gs r. frames = fs @ gs \<and> p = concat fs @ r \<and> decode r = None \<and> r @ rest = concat gs"
  using assms
proof (induction frames arbitrary: p)
  case Nil
  then show ?case
    by (simp add: decode_def header_size_def)
next
  case (Cons f frames)
  have "p @ rest = f @ concat frames"
    using Cons.prems(1) by simp
  then consider us where "p = f @ us" "us @ rest = concat frames" | us where "f = p @ us" "us \<noteq> []"
    unfolding append_eq_append_conv2 by (metis append_Nil append_Nil2)
  then show ?case
  proof cases
    case 1
    moreover have "list_all frame_ok frames"
      using Cons.prems(2) by simp
    ultimately obtain fs gs r where "frames = fs @ gs" "us = concat fs @ r" "decode r = None" "r @ rest = concat gs"
      using Cons.IH by blast
    then show ?thesis
      using 1(1) by (intro exI [of _ "f # fs"] exI [of _ gs] exI [of _ r]) simp
  next
    case 2
    then have "decode p = None"
      using decode_proper_prefix [of p us] Cons.prems(2) by simp
    then show ?thesis
      using Cons.prems(1) by (intro exI [of _ "[]"] exI [of _ "f # frames"] exI [of _ p]) simp
  qed
qed

fun on_reads :: "os_calls \<Rightarrow> (nat \<Rightarrow> u64) \<Rightarrow> s32 \<Rightarrow> u8 list list \<Rightarrow> gateway \<Rightarrow> gateway run" where
  "on_reads os now conn_id [] g = ret g"
| "on_reads os now conn_id (d # ds) g = bind_run (on_read os now conn_id d g) (on_reads os now conn_id ds)"

lemma handle_frames_append:
  "handle_frames os now conn_id (fs @ gs) g = bind_run (handle_frames os now conn_id fs g) (handle_frames os now conn_id gs)"
proof (induction fs arbitrary: g)
  case (Cons f fs)
  then show ?case
    by (cases "handle_packet os now conn_id (read_header f) f 0 g") (auto simp: bind_run_def split: sum.splits)
qed simp

lemma incomplete_short:
  assumes "r @ rest = concat gs" and "decode r = None" and "list_all frame_ok gs" and "\<forall>f \<in> set gs. length f \<le> n"
  shows "length r \<le> n"
proof (cases gs)
  case Nil
  then show ?thesis
    using assms(1) by simp
next
  case (Cons f gs')
  have "\<not> length f \<le> length r"
  proof
    assume "length f \<le> length r"
    then obtain us where "r = f @ us"
      using assms(1) Cons by (auto simp: append_eq_append_conv2)
    then show False
      using assms(2,3) Cons decode_frame [of f us] by simp
  qed
  then show ?thesis
    using assms(4) Cons by auto
qed

lemma on_reads_stream:
  assumes "sessions_ok (gw_sessions g)" and "get_connection conn_id (gw_sessions g) = Some i"
    and "buffered (sm_connections (gw_sessions g) ! i) @ concat chunks = concat frames"
    and "decode (buffered (sm_connections (gw_sessions g) ! i)) = None" and "list_all frame_ok frames"
    and "\<forall>f \<in> set frames. length f \<le> 4096" and "\<forall>c \<in> set chunks. length c \<le> 4096"
  shows "\<exists>g'. on_reads os now conn_id chunks g = ret g' \<and> handle_frames os now conn_id frames (gw_core g) = ret (gw_core g') \<and>
    sessions_ok (gw_sessions g') \<and> get_connection conn_id (gw_sessions g') = Some i \<and>
    buffered (sm_connections (gw_sessions g') ! i) = []"
  using assms
proof (induction chunks arbitrary: g frames)
  case Nil
  let ?p = "buffered (sm_connections (gw_sessions g) ! i)"
  have "frames = []"
  proof (rule ccontr)
    assume "frames \<noteq> []"
    then obtain f fs where "?p = f @ concat fs" "frame_ok f"
      using Nil.prems(3,5) by (cases frames) auto
    then show False
      using Nil.prems(4) decode_frame by simp
  qed
  then show ?case
    using Nil.prems(1-3) by simp
next
  case (Cons d ds)
  let ?p = "buffered (sm_connections (gw_sessions g) ! i)"
  have "(?p @ d) @ concat ds = concat frames"
    using Cons.prems(3) by simp
  then obtain fs gs r where split: "frames = fs @ gs" "?p @ d = concat fs @ r" "decode r = None" "r @ concat ds = concat gs"
    using split_stream [OF _ Cons.prems(5)] by blast
  have ok: "list_all frame_ok fs" "list_all frame_ok gs"
    using Cons.prems(5) split(1) by simp_all
  have "length ?p \<le> 4096" "length d \<le> 4096"
    using incomplete_short [OF Cons.prems(3-6)] Cons.prems(7) by simp_all
  then have "length (?p @ d) \<le> BUFFER_SIZE"
    by (simp add: BUFFER_SIZE_def)
  then obtain g1 where g1: "on_read os now conn_id d g = ret g1" "handle_frames os now conn_id fs (gw_core g) = ret (gw_core g1)"
    "sessions_ok (gw_sessions g1)" "get_connection conn_id (gw_sessions g1) = Some i"
    "buffered (sm_connections (gw_sessions g1) ! i) = r"
    using on_read_stream [OF Cons.prems(1,2) split(2) ok(1) split(3)] by blast
  obtain g' where "on_reads os now conn_id ds g1 = ret g'" "handle_frames os now conn_id gs (gw_core g1) = ret (gw_core g')"
    "sessions_ok (gw_sessions g')" "get_connection conn_id (gw_sessions g') = Some i"
    "buffered (sm_connections (gw_sessions g') ! i) = []"
    using Cons.IH [OF g1(3,4) _ _ ok(2), unfolded g1(5), OF split(4,3)] Cons.prems(6,7) split(1) by auto
  then show ?case
    using g1(1,2) by (simp add: split(1) handle_frames_append)
qed

text \<open>C29. How the bytes of a connection are cut into pieces does not matter: when pieces of at most 4096
  bytes, the size of the receive buffer, add up to a sequence of complete frames, reading them one
  after the other has the effect of handling the frames one after the other, each exactly once and
  in order, and leaves nothing buffered.\<close>

theorem gateway_stream:
  assumes "sessions_ok (gw_sessions g)" and "get_connection conn_id (gw_sessions g) = Some i"
    and "buffered (sm_connections (gw_sessions g) ! i) = []" and "concat chunks = concat frames"
    and "list_all frame_ok frames" and "\<forall>f \<in> set frames. length f \<le> 4096" and "\<forall>c \<in> set chunks. length c \<le> 4096"
  shows "\<exists>g'. on_reads os now conn_id chunks g = ret g' \<and> handle_frames os now conn_id frames (gw_core g) = ret (gw_core g') \<and>
    buffered (sm_connections (gw_sessions g') ! i) = []"
  using on_reads_stream [OF assms(1,2) _ _ assms(5-7), of os now] assms(3,4) by (auto simp: decode_def header_size_def)

lemma enqueue_elems:
  assumes "spsc_inv inbound_cap (gw_inbound g)"
  shows "gw_sequences (enqueue_command now c g) = gw_sequences g + 1"
    and "spsc_elems inbound_cap (gw_inbound (enqueue_command now c g)) =
      (if length (spsc_elems inbound_cap (gw_inbound g)) < 4096
       then spsc_elems inbound_cap (gw_inbound g) @ [c\<lparr>cmd_sequence := gw_sequences g, cmd_timestamp := now (gw_readings g)\<rparr>]
       else spsc_elems inbound_cap (gw_inbound g))"
    and "spsc_inv inbound_cap (gw_inbound (enqueue_command now c g))"
proof -
  let ?v = "c\<lparr>cmd_sequence := gw_sequences g, cmd_timestamp := now (gw_readings g)\<rparr>"
  have enq: "gw_inbound (enqueue_command now c g) = snd (spsc_push inbound_cap ?v (gw_inbound g))"
    by (simp add: enqueue_command_def next_sequence_def read_clock_def Let_def case_prod_unfold)
  show "gw_sequences (enqueue_command now c g) = gw_sequences g + 1"
    by (simp add: enqueue_command_def next_sequence_def read_clock_def Let_def case_prod_unfold)
  show "spsc_elems inbound_cap (gw_inbound (enqueue_command now c g)) =
      (if length (spsc_elems inbound_cap (gw_inbound g)) < 4096
       then spsc_elems inbound_cap (gw_inbound g) @ [?v] else spsc_elems inbound_cap (gw_inbound g))"
    "spsc_inv inbound_cap (gw_inbound (enqueue_command now c g))"
    using spsc.push_refines [OF assms, of ?v] by (auto simp: enq)
qed

lemma handle_packet_cases:
  assumes "handle_packet os now conn_id header mem off g = ret g'"
  shows "(gw_inbound g' = gw_inbound g \<and> gw_sequences g' = gw_sequences g) \<or>
    (\<exists>i c. get_connection conn_id (gw_sessions g) = Some i \<and> cc_authenticated (sm_connections (gw_sessions g) ! i) \<and>
       mh_type header \<in> message_type_code ` {MT_NewOrder, MT_CancelOrder, MT_ReplaceOrder} \<and>
       cmd_conn_id c = conn_id \<and> g' = enqueue_command now c g)"
proof -
  have conn: "cmd_conn_id (new_order_command conn_id a) = conn_id" "cmd_conn_id (cancel_order_command conn_id b) = conn_id"
    "cmd_conn_id (replace_order_command conn_id d) = conn_id" for a b d
    by (simp_all add: new_order_command_def cancel_order_command_def replace_order_command_def)
  show ?thesis
    using assms conn unfolding handle_packet_def
    by (auto simp: bind_run_eq_ret case_prod_unfold Let_def gateway_frame split: option.splits if_splits)
qed

text \<open>C30. Commands need a login: whatever the bytes of a packet, handling it changes the inbound queue and
  the sequence numbers only if the connection is authenticated and the packet is an order message. Then one command
  with the id of the connection and the next sequence number is appended, or lost when the queue is
  full.\<close>

theorem commands_need_login:
  assumes "spsc_inv inbound_cap (gw_inbound g)" and "handle_packet os now conn_id header mem off g = ret g'"
  shows "(gw_inbound g' = gw_inbound g \<and> gw_sequences g' = gw_sequences g) \<or>
    (\<exists>i cmd. get_connection conn_id (gw_sessions g) = Some i \<and> cc_authenticated (sm_connections (gw_sessions g) ! i) \<and>
       mh_type header \<in> message_type_code ` {MT_NewOrder, MT_CancelOrder, MT_ReplaceOrder} \<and>
       cmd_conn_id cmd = conn_id \<and> cmd_sequence cmd = gw_sequences g \<and> gw_sequences g' = gw_sequences g + 1 \<and>
       spsc_elems inbound_cap (gw_inbound g') =
         (if length (spsc_elems inbound_cap (gw_inbound g)) < 4096
          then spsc_elems inbound_cap (gw_inbound g) @ [cmd] else spsc_elems inbound_cap (gw_inbound g)))"
proof -
  consider "gw_inbound g' = gw_inbound g" "gw_sequences g' = gw_sequences g"
    | i c where "get_connection conn_id (gw_sessions g) = Some i" "cc_authenticated (sm_connections (gw_sessions g) ! i)"
      "mh_type header \<in> message_type_code ` {MT_NewOrder, MT_CancelOrder, MT_ReplaceOrder}" "cmd_conn_id c = conn_id"
      "g' = enqueue_command now c g"
    using handle_packet_cases [OF assms(2)] by blast
  then show ?thesis
  proof cases
    case 2
    then show ?thesis
      using enqueue_elems [OF assms(1), of now c]
      by (intro disjI2 exI [of _ i] exI [of _ "c\<lparr>cmd_sequence := gw_sequences g, cmd_timestamp := now (gw_readings g)\<rparr>"] conjI) simp_all
  qed simp
qed

lemma new_order_frame:
  assumes "new_order_ok p" and "64 \<le> dest_len"
    and "data = encode new_order_bytes no_header_update 64 dest_len MT_NewOrder seq ts p"
  shows "length data = 64" and "frame_ok data"
    and "read_header data = (no_header p)\<lparr>mh_length := 64, mh_type := 5, mh_sequence := seq, mh_timestamp := ts\<rparr>"
    and "read_new_order data = no_header_update (\<lambda>h. h\<lparr>mh_length := 64, mh_type := 5, mh_sequence := seq, mh_timestamp := ts\<rparr>) p"
proof -
  note codec = new_order_wire.decode_encode(1,2) [OF assms(1,2) refl, where ty = MT_NewOrder and seq = seq and ts = ts and bs = "[]", folded assms(3)]
    new_order_wire.decode_encode(3) [OF assms(1,2) refl, where ty = MT_NewOrder and seq = seq and ts = ts, folded assms(3)]
  show len: "length data = 64"
    and hd: "read_header data = (no_header p)\<lparr>mh_length := 64, mh_type := 5, mh_sequence := seq, mh_timestamp := ts\<rparr>"
    and "read_new_order data = no_header_update (\<lambda>h. h\<lparr>mh_length := 64, mh_type := 5, mh_sequence := seq, mh_timestamp := ts\<rparr>) p"
    using codec by (simp_all add: decode_def Let_def split: if_splits)
  show "frame_ok data"
    by (simp add: frame_ok_def len hd packet_size_def)
qed


section \<open>A frame of length zero\<close>

definition stuck_frame :: "s32 \<Rightarrow> nat \<Rightarrow> gateway \<Rightarrow> bool" where
  "stuck_frame conn_id i g \<longleftrightarrow> get_connection conn_id (gw_sessions g) = Some i \<and>
     \<not> cc_authenticated (sm_connections (gw_sessions g) ! i) \<and>
     24 \<le> length (buffered (sm_connections (gw_sessions g) ! i)) \<and>
     mh_length (read_header (buffered (sm_connections (gw_sessions g) ! i))) = 0 \<and>
     mh_type (read_header (buffered (sm_connections (gw_sessions g) ! i))) \<noteq> message_type_code MT_LoginRequest"

lemma stuck_frame_step:
  assumes "stuck_frame conn_id i g"
  shows "\<exists>h g1. decode (take (cc_buffer_len (sm_connections (gw_sessions g) ! i) - 0) (drop 0 (cc_buffer (sm_connections (gw_sessions g) ! i)))) = Some (h, 0) \<and>
    handle_packet os now conn_id h mem off g = ret g1 \<and> stuck_frame conn_id i g1 \<and> 0 < cc_buffer_len (sm_connections (gw_sessions g) ! i)"
proof -
  let ?b = "buffered (sm_connections (gw_sessions g) ! i)"
  have "decode ?b = Some (read_header ?b, 0)"
    using assms by (simp add: stuck_frame_def decode_def header_size_def Let_def)
  moreover have "handle_packet os now conn_id (read_header ?b) mem off g = ret (send_unauthenticated os now conn_id g)"
    using assms by (simp add: stuck_frame_def handle_packet_def)
  moreover have "stuck_frame conn_id i (send_unauthenticated os now conn_id g)"
    using assms by (simp add: stuck_frame_def gateway_frame)
  moreover have "0 < cc_buffer_len (sm_connections (gw_sessions g) ! i)"
    using assms by (auto simp: stuck_frame_def buffered_def)
  ultimately show ?thesis
    by (simp add: buffered_def)
qed

lemma parse_frames_stuck:
  assumes "parse_frames os now conn_id i processed g = Some y"
  shows "\<not> (processed = 0 \<and> stuck_frame conn_id i g)"
proof (rule parse_frames.raw_induct [OF _ assms])
  fix parse os now conn_id i processed g y
  assume IH: "\<And>os now conn_id i processed g y. parse os now conn_id i processed g = Some y \<Longrightarrow> \<not> (processed = 0 \<and> stuck_frame conn_id i g)"
    and run: "(let conn = sm_connections (gw_sessions g) ! i
      in if processed < cc_buffer_len conn then
           case decode (take (cc_buffer_len conn - processed) (drop processed (cc_buffer conn))) of
             None \<Rightarrow> ret (processed, g)
           | Some (header, bytes_read) \<Rightarrow>
               bind_run (handle_packet os now conn_id header (cc_buffer conn) processed g) (\<lambda>g1.
               parse os now conn_id i (processed + bytes_read) g1)
         else ret (processed, g)) = Some y"
  show "\<not> (processed = 0 \<and> stuck_frame conn_id i g)"
  proof
    assume *: "processed = 0 \<and> stuck_frame conn_id i g"
    let ?c = "sm_connections (gw_sessions g) ! i"
    obtain h g1 where s: "decode (take (cc_buffer_len ?c - 0) (drop 0 (cc_buffer ?c))) = Some (h, 0)"
      "handle_packet os now conn_id h (cc_buffer ?c) 0 g = ret g1" "stuck_frame conn_id i g1" "0 < cc_buffer_len ?c"
      using stuck_frame_step * by blast
    have "parse os now conn_id i 0 g1 = Some y"
      using run * s(1,2,4) by (simp add: Let_def)
    from IH [OF this] s(3) show False
      by blast
  qed
qed

text \<open>C32. A client that has not logged in can stop the gateway: a frame with length zero in its header is
  handled again and again, and \<open>on_read\<close> never returns.\<close>

theorem zero_length_frame_hangs:
  assumes "sessions_ok (gw_sessions g)" and "get_connection conn_id (gw_sessions g) = Some i"
    and "buffered (sm_connections (gw_sessions g) ! i) = []" and "\<not> cc_authenticated (sm_connections (gw_sessions g) ! i)"
    and "24 \<le> length data" and "length data \<le> BUFFER_SIZE" and "mh_length (read_header data) = 0"
    and "mh_type (read_header data) \<noteq> message_type_code MT_LoginRequest"
  shows "on_read os now conn_id data g = None"
proof -
  let ?c = "sm_connections (gw_sessions g) ! i" and ?s = "update_connection i (buffer_append data) (gw_sessions g)"
  note b = session_bounds [OF assms(1,2)]
  have "cc_buffer_len ?c = 0"
    using assms(3) b by (auto simp: buffered_def BUFFER_SIZE_def)
  then have len: "cc_buffer_len ?c + length data \<le> BUFFER_SIZE"
    using assms(6) by simp
  note app = buffer_append_eq [OF b(3) len]
  have "get_connection conn_id ?s = Some i" "sm_connections ?s ! i = buffer_append data ?c"
    using sessions_ok_update(2) [OF assms(1,2), of "buffer_append data"] app len assms(2) update_connection_nth [OF assms(1,2)] by simp_all
  then have "stuck_frame conn_id i (g\<lparr>gw_sessions := ?s\<rparr>)"
    using assms(3-8) by (simp add: stuck_frame_def app) (simp add: buffer_append_def)
  then have "parse_frames os now conn_id i 0 (g\<lparr>gw_sessions := ?s\<rparr>) = None"
    using parse_frames_stuck by (metis not_Some_eq)
  then show ?thesis
    using assms(2) len by (simp add: on_read_def bind_run_def)
qed

section \<open>A sample connection\<close>

definition sample_os :: os_calls where
  "sample_os = \<lparr>os_socket = 3, os_bind = 0, os_listen = 0, os_accept = - 1, os_recv = (\<lambda>_. RecvError True),
     os_write = (\<lambda>_ data. int (length data))\<rparr>"

text \<open>Connection 7, logged in or not.\<close>

definition sample_gateway :: "bool \<Rightarrow> gateway" where
  "sample_gateway auth = (gateway_new (Some simulation_new) (spsc_new inbound_cap command_default))\<lparr>gw_sessions :=
     update_connection 0 (\<lambda>c. c\<lparr>cc_authenticated := auth\<rparr>) (snd (create_connection 7 sessions_reset))\<rparr>"

definition sample_packet :: new_order_packet where
  "sample_packet = \<lparr>no_header = blank_header, no_client_order_id = 42, no_symbol_id = 1, no_account_id = 9,
     no_price_ticks = 1000000, no_qty_units = 5, no_side = 0, no_type = 0, no_tif = 1, no_padding = [0, 0, 0, 0, 0]\<rparr>"

definition sample_frame :: "u8 list" where
  "sample_frame = encode new_order_bytes no_header_update 64 8192 MT_NewOrder 1 0 sample_packet"

lemma sample_sessions:
  "sessions_ok (gw_sessions (sample_gateway auth))" "get_connection 7 (gw_sessions (sample_gateway auth)) = Some 0"
  "buffered (sm_connections (gw_sessions (sample_gateway auth)) ! 0) = []"
  "cc_authenticated (sm_connections (gw_sessions (sample_gateway auth)) ! 0) = auth"
proof -
  let ?s = "snd (create_connection 7 sessions_reset)"
  have s: "sm_connections ?s ! 0 = connection_default\<lparr>cc_conn_id := 7\<rparr>" "sm_active_count ?s = 1"
    by (simp_all add: create_connection_def get_connection_def sessions_reset_def MAX_CONNECTIONS_def)
  have ok: "sessions_ok ?s" "get_connection 7 ?s = Some 0"
    using create_connection_ok(1) [OF sessions_ok_reset] s get_connection_iff [OF create_connection_ok(1) [OF sessions_ok_reset]]
    by simp_all
  note upd = sessions_ok_update [OF ok, of "\<lambda>c. c\<lparr>cc_authenticated := auth\<rparr>"]
    update_connection_nth [OF ok, of "\<lambda>c. c\<lparr>cc_authenticated := auth\<rparr>"]
  show "sessions_ok (gw_sessions (sample_gateway auth))" "get_connection 7 (gw_sessions (sample_gateway auth)) = Some 0"
    "buffered (sm_connections (gw_sessions (sample_gateway auth)) ! 0) = []"
    "cc_authenticated (sm_connections (gw_sessions (sample_gateway auth)) ! 0) = auth"
    using upd ok(2) by (simp_all add: sample_gateway_def s connection_default_def buffered_def)
qed

lemma sample_inbound:
  "spsc_inv inbound_cap (gw_inbound (sample_gateway auth))" "spsc_elems inbound_cap (gw_inbound (sample_gateway auth)) = []"
  "gw_sequences (sample_gateway auth) = 1" "gw_readings (sample_gateway auth) = 0"
proof -
  have "ring_cap inbound_cap"
    unfolding ring_cap_def by (intro exI [of _ 12]) simp
  from spsc_new_inv [OF this, of command_default]
  show "spsc_inv inbound_cap (gw_inbound (sample_gateway auth))" "spsc_elems inbound_cap (gw_inbound (sample_gateway auth)) = []"
    "gw_sequences (sample_gateway auth) = 1" "gw_readings (sample_gateway auth) = 0"
    by (simp_all add: sample_gateway_def gateway_new_def sequence_new_def)
qed

lemma sample_packet_ok: "new_order_ok sample_packet"
  by (simp add: new_order_ok_def sample_packet_def)

lemmas sample_frame_ok = new_order_frame(1,2) [OF sample_packet_ok _ sample_frame_def, simplified]

theorem gateway_stream_witness:
  "\<exists>g'. on_reads sample_os (\<lambda>_. 0) 7 [take 10 sample_frame, drop 10 sample_frame] (sample_gateway True) = ret g' \<and>
     handle_frames sample_os (\<lambda>_. 0) 7 [sample_frame] (gw_core (sample_gateway True)) = ret (gw_core g')"
  using gateway_stream [where g = "sample_gateway True" and conn_id = 7 and i = 0 and os = sample_os and now = "\<lambda>_. 0" and
      frames = "[sample_frame]" and chunks = "[take 10 sample_frame, drop 10 sample_frame]"]
  by (auto simp: sample_frame_ok sample_sessions)

theorem commands_need_login_witness:
  "\<exists>g'. handle_packet sample_os (\<lambda>_. 0) 7 (blank_header\<lparr>mh_type := message_type_code MT_NewOrder\<rparr>) [] 0 (sample_gateway False) = ret g' \<and>
     gw_inbound g' = gw_inbound (sample_gateway False)"
proof -
  let ?h = "blank_header\<lparr>mh_type := message_type_code MT_NewOrder\<rparr>"
  obtain g' where run: "handle_packet sample_os (\<lambda>_. 0) 7 ?h [] 0 (sample_gateway False) = ret g'"
    by (simp add: handle_packet_def sample_sessions blank_header_def)
  show ?thesis
    using commands_need_login [OF sample_inbound(1) run] run by (auto simp: sample_sessions)
qed


theorem zero_length_frame_hangs_witness:
  "on_read sample_os (\<lambda>_. 0) 7 (replicate 24 0) (sample_gateway False) = None"
proof -
  have "read_header (replicate 24 0) = blank_header"
    by (simp add: read_header_def blank_header_def get16_def get32_def get64_def numeral_eq_Suc)
  then show ?thesis
    using zero_length_frame_hangs [where g = "sample_gateway False" and conn_id = 7 and i = 0 and data = "replicate 24 0" and
        os = sample_os and now = "\<lambda>_. 0"]
    by (simp add: sample_sessions blank_header_def BUFFER_SIZE_def)
qed

end
