(* ===== verification/Journal.thy ===== *)
theory Journal
  imports Gateway
begin

text \<open>
  The write-ahead log of \<open>persistence/\<close>: \<open>Checksum\<close>, the records of \<open>wal_record.hpp\<close>, \<open>MemoryJournal\<close>,
  \<open>DiskJournal\<close> and \<open>MetadataManager\<close>. The files of the directory of a symbol are a map from names
  to contents; opening a journal for writing succeeds. What the stream of an open journal has buffered
  reaches the file when it is flushed. The time of creation of a journal file is a function of its
  number, an argument.
\<close>

section \<open>Checksum\<close>

unbundle bit_operations_syntax

definition crc_bit :: "u32 \<Rightarrow> u32" where
  "crc_bit crc = drop_bit 1 crc XOR (0x82F63B78 * (crc AND 1))"

definition crc_byte :: "u8 \<Rightarrow> u32 \<Rightarrow> u32" where
  "crc_byte b crc = (crc_bit ^^ 8) (crc XOR ucast b)"

definition crc_soft :: "u8 list \<Rightarrow> u32 \<Rightarrow> u32" where
  "crc_soft data crc = fold crc_byte data crc"

text \<open>The CRC instructions of the processor, on one, four and eight bytes.\<close>

record crc_intrinsics =
  ci_u8 :: "u32 \<Rightarrow> u8 \<Rightarrow> u32"
  ci_u32 :: "u32 \<Rightarrow> u32 \<Rightarrow> u32"
  ci_u64 :: "u32 \<Rightarrow> u64 \<Rightarrow> u32"

function crc_by8 :: "crc_intrinsics \<Rightarrow> u8 list \<Rightarrow> u32 \<Rightarrow> u8 list \<times> u32" where
  "crc_by8 ci data crc =
     (if 8 \<le> length data then crc_by8 ci (drop 8 data) (ci_u64 ci crc (get64 data 0)) else (data, crc))"
  by auto
termination
  by (relation "measure (\<lambda>(ci, data, crc). length data)") auto

function crc_by4 :: "crc_intrinsics \<Rightarrow> u8 list \<Rightarrow> u32 \<Rightarrow> u8 list \<times> u32" where
  "crc_by4 ci data crc =
     (if 4 \<le> length data then crc_by4 ci (drop 4 data) (ci_u32 ci crc (get32 data 0)) else (data, crc))"
  by auto
termination
  by (relation "measure (\<lambda>(ci, data, crc). length data)") auto

declare crc_by8.simps [simp del] crc_by4.simps [simp del]

definition crc_hard :: "crc_intrinsics \<Rightarrow> u8 list \<Rightarrow> u32 \<Rightarrow> u32" where
  "crc_hard ci data crc =
     (let (data1, crc1) = crc_by8 ci data crc;
          (data2, crc2) = crc_by4 ci data1 crc1
      in fold (\<lambda>b c. ci_u8 ci c b) data2 crc2)"

text \<open>The target of the build has the instructions or not.\<close>

type_synonym crc_target = "crc_intrinsics option"

definition crc32c :: "crc_target \<Rightarrow> u8 list \<Rightarrow> u32 \<Rightarrow> u32" where
  "crc32c tgt data initial_crc =
     NOT (case tgt of Some ci \<Rightarrow> crc_hard ci data initial_crc | None \<Rightarrow> crc_soft data initial_crc)"

section \<open>Records\<close>

definition WAL_MAGIC :: u32 where "WAL_MAGIC = 0x58554C46"
definition WAL_VERSION :: u16 where "WAL_VERSION = 1"

record wal_header =
  wh_magic :: u32
  wh_version :: u16
  wh_flags :: u16
  wh_start_sequence :: u64
  wh_timestamp :: u64
  wh_padding :: "u8 list"

definition wal_header_bytes :: "wal_header \<Rightarrow> u8 list" where
  "wal_header_bytes h = put32 (wh_magic h) @ put16 (wh_version h) @ put16 (wh_flags h) @
     put64 (wh_start_sequence h) @ put64 (wh_timestamp h) @ wh_padding h"

definition read_wal_header :: "u8 list \<Rightarrow> wal_header" where
  "read_wal_header bs = \<lparr>wh_magic = get32 bs 0, wh_version = get16 bs 4, wh_flags = get16 bs 6,
     wh_start_sequence = get64 bs 8, wh_timestamp = get64 bs 16, wh_padding = get_bytes 8 bs 24\<rparr>"

record wal_record_header =
  rh_sequence :: u64
  rh_timestamp :: u64
  rh_message_type :: u16
  rh_payload_length :: u16
  rh_checksum :: u32

text \<open>The bytes in front of the checksum, and all.\<close>

definition record_prefix_bytes :: "wal_record_header \<Rightarrow> u8 list" where
  "record_prefix_bytes h = put64 (rh_sequence h) @ put64 (rh_timestamp h) @ put16 (rh_message_type h) @
     put16 (rh_payload_length h)"

definition record_header_bytes :: "wal_record_header \<Rightarrow> u8 list" where
  "record_header_bytes h = record_prefix_bytes h @ put32 (rh_checksum h)"

definition read_record_header :: "u8 list \<Rightarrow> wal_record_header" where
  "read_record_header bs = \<lparr>rh_sequence = get64 bs 0, rh_timestamp = get64 bs 8, rh_message_type = get16 bs 16,
     rh_payload_length = get16 bs 18, rh_checksum = get32 bs 20\<rparr>"

definition total_size :: "wal_record_header option \<Rightarrow> nat" where
  "total_size header = 24 + (case header of Some h \<Rightarrow> unat (rh_payload_length h) | None \<Rightarrow> 0)"

definition record_crc :: "crc_target \<Rightarrow> wal_record_header \<Rightarrow> u8 list \<Rightarrow> u32" where
  "record_crc tgt h payload =
     (let crc = crc32c tgt (record_prefix_bytes h) 0xFFFFFFFF
      in crc32c tgt payload (NOT crc))"

text \<open>\<open>OrderCommand\<close> as it lies in memory: 72 bytes. The byte between \<open>tif\<close> and \<open>conn_id\<close> is padding.\<close>

definition order_command_bytes :: "order_command \<Rightarrow> u8 list" where
  "order_command_bytes c = put8 (command_type_code (cmd_type c)) @ replicate 7 0 @ put64 (cmd_sequence c) @
     put64 (cmd_timestamp c) @ put64 (cmd_client_order_id c) @ put64 (cmd_orig_client_order_id c) @
     put32 (get_id (cmd_symbol_id c)) @ put32 (get_id (cmd_account_id c)) @ put64 (ticks (cmd_price c)) @
     put64 (units (cmd_qty c)) @ put8 (side_code (cmd_side c)) @ put8 (order_type_code (cmd_order_type c)) @
     put8 (tif_code (cmd_tif c)) @ put8 0 @ put32 (cmd_conn_id c)"

definition read_order_command :: "u8 list \<Rightarrow> order_command" where
  "read_order_command bs = \<lparr>cmd_type = command_type_of_code (get8 bs 0), cmd_sequence = get64 bs 8,
     cmd_timestamp = get64 bs 16, cmd_client_order_id = get64 bs 24, cmd_orig_client_order_id = get64 bs 32,
     cmd_symbol_id = StrongId (get32 bs 40), cmd_account_id = StrongId (get32 bs 44), cmd_price = Price (get64 bs 48),
     cmd_qty = Quantity (get64 bs 56), cmd_side = side_of_code (get8 bs 64), cmd_order_type = order_type_of_code (get8 bs 65),
     cmd_tif = tif_of_code (get8 bs 66), cmd_conn_id = get32 bs 68\<rparr>"

section \<open>\<open>MemoryJournal\<close>\<close>

record log_entry =
  le_header :: wal_record_header
  le_payload :: "u8 list"

text \<open>\<open>stale\<close> is what the 256 bytes of the payload hold before the copy.\<close>

definition make_entry :: "crc_target \<Rightarrow> u8 list \<Rightarrow> u64 \<Rightarrow> u64 \<Rightarrow> u16 \<Rightarrow> u8 list \<Rightarrow> log_entry" where
  "make_entry tgt stale seq ts msg_type data =
     (let h = \<lparr>rh_sequence = seq, rh_timestamp = ts, rh_message_type = msg_type,
            rh_payload_length = of_nat (length data), rh_checksum = 0\<rparr>
      in \<lparr>le_header = h\<lparr>rh_checksum := record_crc tgt h data\<rparr>, le_payload = data @ drop (length data) stale\<rparr>)"

definition journal_append :: "crc_target \<Rightarrow> u64 \<Rightarrow> u8 list \<Rightarrow> u64 \<Rightarrow> u64 \<Rightarrow> u16 \<Rightarrow> u8 list \<Rightarrow>
    log_entry spsc_queue \<Rightarrow> bool \<times> log_entry spsc_queue" where
  "journal_append tgt cap stale seq ts msg_type data queue =
     (if length data > 256 then (False, queue)
      else spsc_push cap (make_entry tgt stale seq ts msg_type data) queue)"

section \<open>\<open>DiskJournal\<close>\<close>

datatype flush_policy = FlushNever | FlushInterval | FlushBatch | FlushImmediate

text \<open>The files of a directory by what their names are made from.\<close>

datatype file_name = JournalFile u64 | SnapshotFile u64 | MetaFile | MetaTempFile

type_synonym file_system = "file_name \<rightharpoonup> u8 list"

record disk_journal =
  dj_policy :: flush_policy
  dj_max_file_size :: u64
  dj_is_open :: bool
  dj_unflushed :: "u8 list"
  dj_current_bytes :: u64
  dj_file_index :: u64

definition disk_journal_new :: "flush_policy \<Rightarrow> u64 \<Rightarrow> disk_journal" where
  "disk_journal_new policy max_file_size = \<lparr>dj_policy = policy, dj_max_file_size = max_file_size, dj_is_open = False,
     dj_unflushed = [], dj_current_bytes = 0, dj_file_index = 0\<rparr>"

text \<open>\<open>current_file_.write\<close> and \<open>current_file_.flush\<close>.\<close>

definition file_write :: "u8 list \<Rightarrow> disk_journal \<Rightarrow> disk_journal" where
  "file_write bs dj = dj\<lparr>dj_unflushed := dj_unflushed dj @ bs\<rparr>"

definition file_flush :: "disk_journal \<Rightarrow> file_system \<Rightarrow> disk_journal \<times> file_system" where
  "file_flush dj fs =
     (let name = JournalFile (dj_file_index dj)
      in (dj\<lparr>dj_unflushed := []\<rparr>, fs(name \<mapsto> (case fs name of Some c \<Rightarrow> c | None \<Rightarrow> []) @ dj_unflushed dj)))"

definition journal_flush :: "disk_journal \<Rightarrow> file_system \<Rightarrow> disk_journal \<times> file_system" where
  "journal_flush dj fs = (if dj_is_open dj \<and> dj_policy dj \<noteq> FlushNever then file_flush dj fs else (dj, fs))"

definition rotate_file :: "(u64 \<Rightarrow> u64) \<Rightarrow> u64 \<Rightarrow> disk_journal \<Rightarrow> file_system \<Rightarrow> disk_journal \<times> file_system" where
  "rotate_file created seq dj fs =
     (let (dj1, fs1) = (if dj_is_open dj then file_flush dj fs else (dj, fs));
          dj2 = dj1\<lparr>dj_file_index := dj_file_index dj1 + 1, dj_is_open := True\<rparr>;
          fs2 = fs1(JournalFile (dj_file_index dj2) \<mapsto> []);
          header = \<lparr>wh_magic = WAL_MAGIC, wh_version = WAL_VERSION, wh_flags = 0, wh_start_sequence = seq,
            wh_timestamp = created (dj_file_index dj2), wh_padding = replicate 8 0\<rparr>
      in ((file_write (wal_header_bytes header) dj2)\<lparr>dj_current_bytes := 32\<rparr>, fs2))"

definition write_entry :: "(u64 \<Rightarrow> u64) \<Rightarrow> log_entry \<Rightarrow> disk_journal \<Rightarrow> file_system \<Rightarrow> disk_journal \<times> file_system" where
  "write_entry created entry dj fs =
     (let (dj1, fs1) = (if \<not> dj_is_open dj \<or> dj_current_bytes dj \<ge> dj_max_file_size dj
                        then rotate_file created (rh_sequence (le_header entry)) dj fs else (dj, fs));
          n = unat (rh_payload_length (le_header entry));
          dj2 = file_write (take n (le_payload entry)) (file_write (record_header_bytes (le_header entry)) dj1)
      in (dj2\<lparr>dj_current_bytes := dj_current_bytes dj2 + 24 + of_nat n\<rparr>, fs1))"

text \<open>The variables of \<open>run\<close>. Times are in nanoseconds.\<close>

record journal_run =
  jr_queue :: "log_entry spsc_queue"
  jr_journal :: disk_journal
  jr_files :: file_system
  jr_batch_count :: nat
  jr_last_flush :: u64

definition flush_run :: "journal_run \<Rightarrow> journal_run" where
  "flush_run r = (let (dj, fs) = journal_flush (jr_journal r) (jr_files r) in r\<lparr>jr_journal := dj, jr_files := fs\<rparr>)"

text \<open>The body of the loop of \<open>run\<close>; \<open>now\<close> is the reading of the clock in the idle branch.\<close>

definition journal_iteration :: "(u64 \<Rightarrow> u64) \<Rightarrow> u64 \<Rightarrow> journal_run \<Rightarrow> journal_run" where
  "journal_iteration created now r =
     (case spsc_pop 65536 (jr_queue r) of
        (Some entry, q) \<Rightarrow>
          let (dj, fs) = write_entry created entry (jr_journal r) (jr_files r);
              r1 = r\<lparr>jr_queue := q, jr_journal := dj, jr_files := fs, jr_batch_count := jr_batch_count r + 1\<rparr>
          in if dj_policy dj = FlushImmediate then flush_run r1
             else if dj_policy dj = FlushBatch \<and> jr_batch_count r1 \<ge> 1000 then (flush_run r1)\<lparr>jr_batch_count := 0\<rparr>
             else r1
      | (None, q) \<Rightarrow>
          if dj_policy (jr_journal r) = FlushInterval \<and> now - jr_last_flush r \<ge> 10000000
          then (flush_run r)\<lparr>jr_last_flush := now\<rparr>
          else r)"

text \<open>The loop once \<open>running_\<close> is false: it goes on until the queue is empty, then flushes; \<open>stop\<close> closes the
  file.\<close>

partial_function (option) journal_finish :: "(u64 \<Rightarrow> u64) \<Rightarrow> journal_run \<Rightarrow> journal_run run" where
  "journal_finish created r =
     (if spsc_empty (jr_queue r) then ret (flush_run r)
      else journal_finish created (journal_iteration created 0 r))"

definition journal_stop :: "(u64 \<Rightarrow> u64) \<Rightarrow> journal_run \<Rightarrow> journal_run run" where
  "journal_stop created r =
     bind_run (journal_finish created r) (\<lambda>r1.
     if dj_is_open (jr_journal r1) then
       let (dj, fs) = file_flush (jr_journal r1) (jr_files r1)
       in ret (r1\<lparr>jr_journal := dj\<lparr>dj_is_open := False\<rparr>, jr_files := fs\<rparr>)
     else ret r1)"

section \<open>\<open>MetadataManager\<close>\<close>

definition METADATA_MAGIC :: u32 where "METADATA_MAGIC = 0x4D455441"
definition METADATA_VERSION :: u16 where "METADATA_VERSION = 1"

record metadata_info =
  mi_magic :: u32
  mi_version :: u16
  mi_flags :: u16
  mi_latest_snapshot_sequence :: u64
  mi_last_journal_sequence :: u64
  mi_current_journal_index :: u64
  mi_checksum :: u32
  mi_padding :: u32

definition metadata_prefix_bytes :: "metadata_info \<Rightarrow> u8 list" where
  "metadata_prefix_bytes m = put32 (mi_magic m) @ put16 (mi_version m) @ put16 (mi_flags m) @
     put64 (mi_latest_snapshot_sequence m) @ put64 (mi_last_journal_sequence m) @ put64 (mi_current_journal_index m)"

definition metadata_bytes :: "metadata_info \<Rightarrow> u8 list" where
  "metadata_bytes m = metadata_prefix_bytes m @ put32 (mi_checksum m) @ put32 (mi_padding m)"

definition read_metadata :: "u8 list \<Rightarrow> metadata_info" where
  "read_metadata bs = \<lparr>mi_magic = get32 bs 0, mi_version = get16 bs 4, mi_flags = get16 bs 6,
     mi_latest_snapshot_sequence = get64 bs 8, mi_last_journal_sequence = get64 bs 16,
     mi_current_journal_index = get64 bs 24, mi_checksum = get32 bs 32, mi_padding = get32 bs 36\<rparr>"

text \<open>The temporary file is written and renamed; \<open>can_open\<close> says whether it could be opened.\<close>

definition metadata_save :: "crc_target \<Rightarrow> bool \<Rightarrow> metadata_info \<Rightarrow> file_system \<Rightarrow> bool \<times> file_system" where
  "metadata_save tgt can_open info fs =
     (let out = info\<lparr>mi_magic := METADATA_MAGIC, mi_version := METADATA_VERSION\<rparr>;
          out1 = out\<lparr>mi_checksum := crc32c tgt (metadata_prefix_bytes out) 0xFFFFFFFF\<rparr>;
          fs1 = fs(MetaTempFile \<mapsto> metadata_bytes out1)
      in if \<not> can_open then (False, fs) else (True, fs1(MetaFile := fs1 MetaTempFile, MetaTempFile := None)))"

definition metadata_load :: "crc_target \<Rightarrow> file_system \<Rightarrow> metadata_info option" where
  "metadata_load tgt fs =
     (case fs MetaFile of
        None \<Rightarrow> None
      | Some content \<Rightarrow>
          if length content < 40 then None
          else
            let info = read_metadata (take 40 content)
            in if mi_magic info \<noteq> METADATA_MAGIC \<or> mi_version info \<noteq> METADATA_VERSION then None
               else if mi_checksum info \<noteq> crc32c tgt (metadata_prefix_bytes info) 0xFFFFFFFF then None
               else Some info)"

end
