(* ===== verification/Recovery.thy ===== *)
theory Recovery
  imports Journal Matching_Engine
begin

text \<open>
  Snapshots of a book and recovery of a book from the latest snapshot and the journals after it:
  \<open>SnapshotWriter\<close>, \<open>SnapshotReader\<close> and \<open>ReplayEngine\<close> of \<open>persistence/\<close>. An input stream is
  the list of the bytes not read yet. \<open>SnapshotWriter\<close> reads a member \<open>head_order\<close> of a price level
  that the structure in \<open>price_level.hpp\<close> does not have; it is an argument.
\<close>

section \<open>Structures of a snapshot\<close>

definition SNAPSHOT_MAGIC :: u32 where "SNAPSHOT_MAGIC = 0x534E4150"
definition SNAPSHOT_VERSION :: u16 where "SNAPSHOT_VERSION = 1"

record snapshot_header =
  sh_magic :: u32
  sh_version :: u16
  sh_flags :: u16
  sh_sequence :: u64
  sh_timestamp :: u64
  sh_bid_level_count :: u32
  sh_ask_level_count :: u32
  sh_checksum :: u32
  sh_padding :: u32

definition snapshot_header_bytes :: "snapshot_header \<Rightarrow> u8 list" where
  "snapshot_header_bytes h = put32 (sh_magic h) @ put16 (sh_version h) @ put16 (sh_flags h) @ put64 (sh_sequence h) @
     put64 (sh_timestamp h) @ put32 (sh_bid_level_count h) @ put32 (sh_ask_level_count h) @ put32 (sh_checksum h) @
     put32 (sh_padding h)"

definition read_snapshot_header :: "u8 list \<Rightarrow> snapshot_header" where
  "read_snapshot_header bs = \<lparr>sh_magic = get32 bs 0, sh_version = get16 bs 4, sh_flags = get16 bs 6,
     sh_sequence = get64 bs 8, sh_timestamp = get64 bs 16, sh_bid_level_count = get32 bs 24,
     sh_ask_level_count = get32 bs 28, sh_checksum = get32 bs 32, sh_padding = get32 bs 36\<rparr>"

record level_snapshot =
  ls_price :: price
  ls_total_qty :: quantity
  ls_order_count :: u32
  ls_padding :: u32

definition level_snapshot_bytes :: "level_snapshot \<Rightarrow> u8 list" where
  "level_snapshot_bytes l = put64 (ticks (ls_price l)) @ put64 (units (ls_total_qty l)) @ put32 (ls_order_count l) @
     put32 (ls_padding l)"

definition read_level_snapshot :: "u8 list \<Rightarrow> level_snapshot" where
  "read_level_snapshot bs = \<lparr>ls_price = Price (get64 bs 0), ls_total_qty = Quantity (get64 bs 8),
     ls_order_count = get32 bs 16, ls_padding = get32 bs 20\<rparr>"

text \<open>Four bytes of padding follow the symbol of the key; they are zero.\<close>

record order_snapshot =
  os_key :: order_key
  os_remaining_qty :: quantity
  os_priority_seq :: u64

definition order_snapshot_bytes :: "order_snapshot \<Rightarrow> u8 list" where
  "order_snapshot_bytes o1 = put32 (get_id (key_symbol_id (os_key o1))) @ replicate 4 0 @
     put64 (get_id (key_order_id (os_key o1))) @ put64 (units (os_remaining_qty o1)) @ put64 (os_priority_seq o1)"

definition read_order_snapshot :: "u8 list \<Rightarrow> order_snapshot" where
  "read_order_snapshot bs = \<lparr>os_key = OrderKey (StrongId (get32 bs 0)) (StrongId (get64 bs 8)),
     os_remaining_qty = Quantity (get64 bs 16), os_priority_seq = get64 bs 24\<rparr>"

section \<open>\<open>SnapshotWriter\<close>\<close>

partial_function (option) count_levels :: "u32 \<Rightarrow> addr option \<Rightarrow> level_heap \<Rightarrow> u32 run" where
  "count_levels n cur h =
     (case cur of
        None \<Rightarrow> ret n
      | Some a \<Rightarrow> bind_run (deref a h) (\<lambda>z. count_levels (n + 1) (pl_next z) h))"

partial_function (option) count_orders :: "u32 \<Rightarrow> addr option \<Rightarrow> order_heap \<Rightarrow> u32 run" where
  "count_orders n cur h =
     (case cur of
        None \<Rightarrow> ret n
      | Some x \<Rightarrow> bind_run (deref x h) (\<lambda>z. count_orders (n + 1) (lo_next z) h))"

text \<open>The loops of \<open>write_levels\<close> return the bytes they wrote and the checksum.\<close>

partial_function (option) write_orders ::
  "crc_target \<Rightarrow> addr option \<Rightarrow> order_heap \<Rightarrow> u8 list \<Rightarrow> u32 \<Rightarrow> (u8 list \<times> u32) run" where
  "write_orders tgt cur h out crc =
     (case cur of
        None \<Rightarrow> ret (out, crc)
      | Some x \<Rightarrow>
          bind_run (deref x h) (\<lambda>z.
          let bs = order_snapshot_bytes \<lparr>os_key = lo_key z, os_remaining_qty = lo_remaining_qty z,
                os_priority_seq = lo_priority_seq z\<rparr>
          in write_orders tgt (lo_next z) h (out @ bs) (crc32c tgt bs (NOT crc))))"

partial_function (option) write_levels ::
  "crc_target \<Rightarrow> (price_level_node \<Rightarrow> addr option) \<Rightarrow> addr option \<Rightarrow> order_book \<Rightarrow> u8 list \<Rightarrow> u32 \<Rightarrow>
   (u8 list \<times> u32) run" where
  "write_levels tgt head_order cur b out crc =
     (case cur of
        None \<Rightarrow> ret (out, crc)
      | Some a \<Rightarrow>
          bind_run (deref a (level_mem b)) (\<lambda>z.
          bind_run (count_orders 0 (head_order z) (order_mem b)) (\<lambda>n.
          let bs = level_snapshot_bytes \<lparr>ls_price = pl_price z, ls_total_qty = pl_total_qty z, ls_order_count = n,
                ls_padding = 0\<rparr>
          in bind_run (write_orders tgt (head_order z) (order_mem b) (out @ bs) (crc32c tgt bs (NOT crc))) (\<lambda>(out1, crc1).
             write_levels tgt head_order (pl_next z) b out1 crc1))))"

text \<open>The header is written twice: at first without the checksum, at last over it.\<close>

definition snapshot_content ::
  "crc_target \<Rightarrow> (price_level_node \<Rightarrow> addr option) \<Rightarrow> order_book \<Rightarrow> u64 \<Rightarrow> u64 \<Rightarrow> u8 list run" where
  "snapshot_content tgt head_order b sequence timestamp =
     bind_run (count_levels 0 (best_bid_level b) (level_mem b)) (\<lambda>bids.
     bind_run (count_levels 0 (best_ask_level b) (level_mem b)) (\<lambda>asks.
     let header = \<lparr>sh_magic = SNAPSHOT_MAGIC, sh_version = SNAPSHOT_VERSION, sh_flags = 0, sh_sequence = sequence,
           sh_timestamp = timestamp, sh_bid_level_count = bids, sh_ask_level_count = asks, sh_checksum = 0,
           sh_padding = 0\<rparr>
     in bind_run (write_levels tgt head_order (best_bid_level b) b (snapshot_header_bytes header) 0xFFFFFFFF) (\<lambda>(out1, crc1).
        bind_run (write_levels tgt head_order (best_ask_level b) b out1 crc1) (\<lambda>(out2, crc2).
        ret (snapshot_header_bytes (header\<lparr>sh_checksum := NOT crc2\<rparr>) @ drop 40 out2)))))"

definition snapshot_save ::
  "crc_target \<Rightarrow> (price_level_node \<Rightarrow> addr option) \<Rightarrow> bool \<Rightarrow> file_name \<Rightarrow> order_book \<Rightarrow> u64 \<Rightarrow> u64 \<Rightarrow> file_system \<Rightarrow>
   (bool \<times> file_system) run" where
  "snapshot_save tgt head_order can_open path b sequence timestamp fs =
     (if \<not> can_open then ret (False, fs)
      else bind_run (snapshot_content tgt head_order b sequence timestamp) (\<lambda>content.
           ret (True, fs(path \<mapsto> content))))"

section \<open>\<open>SnapshotReader\<close>\<close>

text \<open>A read of \<open>n\<close> bytes, if so many are left.\<close>

definition read_exact :: "nat \<Rightarrow> u8 list \<Rightarrow> (u8 list \<times> u8 list) option" where
  "read_exact n stream = (if length stream < n then None else Some (take n stream, drop n stream))"

definition restored_order :: "side \<Rightarrow> level_snapshot \<Rightarrow> order_snapshot \<Rightarrow> order" where
  "restored_order sd lsnap osnap =
     \<lparr>ord_order_id = key_order_id (os_key osnap), ord_price = ls_price lsnap, ord_qty = os_remaining_qty osnap,
      ord_seq_num = 0, ord_client_timestamp = 0, ord_exchange_timestamp = 0, ord_client_id = StrongId 0,
      ord_account_id = StrongId 0, ord_symbol_id = key_symbol_id (os_key osnap), ord_side = sd, ord_type = Limit,
      ord_tif = GTC, ord_flags = flags_None\<rparr>"

text \<open>The state of the reader: whether it goes on, the stream, the book and the checksum.\<close>

type_synonym reader = "bool \<times> u8 list \<times> order_book \<times> u32"

fun read_orders :: "crc_target \<Rightarrow> nat \<Rightarrow> side \<Rightarrow> level_snapshot \<Rightarrow> u8 list \<Rightarrow> order_book \<Rightarrow> u32 \<Rightarrow> reader run" where
  "read_orders tgt 0 sd lsnap stream b crc = ret (True, stream, b, crc)"
| "read_orders tgt (Suc n) sd lsnap stream b crc =
     (case read_exact 32 stream of
        None \<Rightarrow> ret (False, [], b, crc)
      | Some (bs, rest) \<Rightarrow>
          let osnap = read_order_snapshot bs
          in bind_run (book_insert (restored_order sd lsnap osnap) (os_priority_seq osnap) b) (\<lambda>(_, b1).
             read_orders tgt n sd lsnap rest b1 (crc32c tgt bs (NOT crc))))"

fun read_levels :: "crc_target \<Rightarrow> nat \<Rightarrow> side \<Rightarrow> u8 list \<Rightarrow> order_book \<Rightarrow> u32 \<Rightarrow> reader run" where
  "read_levels tgt 0 sd stream b crc = ret (True, stream, b, crc)"
| "read_levels tgt (Suc n) sd stream b crc =
     (case read_exact 24 stream of
        None \<Rightarrow> ret (False, [], b, crc)
      | Some (bs, rest) \<Rightarrow>
          let lsnap = read_level_snapshot bs
          in bind_run (read_orders tgt (unat (ls_order_count lsnap)) sd lsnap rest b (crc32c tgt bs (NOT crc)))
               (\<lambda>(ok, rest1, b1, crc1).
             if ok then read_levels tgt n sd rest1 b1 crc1 else ret (False, rest1, b1, crc1)))"

text \<open>\<open>last_seq\<close> and \<open>last_ts\<close> are the outputs; a load that fails early leaves them.\<close>

definition snapshot_load ::
  "crc_target \<Rightarrow> u8 list option \<Rightarrow> order_book \<Rightarrow> u64 \<Rightarrow> u64 \<Rightarrow> (bool \<times> order_book \<times> u64 \<times> u64) run" where
  "snapshot_load tgt file b last_seq last_ts =
     (case file of
        None \<Rightarrow> ret (False, b, last_seq, last_ts)
      | Some content \<Rightarrow>
        (case read_exact 40 content of
           None \<Rightarrow> ret (False, b, last_seq, last_ts)
         | Some (hbs, stream) \<Rightarrow>
             let header = read_snapshot_header hbs
             in if sh_magic header \<noteq> SNAPSHOT_MAGIC \<or> sh_version header \<noteq> SNAPSHOT_VERSION
                then ret (False, b, last_seq, last_ts)
                else
                  bind_run (book_clear b) (\<lambda>b0.
                  bind_run (read_levels tgt (unat (sh_bid_level_count header)) Buy stream b0 0xFFFFFFFF)
                    (\<lambda>(ok1, stream1, b1, crc1).
                  if \<not> ok1 then ret (False, b1, sh_sequence header, sh_timestamp header)
                  else
                    bind_run (read_levels tgt (unat (sh_ask_level_count header)) Sell stream1 b1 crc1)
                      (\<lambda>(ok2, stream2, b2, crc2).
                    if \<not> ok2 \<or> sh_checksum header \<noteq> NOT crc2 then ret (False, b2, sh_sequence header, sh_timestamp header)
                    else bind_run (book_verify_invariants b2) (\<lambda>_.
                      ret (True, b2, sh_sequence header, sh_timestamp header)))))))"

section \<open>\<open>ReplayEngine\<close>\<close>

definition replayed_order :: "order_command \<Rightarrow> u64 \<Rightarrow> order" where
  "replayed_order cmd timestamp =
     \<lparr>ord_order_id = StrongId (cmd_client_order_id cmd), ord_price = cmd_price cmd, ord_qty = cmd_qty cmd,
      ord_seq_num = cmd_sequence cmd, ord_client_timestamp = cmd_timestamp cmd, ord_exchange_timestamp = timestamp,
      ord_client_id = StrongId 1, ord_account_id = cmd_account_id cmd, ord_symbol_id = cmd_symbol_id cmd,
      ord_side = cmd_side cmd, ord_type = cmd_order_type cmd, ord_tif = cmd_tif cmd, ord_flags = flags_None\<rparr>"

definition replay_record :: "wal_record_header \<Rightarrow> u8 list \<Rightarrow> order_book \<Rightarrow> order_book run" where
  "replay_record rheader payload b =
     (if rh_message_type rheader = ucast (command_type_code CmdNewOrder) then
        if length payload = 72 then
          let cmd = read_order_command payload
          in bind_run (book_insert (replayed_order cmd (rh_timestamp rheader)) (cmd_sequence cmd) b) (\<lambda>(_, b1). ret b1)
        else ret b
      else if rh_message_type rheader = ucast (command_type_code CmdCancelOrder) then
        if length payload = 72 then
          bind_run (book_cancel (StrongId (cmd_orig_client_order_id (read_order_command payload))) b) (\<lambda>(_, b1). ret b1)
        else ret b
      else ret b)"

text \<open>The loop over the records of a journal; the result says whether it was read without a checksum
  mismatch.\<close>

function replay_records :: "crc_target \<Rightarrow> u8 list \<Rightarrow> order_book \<Rightarrow> u64 \<Rightarrow> (bool \<times> order_book \<times> u64) run" where
  "replay_records tgt stream b current_seq =
     (if stream = [] then ret (True, b, current_seq)
      else
        (case read_exact 24 stream of
           None \<Rightarrow> ret (True, b, current_seq)
         | Some (hbs, stream1) \<Rightarrow>
             let rheader = read_record_header hbs
             in (case read_exact (unat (rh_payload_length rheader)) stream1 of
                   None \<Rightarrow> ret (True, b, current_seq)
                 | Some (payload, stream2) \<Rightarrow>
                     if rh_checksum rheader \<noteq> record_crc tgt rheader payload then ret (False, b, current_seq)
                     else if rh_sequence rheader \<le> current_seq then replay_records tgt stream2 b current_seq
                     else bind_run (replay_record rheader payload b) (\<lambda>b1.
                       replay_records tgt stream2 b1 (rh_sequence rheader)))))"
  by auto
termination
  by (relation "measure (\<lambda>(tgt, stream, b, s). length stream)") (auto simp: read_exact_def split: if_splits)

declare replay_records.simps [simp del]

definition replay_journal :: "crc_target \<Rightarrow> u8 list option \<Rightarrow> order_book \<Rightarrow> u64 \<Rightarrow> (bool \<times> order_book \<times> u64) run" where
  "replay_journal tgt file b current_seq =
     (case file of
        None \<Rightarrow> ret (False, b, current_seq)
      | Some content \<Rightarrow>
        (case read_exact 32 content of
           None \<Rightarrow> ret (False, b, current_seq)
         | Some (hbs, stream) \<Rightarrow>
             let header = read_wal_header hbs
             in if wh_magic header \<noteq> WAL_MAGIC \<or> wh_version header \<noteq> WAL_VERSION then ret (False, b, current_seq)
                else replay_records tgt stream b current_seq))"

text \<open>The loop over the journals ends at the first number without a file.\<close>

partial_function (option) replay_journals ::
  "crc_target \<Rightarrow> file_system \<Rightarrow> u64 \<Rightarrow> order_book \<Rightarrow> u64 \<Rightarrow> (bool \<times> order_book) run" where
  "replay_journals tgt fs journal_idx b last_seq =
     (if fs (JournalFile journal_idx) = None then ret (True, b)
      else
        bind_run (replay_journal tgt (fs (JournalFile journal_idx)) b last_seq) (\<lambda>(ok, b1, last_seq1).
        if ok then replay_journals tgt fs (journal_idx + 1) b1 last_seq1 else ret (False, b1)))"

definition recover :: "crc_target \<Rightarrow> file_system \<Rightarrow> order_book \<Rightarrow> (bool \<times> order_book) run" where
  "recover tgt fs b =
     (case metadata_load tgt fs of
        None \<Rightarrow> replay_journals tgt fs 1 b 0
      | Some meta \<Rightarrow>
          let snapshot_file = SnapshotFile (mi_latest_snapshot_sequence meta)
          in if fs snapshot_file = None then replay_journals tgt fs 1 b 0
             else
               bind_run (snapshot_load tgt (fs snapshot_file) b 0 0) (\<lambda>(ok, b1, last_seq, last_ts).
               if \<not> ok then ret (False, b1)
               else replay_journals tgt fs (mi_current_journal_index meta) b1 last_seq))"

end
