(* ===== verification/Checksum_Properties.thy ===== *)
theory Checksum_Properties
  imports Recovery
begin

text \<open>
  The checksum of the journals and snapshots: the steps of the register are injective, so that a wrong
  byte never goes unnoticed, and the instruction loops compute what the bitwise loop computes.
\<close>

unbundle bit_operations_syntax

section \<open>The checksum\<close>

lemma low_bit: "c AND 1 = of_bool (odd c)" for c :: u32
  by (simp add: and_one_eq mod_2_eq_odd)

lemma xor_cancel: "a XOR x = a XOR y \<longleftrightarrow> x = y" "x XOR a = y XOR a \<longleftrightarrow> x = y" for a :: u32
  by (metis xor.assoc xor.commute xor_self_eq xor.left_neutral)+

lemma crc_bit_top: "bit (crc_bit c) 31 = odd c"
proof -
  have "\<not> bit c 32"
    using bit_imp_le_length [of c 32] by auto
  then show ?thesis
    by (cases "odd c") (simp_all add: crc_bit_def low_bit bit_simps)
qed

lemma crc_bit_inj: "inj crc_bit"
proof (rule injI)
  fix x y :: u32
  assume eq: "crc_bit x = crc_bit y"
  then have odd: "odd x = odd y"
    by (metis crc_bit_top)
  then have "drop_bit 1 x = drop_bit 1 y"
    using eq by (simp add: crc_bit_def low_bit xor_cancel)
  then have high: "bit x (Suc n) = bit y (Suc n)" for n
    by (metis bit_drop_bit_eq plus_1_eq_Suc comp_apply)
  show "x = y"
    using high odd by (intro bit_eqI) (metis bit_0 not0_implies_Suc)
qed

lemma crc_bits_inj: "inj (crc_bit ^^ n)"
  by (induction n) (auto simp: inj_def dest: injD [OF crc_bit_inj])

lemma ucast_u8_u32: "unat (ucast b :: u32) = unat b \<and> (ucast (ucast b :: u32) :: u8) = b" for b :: u8
  by (intro conjI bit_eqI) (auto simp: bit_simps bit_imp_le_length unsigned_ucast_eq dest: bit_imp_le_length)

text \<open>A step of the checksum is injective in the register and in the byte.\<close>

lemma crc_byte_inj [simp]:
  "crc_byte b x = crc_byte b y \<longleftrightarrow> x = y"
  "crc_byte b x = crc_byte b' x \<longleftrightarrow> b = b'"
proof -
  have "crc_byte b x = crc_byte b' y \<longleftrightarrow> x XOR ucast b = y XOR ucast b'" for b b' y
    using injD [OF crc_bits_inj [of 8]] by (auto simp: crc_byte_def)
  moreover have "ucast b = (ucast b' :: u32) \<longleftrightarrow> b = b'" for b' :: u8
    by (metis ucast_u8_u32)
  ultimately show "crc_byte b x = crc_byte b y \<longleftrightarrow> x = y" "crc_byte b x = crc_byte b' x \<longleftrightarrow> b = b'"
    by (simp_all add: xor_cancel)
qed

lemma crc_soft_inj [simp]: "crc_soft data x = crc_soft data y \<longleftrightarrow> x = y"
  by (induction data arbitrary: x y) (simp_all add: crc_soft_def)

lemma crc_soft_append [simp]: "crc_soft (as @ bs) c = crc_soft bs (crc_soft as c)"
  by (simp add: crc_soft_def)

text \<open>What the processor manuals say of the instructions: they do the steps of one, four and eight
  bytes, least significant byte first.\<close>

definition intrinsics_ok :: "crc_intrinsics \<Rightarrow> bool" where
  "intrinsics_ok ci \<longleftrightarrow> (\<forall>c b. ci_u8 ci c b = crc_soft [b] c) \<and> (\<forall>c w. ci_u32 ci c w = crc_soft (put32 w) c) \<and>
     (\<forall>c w. ci_u64 ci c w = crc_soft (put64 w) c)"

lemma u8_256: "(256 :: u8) * x = 0"
proof -
  have "(256 :: u8) = 0"
    by simp
  then show ?thesis
    by (simp only: mult_zero_left)
qed

lemma put_get_bytes: "le_bytes (length bs) (of_le_bytes bs) = bs"
proof (induction bs)
  case (Cons b bs)
  have "unat b < 256"
    using unsigned_less [of b, where ?'a = nat] by simp
  then show ?case
    using Cons by (simp add: u8_256)
qed simp

lemma of_le_bytes_bound: "of_le_bytes bs < 256 ^ length bs"
proof (induction bs)
  case (Cons b bs)
  have "unat b < 256"
    using unsigned_less [of b, where ?'a = nat] by simp
  then show ?case
    using Cons by simp
qed simp

lemma put_get:
  "4 \<le> length data \<Longrightarrow> put32 (get32 data 0) = take 4 data"
  "8 \<le> length data \<Longrightarrow> put64 (get64 data 0) = take 8 data"
  using put_get_bytes [of "take 4 data"] of_le_bytes_bound [of "take 4 data"]
    put_get_bytes [of "take 8 data"] of_le_bytes_bound [of "take 8 data"]
  by (simp_all add: put32_def put64_def get32_def get64_def unat_of_nat)

lemma crc_by8_soft:
  assumes "intrinsics_ok ci"
  shows "crc_soft (fst (crc_by8 ci data crc)) (snd (crc_by8 ci data crc)) = crc_soft data crc"
  using assms
proof (induction ci data crc rule: crc_by8.induct)
  case (1 ci data crc)
  show ?case
  proof (cases "8 \<le> length data")
    case True
    then have "crc_soft data crc = crc_soft (drop 8 data) (ci_u64 ci crc (get64 data 0))"
      using 1(2) by (metis intrinsics_ok_def put_get(2) append_take_drop_id crc_soft_append)
    then show ?thesis
      using 1 True by (simp add: crc_by8.simps [of ci data])
  qed (simp add: crc_by8.simps)
qed

lemma crc_by4_soft:
  assumes "intrinsics_ok ci"
  shows "crc_soft (fst (crc_by4 ci data crc)) (snd (crc_by4 ci data crc)) = crc_soft data crc"
  using assms
proof (induction ci data crc rule: crc_by4.induct)
  case (1 ci data crc)
  show ?case
  proof (cases "4 \<le> length data")
    case True
    then have "crc_soft data crc = crc_soft (drop 4 data) (ci_u32 ci crc (get32 data 0))"
      using 1(2) by (metis intrinsics_ok_def put_get(1) append_take_drop_id crc_soft_append)
    then show ?thesis
      using 1 True by (simp add: crc_by4.simps [of ci data])
  qed (simp add: crc_by4.simps)
qed

lemma crc_hard_soft:
  assumes "intrinsics_ok ci"
  shows "crc_hard ci data crc = crc_soft data crc"
proof -
  have "(\<lambda>b c. ci_u8 ci c b) = crc_byte"
    using assms by (simp add: intrinsics_ok_def crc_soft_def fun_eq_iff)
  then have "fold (\<lambda>b c. ci_u8 ci c b) d c = crc_soft d c" for d c
    by (simp add: crc_soft_def)
  then show ?thesis
    using crc_by8_soft [OF assms, of data crc] crc_by4_soft [OF assms]
    by (simp add: crc_hard_def split: prod.splits) (metis fst_conv snd_conv)
qed

text \<open>Targets on which the checksum is the one of the software loop.\<close>

definition target_ok :: "crc_target \<Rightarrow> bool" where
  "target_ok tgt \<longleftrightarrow> (\<forall>ci. tgt = Some ci \<longrightarrow> intrinsics_ok ci)"

lemma crc32c_soft: "target_ok tgt \<Longrightarrow> crc32c tgt data crc = NOT (crc_soft data crc)"
  by (cases tgt) (simp_all add: crc32c_def target_ok_def crc_hard_soft)

text \<open>Going on with the complement of a checksum is going on with the data.\<close>

lemma crc32c_chain: "target_ok tgt \<Longrightarrow> crc32c tgt bs (NOT (crc32c tgt as c)) = crc32c tgt (as @ bs) c"
  by (simp add: crc32c_soft)

text \<open>One wrong byte changes the checksum.\<close>

lemma crc_soft_detects: "i < length data \<Longrightarrow> crc_soft (data[i := v]) c = crc_soft data c \<longleftrightarrow> v = data ! i"
proof -
  assume i: "i < length data"
  then have "crc_soft (data[i := v]) c = crc_soft (drop (Suc i) data) (crc_byte v (crc_soft (take i data) c))" for v
    by (simp add: upd_conv_take_nth_drop) (simp add: crc_soft_def)
  from this [of v] this [of "data ! i"] show ?thesis
    by simp
qed

lemma crc32c_detects:
  "target_ok tgt \<Longrightarrow> i < length data \<Longrightarrow> crc32c tgt (data[i := v]) c = crc32c tgt data c \<longleftrightarrow> v = data ! i"
  by (simp add: crc32c_soft crc_soft_detects)

lemma record_crc_flat:
  "target_ok tgt \<Longrightarrow> record_crc tgt h payload = crc32c tgt (record_prefix_bytes h @ payload) 0xFFFFFFFF"
  by (simp add: record_crc_def crc32c_chain)

unbundle bit_operations_syntax

section \<open>The two paths of the checksum\<close>







end
