(* ===== verification/Journal_Properties.thy ===== *)
theory Journal_Properties
  imports Checksum_Properties Matching_Properties
begin

text \<open>
  What the write-ahead log guarantees. The writer keeps the entries of its queue, in order, in the journals
  and in the buffer of the last one (\<open>writer_inv\<close>, \<open>logged\<close>); the reader applies the entries of a
  stream one after the other (\<open>replay_all\<close>), up to a torn or damaged one. Together: what was queued is what
  recovery applies. Two statements say where this is not enough.
\<close>

unbundle bit_operations_syntax

section \<open>Records in a stream\<close>

text \<open>What the writer puts into a file for an entry, and when the reader accepts it.\<close>

definition entry_payload :: "log_entry \<Rightarrow> u8 list" where
  "entry_payload e = take (unat (rh_payload_length (le_header e))) (le_payload e)"

definition entry_bytes :: "log_entry \<Rightarrow> u8 list" where
  "entry_bytes e = record_header_bytes (le_header e) @ entry_payload e"

definition entry_ok :: "crc_target \<Rightarrow> log_entry \<Rightarrow> bool" where
  "entry_ok tgt e \<longleftrightarrow> unat (rh_payload_length (le_header e)) \<le> length (le_payload e) \<and>
     rh_checksum (le_header e) = record_crc tgt (le_header e) (entry_payload e)"

definition entry_seq :: "log_entry \<Rightarrow> u64" where
  "entry_seq e = rh_sequence (le_header e)"

lemma record_header_length [simp]: "length (record_prefix_bytes h) = 20" "length (record_header_bytes h) = 24"
  by (simp_all add: record_prefix_bytes_def record_header_bytes_def)

lemma record_header_roundtrip [simp]: "read_record_header (record_header_bytes h) = h"
  by (simp add: read_record_header_def record_header_bytes_def record_prefix_bytes_def wire_simps)

lemma record_prefix_checksum [simp]:
  "record_prefix_bytes (h\<lparr>rh_checksum := c\<rparr>) = record_prefix_bytes h"
  by (simp add: record_prefix_bytes_def)

lemma record_crc_checksum [simp]: "record_crc tgt (h\<lparr>rh_checksum := c\<rparr>) p = record_crc tgt h p"
  by (simp add: record_crc_def)

lemma make_entry_ok: "length data \<le> 256 \<Longrightarrow> entry_ok tgt (make_entry tgt stale seq ts mt data)"
  by (simp add: entry_ok_def entry_payload_def make_entry_def Let_def unat_of_nat record_crc_def record_prefix_bytes_def)

lemma make_entry_fields:
  assumes "length data \<le> 256"
  shows "entry_payload (make_entry tgt stale seq ts mt data) = data"
    "entry_seq (make_entry tgt stale seq ts mt data) = seq"
    "rh_message_type (le_header (make_entry tgt stale seq ts mt data)) = mt"
    "rh_timestamp (le_header (make_entry tgt stale seq ts mt data)) = ts"
  using assms by (simp_all add: entry_payload_def entry_seq_def make_entry_def Let_def unat_of_nat)

lemma entry_bytes_length: "length (entry_bytes e) = 24 + length (entry_payload e)"
  by (simp add: entry_bytes_def)

text \<open>The effect of replaying entries one after the other.\<close>

fun replay_all :: "log_entry list \<Rightarrow> order_book \<Rightarrow> order_book run" where
  "replay_all [] b = ret b"
| "replay_all (e # es) b = bind_run (replay_record (le_header e) (entry_payload e) b) (replay_all es)"

definition last_seq :: "u64 \<Rightarrow> log_entry list \<Rightarrow> u64" where
  "last_seq s es = (if es = [] then s else entry_seq (last es))"

lemma last_seq_simps [simp]: "last_seq s [] = s" "last_seq s (e # es) = last_seq (entry_seq e) es"
  by (simp_all add: last_seq_def)

lemma replay_step:
  assumes "length hbs = 24" and "read_record_header hbs = h" and "length payload = unat (rh_payload_length h)"
  shows "replay_records tgt (hbs @ payload @ rest) b s =
    (if rh_checksum h \<noteq> record_crc tgt h payload then ret (False, b, s)
     else if rh_sequence h \<le> s then replay_records tgt rest b s
     else bind_run (replay_record h payload b) (\<lambda>b1. replay_records tgt rest b1 (rh_sequence h)))"
proof -
  have "hbs @ payload @ rest \<noteq> []"
    using assms(1) by auto
  moreover have "read_exact 24 (hbs @ payload @ rest) = Some (hbs, payload @ rest)"
    and "read_exact (unat (rh_payload_length h)) (payload @ rest) = Some (payload, rest)"
    using assms(1) by (simp_all add: read_exact_def flip: assms(3))
  ultimately show ?thesis
    by (subst replay_records.simps) (simp only: assms(2) Let_def if_False option.case prod.case)
qed

lemma replay_entry:
  assumes "entry_ok tgt e" and "s < entry_seq e"
  shows "replay_records tgt (entry_bytes e @ rest) b s =
    bind_run (replay_record (le_header e) (entry_payload e) b) (\<lambda>b1. replay_records tgt rest b1 (entry_seq e))"
proof -
  have "length (entry_payload e) = unat (rh_payload_length (le_header e))" "\<not> entry_seq e \<le> s"
    using assms by (simp_all add: entry_ok_def entry_payload_def not_le)
  then show ?thesis
    using assms(1) unfolding entry_seq_def by (simp add: entry_bytes_def replay_step entry_ok_def)
qed

lemma replay_entries:
  assumes "\<forall>e \<in> set es. entry_ok tgt e" and "sorted_wrt (<) (s # map entry_seq es)"
  shows "replay_records tgt (concat (map entry_bytes es) @ rest) b s =
    bind_run (replay_all es b) (\<lambda>b1. replay_records tgt rest b1 (last_seq s es))"
  using assms
proof (induction es arbitrary: b s)
  case (Cons e es)
  have "(\<lambda>b1. replay_records tgt (concat (map entry_bytes es) @ rest) b1 (entry_seq e)) =
      (\<lambda>b1. bind_run (replay_all es b1) (\<lambda>b2. replay_records tgt rest b2 (last_seq s (e # es))))"
    unfolding last_seq_simps using Cons.prems by (intro ext Cons.IH) auto
  moreover have "entry_ok tgt e" "s < entry_seq e"
    using Cons.prems by simp_all
  ultimately show ?case
    by (simp only: list.map concat.simps append_assoc replay_entry replay_all.simps bind_run_assoc)
qed simp

text \<open>A torn record at the end is ignored.\<close>

lemma replay_torn:
  assumes "entry_ok tgt e" and "n < length (entry_bytes e)"
  shows "replay_records tgt (take n (entry_bytes e)) b s = ret (True, b, s)"
proof (cases "n < 24")
  case True
  then show ?thesis
    using assms(2) by (subst replay_records.simps) (simp add: read_exact_def)
next
  case False
  let ?h = "le_header e"
  have "take n (entry_bytes e) = record_header_bytes ?h @ take (n - 24) (entry_payload e)"
    using False by (simp add: entry_bytes_def)
  moreover have "length (take (n - 24) (entry_payload e)) < unat (rh_payload_length ?h)"
    using assms False by (simp add: entry_ok_def entry_payload_def entry_bytes_length)
  ultimately show ?thesis
    by (subst replay_records.simps) (simp add: read_exact_def)
qed

text \<open>Reading a prefix of a stream of records applies the records that are complete in it.\<close>

fun complete_entries :: "nat \<Rightarrow> log_entry list \<Rightarrow> log_entry list" where
  "complete_entries n [] = []"
| "complete_entries n (e # es) =
     (if length (entry_bytes e) \<le> n then e # complete_entries (n - length (entry_bytes e)) es else [])"

lemma complete_entries_all:
  "length (concat (map entry_bytes es)) \<le> n \<Longrightarrow> complete_entries n es = es"
  by (induction es arbitrary: n) auto

lemma replay_nil: "replay_records tgt [] b s = ret (True, b, s)"
  by (subst replay_records.simps) simp

lemma replay_prefix:
  assumes "\<forall>e \<in> set es. entry_ok tgt e" and "sorted_wrt (<) (s # map entry_seq es)"
  shows "replay_records tgt (take n (concat (map entry_bytes es))) b s =
    bind_run (replay_all (complete_entries n es) b) (\<lambda>b1. ret (True, b1, last_seq s (complete_entries n es)))"
  using assms
proof (induction es arbitrary: b s n)
  case (Cons e es)
  let ?n = "n - length (entry_bytes e)"
  have ok: "entry_ok tgt e" "s < entry_seq e"
    using Cons.prems by simp_all
  show ?case
  proof (cases "length (entry_bytes e) \<le> n")
    case True
    then have "take n (concat (map entry_bytes (e # es))) = entry_bytes e @ take ?n (concat (map entry_bytes es))"
      by simp
    moreover have "(\<lambda>b1. replay_records tgt (take ?n (concat (map entry_bytes es))) b1 (entry_seq e)) =
      (\<lambda>b1. bind_run (replay_all (complete_entries ?n es) b1)
        (\<lambda>b2. ret (True, b2, last_seq (entry_seq e) (complete_entries ?n es))))"
      using Cons.prems by (intro ext Cons.IH) auto
    ultimately show ?thesis
      using ok True by (simp only: replay_entry replay_all.simps bind_run_assoc complete_entries.simps if_True last_seq_simps)
  next
    case False
    then show ?thesis
      using ok replay_torn [of tgt e n b s] by simp
  qed
qed (simp add: replay_nil)

text \<open>A record with one wrong byte outside the length field is refused, and nothing after it is read.\<close>

lemma put_get_at:
  "off + 2 \<le> length bs \<Longrightarrow> put16 (get16 bs off) = take 2 (drop off bs)"
  "off + 4 \<le> length bs \<Longrightarrow> put32 (get32 bs off) = take 4 (drop off bs)"
  "off + 8 \<le> length bs \<Longrightarrow> put64 (get64 bs off) = take 8 (drop off bs)"
  using put_get_bytes [of "take 2 (drop off bs)"] of_le_bytes_bound [of "take 2 (drop off bs)"]
    put_get_bytes [of "take 4 (drop off bs)"] of_le_bytes_bound [of "take 4 (drop off bs)"]
    put_get_bytes [of "take 8 (drop off bs)"] of_le_bytes_bound [of "take 8 (drop off bs)"]
  by (simp_all add: put16_def put32_def put64_def get16_def get32_def get64_def unat_of_nat)

lemma record_prefix_read:
  assumes "length pbs = 20"
  shows "record_prefix_bytes (read_record_header (pbs @ cbs)) = pbs"
proof -
  have "put64 (get64 (pbs @ cbs) 0) @ put64 (get64 (pbs @ cbs) 8) @ put16 (get16 (pbs @ cbs) 16) @
      put16 (get16 (pbs @ cbs) 18) = take 8 pbs @ take 8 (drop 8 pbs) @ take 2 (drop 16 pbs) @ take 2 (drop 18 pbs)"
    using assms by (simp add: get_prefix put_get_at)
  also have "\<dots> = take 20 pbs"
    using take_add [of 8 8 pbs] take_add [of 16 2 pbs] take_add [of 18 2 pbs] by simp
  finally show ?thesis
    using assms by (simp add: record_prefix_bytes_def read_record_header_def)
qed

lemma replay_mismatch:
  assumes "target_ok tgt" and "length pbs = 20" and "length cbs = 4" and "length payload = unat (get16 pbs 18)"
    and "cbs \<noteq> put32 (crc32c tgt (pbs @ payload) 0xFFFFFFFF)"
  shows "replay_records tgt (pbs @ cbs @ payload @ rest) b s = ret (False, b, s)"
proof -
  define h where "h = read_record_header (pbs @ cbs)"
  have "put32 (rh_checksum h) = cbs"
    using assms(2,3) put_get_at(2) [of 20 "pbs @ cbs"] by (simp add: h_def read_record_header_def)
  moreover have "record_crc tgt h payload = crc32c tgt (pbs @ payload) 0xFFFFFFFF"
    using assms(1,2) by (simp add: record_crc_flat h_def record_prefix_read)
  ultimately have "rh_checksum h \<noteq> record_crc tgt h payload"
    using assms(5) by auto
  moreover have "rh_payload_length h = get16 pbs 18"
    using assms(2) by (simp add: h_def read_record_header_def get_prefix)
  ultimately show ?thesis
    using replay_step [of "pbs @ cbs" h payload tgt rest b s] assms(2-4) by (simp add: h_def)
qed

lemma replay_wrong_byte:
  assumes tgt: "target_ok tgt" and e: "entry_ok tgt e" and i: "i < length (entry_bytes e)" "i \<noteq> 18" "i \<noteq> 19"
    and v: "v \<noteq> entry_bytes e ! i"
  shows "replay_records tgt ((entry_bytes e)[i := v] @ rest) b s = ret (False, b, s)"
proof -
  define pbs cbs payload where "pbs = record_prefix_bytes (le_header e)" and "cbs = put32 (rh_checksum (le_header e))"
    and "payload = entry_payload e"
  have bytes: "entry_bytes e = pbs @ cbs @ payload"
    by (simp add: entry_bytes_def record_header_bytes_def pbs_def cbs_def payload_def)
  have len: "length pbs = 20" "length cbs = 4" "length payload = unat (get16 pbs 18)"
    using e by (simp_all add: pbs_def cbs_def payload_def entry_ok_def entry_payload_def record_prefix_bytes_def wire_simps)
  have crc: "cbs = put32 (crc32c tgt (pbs @ payload) 0xFFFFFFFF)"
    using e tgt by (simp add: cbs_def entry_ok_def record_crc_flat pbs_def payload_def)
  have put32_inj: "put32 x = put32 y \<longleftrightarrow> x = y" for x y
    by (metis get_last(3))
  consider "i < 18" | "20 \<le> i" "i < 24" | "24 \<le> i" "i - 24 < length payload"
    using i by (fastforce simp: bytes len)
  then show ?thesis
  proof cases
    case 1
    have "get16 (pbs[i := v]) 18 = get16 pbs 18"
      using 1 by (simp add: get16_def)
    moreover have "cbs \<noteq> put32 (crc32c tgt (pbs[i := v] @ payload) 0xFFFFFFFF)"
      using crc32c_detects [OF tgt, of i "pbs @ payload" v] 1 v len
      by (simp add: crc put32_inj list_update_append nth_append bytes) metis
    ultimately show ?thesis
      using replay_mismatch [OF tgt, of "pbs[i := v]" cbs payload rest b s] 1 len
      by (simp add: bytes list_update_append)
  next
    case 2
    then have small: "i - 20 < 4"
      by simp
    then have "cbs[i - 20 := v] \<noteq> cbs"
      using v len 2 by (simp add: bytes nth_append list_update_same_conv)
    then show ?thesis
      using replay_mismatch [OF tgt, of pbs "cbs[i - 20 := v]" payload rest b s] 2 small len crc
      by (simp add: bytes list_update_append)
  next
    case 3
    define k where "k = i - 24"
    have k: "i = 24 + k" "k < length payload"
      using 3 by (simp_all add: k_def)
    have "v \<noteq> payload ! k"
      using v len by (simp add: bytes nth_append k)
    then have "cbs \<noteq> put32 (crc32c tgt (pbs @ payload[k := v]) 0xFFFFFFFF)"
      using crc32c_detects [OF tgt, of "20 + k" "pbs @ payload" v] k(2) len
      by (simp add: crc put32_inj list_update_append nth_append) metis
    then show ?thesis
      using replay_mismatch [OF tgt, of pbs cbs "payload[k := v]" rest b s] len
      by (simp add: bytes list_update_append k)
  qed
qed

section \<open>The writer\<close>

text \<open>The files as they are once everything written has been flushed.\<close>

definition written :: "disk_journal \<Rightarrow> file_system \<Rightarrow> u64 \<Rightarrow> u8 list option" where
  "written dj fs k = (if dj_is_open dj \<and> k = dj_file_index dj
     then Some ((case fs (JournalFile k) of Some c \<Rightarrow> c | None \<Rightarrow> []) @ dj_unflushed dj) else fs (JournalFile k))"

definition journal_file :: "(u64 \<Rightarrow> u64) \<Rightarrow> u64 \<Rightarrow> log_entry list \<Rightarrow> u8 list" where
  "journal_file created k es = wal_header_bytes \<lparr>wh_magic = WAL_MAGIC, wh_version = WAL_VERSION, wh_flags = 0,
     wh_start_sequence = entry_seq (hd es), wh_timestamp = created k, wh_padding = replicate 8 0\<rparr> @
     concat (map entry_bytes es)"

text \<open>The journals that hold the given groups of entries, numbered from one.\<close>

definition journal_files :: "(u64 \<Rightarrow> u64) \<Rightarrow> log_entry list list \<Rightarrow> u64 \<Rightarrow> u8 list option" where
  "journal_files created ess k =
     (if 1 \<le> unat k \<and> unat k \<le> length ess then Some (journal_file created k (ess ! (unat k - 1))) else None)"

definition writer_inv :: "(u64 \<Rightarrow> u64) \<Rightarrow> log_entry list list \<Rightarrow> disk_journal \<Rightarrow> file_system \<Rightarrow> bool" where
  "writer_inv created ess dj fs \<longleftrightarrow> written dj fs = journal_files created ess \<and> dj_file_index dj = of_nat (length ess) \<and>
     (dj_is_open dj \<longleftrightarrow> ess \<noteq> []) \<and> (\<not> dj_is_open dj \<longrightarrow> dj_unflushed dj = []) \<and> [] \<notin> set ess \<and> length ess < 2 ^ 64"

lemma file_flush_written:
  assumes "file_flush dj fs = (dj1, fs1)" and "dj_is_open dj"
  shows "written dj1 fs1 = written dj fs \<and> written dj1 fs1 = (\<lambda>k. fs1 (JournalFile k))"
proof -
  have dj1: "dj1 = dj\<lparr>dj_unflushed := []\<rparr>" and
    fs1: "fs1 (JournalFile k) = (if k = dj_file_index dj
      then Some ((case fs (JournalFile k) of Some c \<Rightarrow> c | None \<Rightarrow> []) @ dj_unflushed dj) else fs (JournalFile k))" for k
    using assms(1) by (auto simp: file_flush_def Let_def)
  show ?thesis
    using assms(2) by (simp add: written_def fs1 dj1 fun_eq_iff)
qed

lemma file_flush_fields:
  "file_flush dj fs = (dj1, fs1) \<Longrightarrow> dj1 = dj\<lparr>dj_unflushed := []\<rparr>"
  by (simp add: file_flush_def Let_def)

lemma file_flush_inv:
  assumes "writer_inv created ess dj fs" and "dj_is_open dj" and "file_flush dj fs = (dj1, fs1)"
  shows "writer_inv created ess dj1 fs1"
proof -
  have "written dj1 fs1 = journal_files created ess"
    using file_flush_written [OF assms(3,2)] assms(1) by (simp only: writer_inv_def)
  then show ?thesis
    using file_flush_fields [OF assms(3)] assms(1) by (simp add: writer_inv_def)
qed

lemma journal_flush_inv:
  "writer_inv created ess dj fs \<Longrightarrow> writer_inv created ess (fst (journal_flush dj fs)) (snd (journal_flush dj fs))"
  using file_flush_inv [of created ess dj fs] by (cases "file_flush dj fs") (auto simp: journal_flush_def)

lemma unat_u64: "n < 2 ^ 64 \<Longrightarrow> unat (of_nat n :: u64) = n"
  by (simp add: unat_of_nat)

lemma journal_files_snoc:
  assumes "length ess + 1 < 2 ^ 64"
  shows "journal_files created (ess @ [es]) =
    (journal_files created ess)(of_nat (length ess + 1) \<mapsto> journal_file created (of_nat (length ess + 1)) es)"
proof
  fix k :: u64
  have n: "unat (of_nat (length ess + 1) :: u64) = length ess + 1"
    using assms by (rule unat_u64)
  show "journal_files created (ess @ [es]) k =
    ((journal_files created ess)(of_nat (length ess + 1) \<mapsto> journal_file created (of_nat (length ess + 1)) es)) k"
  proof (cases "k = of_nat (length ess + 1)")
    case True
    then show ?thesis
      using n by (simp add: journal_files_def del: of_nat_Suc of_nat_add)
  next
    case False
    then have "unat k \<noteq> length ess + 1"
      using n by (simp add: word_unat_eq_iff del: of_nat_Suc of_nat_add)
    then show ?thesis
      using False by (auto simp: journal_files_def nth_append simp del: of_nat_Suc of_nat_add)
  qed
qed

lemma journal_files_append:
  assumes "length ess + 1 < 2 ^ 64"
  shows "journal_files created (ess @ [es @ [e]]) =
    (journal_files created (ess @ [es]))(of_nat (length ess + 1) \<mapsto>
      journal_file created (of_nat (length ess + 1)) (es @ [e]))"
  using assms by (simp add: journal_files_snoc del: of_nat_Suc of_nat_add)

lemma rotate_file_written:
  assumes "writer_inv created ess dj fs" and "length ess + 1 < 2 ^ 64"
    and "rotate_file created (entry_seq e) dj fs = (dj1, fs1)"
  shows "written dj1 fs1 = (journal_files created ess)(of_nat (length ess + 1) \<mapsto>
      wal_header_bytes \<lparr>wh_magic = WAL_MAGIC, wh_version = WAL_VERSION, wh_flags = 0, wh_start_sequence = entry_seq e,
        wh_timestamp = created (of_nat (length ess + 1)), wh_padding = replicate 8 0\<rparr>) \<and>
    dj_file_index dj1 = of_nat (length ess + 1) \<and> dj_is_open dj1 \<and> dj_policy dj1 = dj_policy dj"
proof -
  obtain dj0 fs0 where flush: "(if dj_is_open dj then file_flush dj fs else (dj, fs)) = (dj0, fs0)"
    by force
  have w: "written dj fs = journal_files created ess" and idx: "dj_file_index dj = of_nat (length ess)"
    using assms(1) by (simp_all add: writer_inv_def)
  have "written dj0 fs0 = written dj fs \<and> written dj0 fs0 = (\<lambda>k. fs0 (JournalFile k))"
    using flush file_flush_written [of dj fs dj0 fs0] by (auto simp: written_def split: if_splits)
  then have fs0: "fs0 (JournalFile k) = journal_files created ess k" for k
    using w by metis
  have dj0: "dj_unflushed dj0 = []" "dj_policy dj0 = dj_policy dj" "dj_file_index dj0 = of_nat (length ess)"
    using flush assms(1) by (auto simp: writer_inv_def file_flush_def Let_def split: if_splits)
  let ?k = "of_nat (length ess + 1) :: u64"
  have fs1: "fs1 = fs0(JournalFile ?k \<mapsto> [])" and dj1: "dj_file_index dj1 = ?k" "dj_is_open dj1" "dj_policy dj1 = dj_policy dj"
    "dj_unflushed dj1 = wal_header_bytes \<lparr>wh_magic = WAL_MAGIC, wh_version = WAL_VERSION, wh_flags = 0,
      wh_start_sequence = entry_seq e, wh_timestamp = created ?k, wh_padding = replicate 8 0\<rparr>"
    using assms(3) flush dj0 by (auto simp: rotate_file_def file_write_def Let_def add.commute)
  show ?thesis
    unfolding fs1 using dj1 by (simp add: written_def fs0 fun_eq_iff del: of_nat_add of_nat_Suc)
qed

text \<open>Writing an entry puts it at the end of the last journal or into a new one.\<close>

lemma file_write_written:
  assumes "dj_is_open dj"
  shows "written (file_write bs dj) fs =
    (written dj fs)(dj_file_index dj \<mapsto> the (written dj fs (dj_file_index dj)) @ bs)"
  using assms by (auto simp: written_def file_write_def fun_eq_iff)

lemma written_current_bytes [simp]: "written (dj\<lparr>dj_current_bytes := n\<rparr>) fs = written dj fs"
  by (simp add: written_def fun_eq_iff)

lemma file_write_fields [simp]:
  "dj_is_open (file_write bs dj) = dj_is_open dj" "dj_file_index (file_write bs dj) = dj_file_index dj"
  "dj_policy (file_write bs dj) = dj_policy dj"
  by (simp_all add: file_write_def)

lemma write_entry_written:
  assumes "write_entry created e dj fs = (dj1, fs1)"
    and "(if \<not> dj_is_open dj \<or> dj_current_bytes dj \<ge> dj_max_file_size dj
          then rotate_file created (entry_seq e) dj fs else (dj, fs)) = (dj0, fs0)"
    and "dj_is_open dj0"
  shows "written dj1 fs1 = (written dj0 fs0)(dj_file_index dj0 \<mapsto>
      the (written dj0 fs0 (dj_file_index dj0)) @ entry_bytes e) \<and>
    dj_file_index dj1 = dj_file_index dj0 \<and> dj_is_open dj1 \<and> dj_policy dj1 = dj_policy dj0"
proof -
  have "write_entry created e dj fs = (let n = unat (rh_payload_length (le_header e));
          dj2 = file_write (take n (le_payload e)) (file_write (record_header_bytes (le_header e)) dj0)
      in (dj2\<lparr>dj_current_bytes := dj_current_bytes dj2 + 24 + of_nat n\<rparr>, fs0))"
    unfolding write_entry_def by (simp only: assms(2) [unfolded entry_seq_def] Let_def prod.case)
  then show ?thesis
    using assms(1,3) by (auto simp: Let_def file_write_written entry_bytes_def entry_payload_def)
qed

lemma journal_file_snoc: "es \<noteq> [] \<Longrightarrow> journal_file created k (es @ [e]) = journal_file created k es @ entry_bytes e"
  by (simp add: journal_file_def)

lemma writer_entry:
  assumes inv: "writer_inv created ess dj fs" and room: "length ess + 1 < 2 ^ 64"
    and run: "write_entry created e dj fs = (dj1, fs1)"
  shows "\<exists>ess1. writer_inv created ess1 dj1 fs1 \<and> concat ess1 = concat ess @ [e] \<and> length ess1 \<le> length ess + 1 \<and>
    dj_policy dj1 = dj_policy dj"
proof (cases "\<not> dj_is_open dj \<or> dj_current_bytes dj \<ge> dj_max_file_size dj")
  case True
  obtain dj0 fs0 where rot: "rotate_file created (entry_seq e) dj fs = (dj0, fs0)"
    by force
  let ?k = "of_nat (length ess + 1) :: u64"
  note w0 = rotate_file_written [OF inv room rot]
  have w1: "written dj1 fs1 = (written dj0 fs0)(?k \<mapsto> the (written dj0 fs0 ?k) @ entry_bytes e) \<and>
      dj_file_index dj1 = ?k \<and> dj_is_open dj1 \<and> dj_policy dj1 = dj_policy dj"
    using write_entry_written [OF run, of dj0 fs0] True rot w0 by auto
  have "written dj1 fs1 = (journal_files created ess)(?k \<mapsto> journal_file created ?k [e])"
    using w0 w1 by (simp add: journal_file_def del: of_nat_add of_nat_Suc)
  then have "writer_inv created (ess @ [[e]]) dj1 fs1"
    using w1 inv room by (simp add: writer_inv_def journal_files_snoc del: of_nat_add of_nat_Suc)
  then show ?thesis
    using w1 by (intro exI [of _ "ess @ [[e]]"]) simp
next
  case False
  then have "ess \<noteq> []"
    using inv by (simp add: writer_inv_def)
  then obtain ess0 es where ess: "ess = ess0 @ [es]"
    by (cases ess rule: rev_cases) auto
  have es: "es \<noteq> []" and idx: "dj_file_index dj = of_nat (length ess0 + 1)" and w: "written dj fs = journal_files created ess"
    using inv by (auto simp: writer_inv_def ess)
  let ?k = "of_nat (length ess0 + 1) :: u64"
  have room0: "length ess0 + 1 < 2 ^ 64"
    using room by (simp add: ess)
  have w1: "written dj1 fs1 = (written dj fs)(?k \<mapsto> the (written dj fs ?k) @ entry_bytes e) \<and>
      dj_file_index dj1 = ?k \<and> dj_is_open dj1 \<and> dj_policy dj1 = dj_policy dj"
    using write_entry_written [OF run, of dj fs] False idx by auto
  then have "written dj1 fs1 = journal_files created (ess0 @ [es @ [e]])"
    using es room0 by (simp add: w ess journal_files_snoc journal_file_snoc del: of_nat_add of_nat_Suc)
  then have "writer_inv created (ess0 @ [es @ [e]]) dj1 fs1"
    using w1 inv by (simp add: writer_inv_def ess)
  then show ?thesis
    using w1 ess by (intro exI [of _ "ess0 @ [es @ [e]]"]) simp
qed

section \<open>The loop of the writer\<close>

text \<open>The files that are not journals stay as they are.\<close>

definition keeps_others :: "file_system \<Rightarrow> file_system \<Rightarrow> bool" where
  "keeps_others fs fs1 \<longleftrightarrow> (\<forall>n. (\<forall>k. n \<noteq> JournalFile k) \<longrightarrow> fs1 n = fs n)"

lemma keeps_others_refl [simp]: "keeps_others fs fs"
  by (simp add: keeps_others_def)

lemma keeps_others_upd [simp]: "keeps_others fs (fs1(JournalFile k := c)) = keeps_others fs fs1"
  by (auto simp: keeps_others_def)

lemma keeps_others_trans: "keeps_others fs fs1 \<Longrightarrow> keeps_others fs1 fs2 \<Longrightarrow> keeps_others fs fs2"
  by (simp add: keeps_others_def)

lemma file_flush_keeps [simp]: "keeps_others fs0 (snd (file_flush dj fs)) = keeps_others fs0 fs"
  by (simp add: file_flush_def Let_def)

lemma journal_flush_keeps [simp]: "keeps_others fs0 (snd (journal_flush dj fs)) = keeps_others fs0 fs"
  by (simp add: journal_flush_def)

lemma write_entry_keeps [simp]: "keeps_others fs0 (snd (write_entry created e dj fs)) = keeps_others fs0 fs"
  by (auto simp: write_entry_def rotate_file_def Let_def split: prod.splits)
     (metis file_flush_keeps snd_conv)+

text \<open>A run of the writer has logged the entries: they are in the files or in the buffer of the last one.\<close>

definition logged :: "(u64 \<Rightarrow> u64) \<Rightarrow> file_system \<Rightarrow> log_entry list \<Rightarrow> journal_run \<Rightarrow> bool" where
  "logged created fs0 es r \<longleftrightarrow> (\<exists>ess. writer_inv created ess (jr_journal r) (jr_files r) \<and> concat ess = es) \<and>
     keeps_others fs0 (jr_files r)"

lemma groups_bound: "[] \<notin> set ess \<Longrightarrow> length ess \<le> length (concat ess)"
proof (induction ess)
  case (Cons es ess)
  then show ?case
    by (cases es) auto
qed simp

lemma flush_run_simps [simp]: "jr_queue (flush_run r) = jr_queue r"
  by (simp add: flush_run_def split: prod.splits)

lemma flush_run_logged:
  assumes "logged created fs0 es r"
  shows "logged created fs0 es (flush_run r)"
proof -
  obtain dj fs where fl: "journal_flush (jr_journal r) (jr_files r) = (dj, fs)"
    by force
  have "writer_inv created ess dj fs" if "writer_inv created ess (jr_journal r) (jr_files r)" for ess
    using journal_flush_inv [OF that] fl by simp
  moreover have "keeps_others fs0 fs"
    using assms journal_flush_keeps [of fs0 "jr_journal r" "jr_files r"] fl by (simp add: logged_def)
  ultimately show ?thesis
    using assms fl by (auto simp: logged_def flush_run_def)
qed

text \<open>The indices of the queue have not wrapped around.\<close>

definition unwrapped :: "'a spsc_queue \<Rightarrow> bool" where
  "unwrapped q \<longleftrightarrow> sq_read_idx q \<le> sq_write_idx q"

lemma unwrapped_empty: "unwrapped q \<Longrightarrow> spsc_empty q \<longleftrightarrow> spsc_elems cap q = []"
  by (simp add: unwrapped_def spsc_empty_def spsc_size_def index_size_def Let_def spsc_elems_def)
     (simp add: unat_eq_0 flip: length_0_conv)

lemma unwrapped_pop:
  assumes "unwrapped q" and "spsc_pop cap q = (Some v, q1)"
  shows "unwrapped q1"
proof -
  have "sq_read_idx q < sq_write_idx q" "q1 = q\<lparr>sq_read_idx := sq_read_idx q + 1\<rparr>"
    using assms by (auto simp: unwrapped_def spsc_pop_def Let_def order_less_le split: if_splits)
  then show ?thesis
    by (simp add: unwrapped_def inc_le)
qed

lemma iteration_logs:
  assumes inv: "spsc_inv 65536 (jr_queue r)" "unwrapped (jr_queue r)" and elems: "spsc_elems 65536 (jr_queue r) = e # es"
    and logged: "logged created fs0 done r" and room: "length done + 1 < 2 ^ 64"
  shows "\<exists>q. spsc_inv 65536 q \<and> unwrapped q \<and> spsc_elems 65536 q = es \<and> jr_queue (journal_iteration created now r) = q \<and>
    logged created fs0 (done @ [e]) (journal_iteration created now r)"
proof -
  obtain q where pop: "spsc_pop 65536 (jr_queue r) = (Some e, q)" "spsc_inv 65536 q" "spsc_elems 65536 q = es"
    using spsc.pop_Cons [OF inv(1) elems] by (auto simp: ret_def)
  obtain dj fs where wr: "write_entry created e (jr_journal r) (jr_files r) = (dj, fs)"
    by force
  obtain ess where ess: "writer_inv created ess (jr_journal r) (jr_files r)" "concat ess = done"
    using logged by (auto simp: logged_def)
  then have "length ess + 1 < 2 ^ 64"
    using room groups_bound [of ess] by (simp add: writer_inv_def)
  then have "\<exists>ess1. writer_inv created ess1 dj fs \<and> concat ess1 = done @ [e]"
    using writer_entry [OF ess(1) _ wr] ess(2) by auto
  moreover have "keeps_others fs0 fs"
    using logged write_entry_keeps [of fs0 created e "jr_journal r" "jr_files r"] by (simp add: logged_def wr)
  ultimately have "logged created fs0 (done @ [e])
      (r\<lparr>jr_queue := q, jr_journal := dj, jr_files := fs, jr_batch_count := n\<rparr>)" for n
    by (auto simp: logged_def)
  note l = this flush_run_logged [OF this]
  have "jr_queue (journal_iteration created now r) = q \<and> logged created fs0 (done @ [e]) (journal_iteration created now r)"
    using l by (simp add: journal_iteration_def pop wr Let_def logged_def)
  then show ?thesis
    using pop unwrapped_pop [OF inv(2) pop(1)] by blast
qed

lemma finish_logs:
  assumes "spsc_inv 65536 (jr_queue r)" "unwrapped (jr_queue r)" and "spsc_elems 65536 (jr_queue r) = es"
    and "logged created fs0 done r" and "length done + length es < 2 ^ 64"
  shows "\<exists>r1. journal_finish created r = ret r1 \<and> logged created fs0 (done @ es) r1"
  using assms
proof (induction es arbitrary: r "done")
  case Nil
  then show ?case
    using flush_run_logged by (subst journal_finish.simps) (simp add: unwrapped_empty [of _ 65536])
next
  case (Cons e es)
  have "\<not> spsc_empty (jr_queue r)"
    using Cons.prems(2,3) by (simp add: unwrapped_empty [of _ 65536])
  then have "journal_finish created r = journal_finish created (journal_iteration created 0 r)"
    by (subst journal_finish.simps) simp
  moreover obtain q where "spsc_inv 65536 q" "unwrapped q" "spsc_elems 65536 q = es"
    "jr_queue (journal_iteration created 0 r) = q" "logged created fs0 (done @ [e]) (journal_iteration created 0 r)"
    using iteration_logs [OF Cons.prems(1-4), of 0] Cons.prems(5) by auto
  ultimately show ?case
    using Cons.IH [of "journal_iteration created 0 r" "done @ [e]"] Cons.prems(5) by simp
qed

lemma stop_logs:
  assumes "spsc_inv 65536 (jr_queue r)" "unwrapped (jr_queue r)" and "logged created fs0 [] r"
    and es: "spsc_elems 65536 (jr_queue r) = es"
  shows "\<exists>r1 ess. journal_stop created r = ret r1 \<and> concat ess = es \<and> [] \<notin> set ess \<and>
    (\<forall>k. jr_files r1 (JournalFile k) = journal_files created ess k) \<and> keeps_others fs0 (jr_files r1)"
proof -
  have "length es \<le> 65536"
    using spsc.elems_bound [OF assms(1)] es by simp
  then obtain r1 ess where r1: "journal_finish created r = ret r1" "writer_inv created ess (jr_journal r1) (jr_files r1)"
      "concat ess = es" "keeps_others fs0 (jr_files r1)" "[] \<notin> set ess"
    using finish_logs [OF assms(1,2) es assms(3)] by (auto simp: logged_def writer_inv_def)
  obtain dj fs where fl: "file_flush (jr_journal r1) (jr_files r1) = (dj, fs)"
    by force
  show ?thesis
  proof (cases "dj_is_open (jr_journal r1)")
    case True
    have "\<forall>k. fs (JournalFile k) = journal_files created ess k"
      using file_flush_written [OF fl True] r1(2) by (simp add: writer_inv_def) metis
    then show ?thesis
      using r1 fl True file_flush_keeps [of fs0 "jr_journal r1" "jr_files r1"]
      by (intro exI [of _ "r1\<lparr>jr_journal := dj\<lparr>dj_is_open := False\<rparr>, jr_files := fs\<rparr>"] exI [of _ ess])
         (simp add: journal_stop_def)
  next
    case False
    then have "\<forall>k. jr_files r1 (JournalFile k) = journal_files created ess k"
      using r1(2) by (auto simp: writer_inv_def written_def fun_eq_iff)
    then show ?thesis
      using r1 False by (auto simp: journal_stop_def)
  qed
qed

unbundle bit_operations_syntax

section \<open>Replaying the journals of a run\<close>

lemma wal_header_read:
  "length (wh_padding h) = 8 \<Longrightarrow> read_exact 32 (wal_header_bytes h @ bs) = Some (wal_header_bytes h, bs)"
  "length (wh_padding h) = 8 \<Longrightarrow> read_wal_header (wal_header_bytes h) = h"
  by (simp_all add: read_exact_def wal_header_bytes_def read_wal_header_def wire_simps)

lemma replay_journal_file:
  "replay_journal tgt (Some (journal_file created k es)) b s =
     replay_records tgt (concat (map entry_bytes es)) b s"
  by (simp add: replay_journal_def journal_file_def wal_header_read Let_def)

lemma sorted_seq_append:
  "sorted_wrt (<) (s # map entry_seq (es @ es1)) \<Longrightarrow>
     sorted_wrt (<) (s # map entry_seq es) \<and> sorted_wrt (<) (last_seq s es # map entry_seq es1)"
  by (auto simp: sorted_wrt_append last_seq_def)

lemma replay_all_append: "replay_all (es @ es1) b = bind_run (replay_all es b) (replay_all es1)"
proof (induction es arbitrary: b)
  case (Cons e es)
  then have "replay_all (es @ es1) = (\<lambda>b. bind_run (replay_all es b) (replay_all es1))"
    by auto
  then show ?case
    by (simp only: append_Cons replay_all.simps bind_run_assoc)
qed simp

lemma replay_journals_files:
  assumes fs: "\<forall>k. fs (JournalFile k) = journal_files created ess k" and room: "length ess + 1 < 2 ^ 64"
    and "\<forall>e \<in> set (concat (drop n ess)). entry_ok tgt e" and "sorted_wrt (<) (s # map entry_seq (concat (drop n ess)))"
    and "n \<le> length ess"
  shows "replay_journals tgt fs (of_nat (n + 1)) b s =
    bind_run (replay_all (concat (drop n ess)) b) (\<lambda>b1. ret (True, b1))"
  using assms(3-5)
proof (induction "length ess - n" arbitrary: n b s)
  case 0
  have "unat (of_nat (n + 1) :: u64) = n + 1"
    using 0 room by (intro unat_u64) simp
  then have "fs (JournalFile (of_nat (n + 1))) = None"
    using 0 by (simp only: fs journal_files_def) simp
  then show ?case
    using 0 by (subst replay_journals.simps) (simp del: of_nat_add of_nat_Suc)
next
  case (Suc d)
  let ?k = "of_nat (n + 1) :: u64" and ?es = "ess ! n" and ?rest = "concat (drop (Suc n) ess)"
  have n: "n < length ess"
    using Suc(2) by simp
  then have split: "drop n ess = ?es # drop (Suc n) ess"
    by (rule Cons_nth_drop_Suc [symmetric])
  have "unat ?k = n + 1"
    using n room by (intro unat_u64) simp
  then have content: "fs (JournalFile ?k) = Some (journal_file created ?k ?es)"
    using n by (simp only: fs journal_files_def) simp
  have ok: "\<forall>e \<in> set ?es. entry_ok tgt e" "\<forall>e \<in> set ?rest. entry_ok tgt e"
    using Suc.prems(1) unfolding split concat.simps set_append ball_Un by blast+
  have seq: "sorted_wrt (<) (s # map entry_seq ?es) \<and> sorted_wrt (<) (last_seq s ?es # map entry_seq ?rest)"
    using Suc.prems(2) by (intro sorted_seq_append) (simp only: split concat.simps)
  have "replay_records tgt (concat (map entry_bytes ?es) @ []) b s =
      bind_run (replay_all ?es b) (\<lambda>b1. replay_records tgt [] b1 (last_seq s ?es))"
    using ok(1) seq by (intro replay_entries) simp_all
  then have one: "replay_journal tgt (fs (JournalFile ?k)) b s =
      bind_run (replay_all ?es b) (\<lambda>b1. ret (True, b1, last_seq s ?es))"
    by (simp only: content replay_journal_file append_Nil2 replay_nil)
  have k: "?k + 1 = of_nat (Suc n + 1)"
    by simp
  have "(\<lambda>b1. replay_journals tgt fs (of_nat (Suc n + 1)) b1 (last_seq s ?es)) =
      (\<lambda>b1. bind_run (replay_all ?rest b1) (\<lambda>b2. ret (True, b2)))"
    using Suc(1) [of "Suc n" "last_seq s ?es"] Suc(2) n ok(2) seq by (intro ext) (simp del: of_nat_add of_nat_Suc)
  moreover have "fs (JournalFile ?k) \<noteq> None"
    by (simp only: content option.distinct not_False_eq_True)
  ultimately show ?case
    by (subst replay_journals.simps)
      (simp only: if_False one bind_run_assoc bind_run_ret prod.case if_True k split concat.simps replay_all_append)
qed

section \<open>Commands in the journal\<close>

text \<open>The entry the engine thread appends for a command.\<close>

definition command_entry :: "crc_target \<Rightarrow> u8 list \<Rightarrow> order_command \<Rightarrow> log_entry" where
  "command_entry tgt stale cmd = make_entry tgt stale (cmd_sequence cmd) (cmd_timestamp cmd)
     (ucast (command_type_code (cmd_type cmd))) (order_command_bytes cmd)"

text \<open>The codes of its enumerations stand for their values.\<close>

definition command_ok :: "order_command \<Rightarrow> bool" where
  "command_ok c \<longleftrightarrow> command_type_of_code (command_type_code (cmd_type c)) = cmd_type c \<and>
     side_of_code (side_code (cmd_side c)) = cmd_side c \<and>
     order_type_of_code (order_type_code (cmd_order_type c)) = cmd_order_type c \<and> tif_of_code (tif_code (cmd_tif c)) = cmd_tif c"

lemma order_command_length [simp]: "length (order_command_bytes c) = 72"
  by (simp add: order_command_bytes_def)

lemma order_command_roundtrip: "command_ok c \<Longrightarrow> read_order_command (order_command_bytes c) = c"
  by (simp add: command_ok_def read_order_command_def order_command_bytes_def wire_simps)

definition replay_command :: "order_command \<Rightarrow> order_book \<Rightarrow> order_book run" where
  "replay_command c b =
     (case cmd_type c of
        CmdNewOrder \<Rightarrow> bind_run (book_insert (replayed_order c (cmd_timestamp c)) (cmd_sequence c) b) (\<lambda>(_, b1). ret b1)
      | CmdCancelOrder \<Rightarrow> bind_run (book_cancel (StrongId (cmd_orig_client_order_id c)) b) (\<lambda>(_, b1). ret b1)
      | _ \<Rightarrow> ret b)"

fun replay_commands :: "order_command list \<Rightarrow> order_book \<Rightarrow> order_book run" where
  "replay_commands [] b = ret b"
| "replay_commands (c # cs) b = bind_run (replay_command c b) (replay_commands cs)"

lemma ucast_u8_u16: "(ucast (ucast b :: u16) :: u8) = b" for b :: u8
  by (rule bit_eqI) (auto simp: bit_simps dest: bit_imp_le_length)

lemma replay_command_entry:
  assumes "command_ok c"
  shows "replay_record (le_header (command_entry tgt stale c)) (entry_payload (command_entry tgt stale c)) b = replay_command c b"
proof -
  have code: "(ucast (command_type_code t) :: u16) = ucast (command_type_code t') \<longleftrightarrow> command_type_code t = command_type_code t'"
    for t t'
    by (metis ucast_u8_u16)
  have "command_type_code (cmd_type c) = command_type_code t \<longleftrightarrow> cmd_type c = t" if "t = CmdNewOrder \<or> t = CmdCancelOrder" for t
    using that assms by (cases "cmd_type c") (auto simp: command_ok_def command_type_of_code_def split: if_splits)
  then show ?thesis
    using assms
    by (auto simp: replay_record_def command_entry_def make_entry_fields order_command_roundtrip replay_command_def Let_def
        code simp del: command_type_code.simps split: command_type.splits)
qed

lemma replay_commands_entries:
  "\<forall>c \<in> set cs. command_ok c \<Longrightarrow> replay_all (map (command_entry tgt stale) cs) b = replay_commands cs b"
proof (induction cs arbitrary: b)
  case (Cons c cs)
  then have "replay_all (map (command_entry tgt stale) cs) = replay_commands cs"
    by auto
  moreover have "command_ok c"
    using Cons.prems by simp
  ultimately show ?case
    by (simp only: list.map replay_all.simps replay_commands.simps replay_command_entry)
qed simp

section \<open>From the queue to the recovered book\<close>

definition new_run :: "flush_policy \<Rightarrow> u64 \<Rightarrow> log_entry spsc_queue \<Rightarrow> file_system \<Rightarrow> journal_run" where
  "new_run policy max_size queue fs = \<lparr>jr_queue = queue, jr_journal = disk_journal_new policy max_size, jr_files = fs,
     jr_batch_count = 0, jr_last_flush = 0\<rparr>"

lemma new_run_logged:
  "\<forall>k. fs (JournalFile k) = None \<Longrightarrow> logged created fs [] (new_run policy max_size queue fs)"
  by (auto simp: logged_def new_run_def writer_inv_def disk_journal_new_def written_def journal_files_def fun_eq_iff
      intro!: exI [of _ "[]"])

text \<open>C35. Nothing is lost in a run that is stopped: whatever the flush policy and the size at which journals are
  rotated, the writer thread ends when it is stopped and has put every command of its queue into
  the journals, and recovering from them applies exactly these commands, in their order.\<close>

theorem journal_recovers_commands:
  assumes "spsc_inv 65536 queue" and "unwrapped queue"
    and "spsc_elems 65536 queue = map (command_entry tgt stale) cmds" and "\<forall>c \<in> set cmds. command_ok c"
    and "sorted_wrt (<) (0 # map cmd_sequence cmds)"
    and "\<forall>k. fs (JournalFile k) = None" and "fs MetaFile = None"
  shows "\<exists>r. journal_stop created (new_run policy max_size queue fs) = ret r \<and>
    recover tgt (jr_files r) b = bind_run (replay_commands cmds b) (\<lambda>b1. ret (True, b1))"
proof -
  let ?es = "map (command_entry tgt stale) cmds"
  obtain r ess where r: "journal_stop created (new_run policy max_size queue fs) = ret r" "concat ess = ?es"
      "\<forall>k. jr_files r (JournalFile k) = journal_files created ess k" "keeps_others fs (jr_files r)" "[] \<notin> set ess"
    using stop_logs [of "new_run policy max_size queue fs" created fs, OF _ _ new_run_logged [OF assms(6)]] assms(1-3)
    by (auto simp: new_run_def)
  have ok: "\<forall>e \<in> set (concat (drop 0 ess)). entry_ok tgt e"
    by (auto simp: r(2) command_entry_def make_entry_ok)
  have "map entry_seq ?es = map cmd_sequence cmds"
    by (simp add: command_entry_def make_entry_fields)
  then have seq: "sorted_wrt (<) (0 # map entry_seq (concat (drop 0 ess)))"
    using assms(5) by (simp only: drop_0 r(2))
  have "length ess \<le> 65536"
    using groups_bound [OF r(5)] spsc.elems_bound [OF assms(1)] assms(3) r(2) by simp
  then have "replay_journals tgt (jr_files r) (of_nat (0 + 1)) b 0 =
      bind_run (replay_all (concat (drop 0 ess)) b) (\<lambda>b1. ret (True, b1))"
    by (intro replay_journals_files [OF r(3) _ ok seq]) simp_all
  moreover have "metadata_load tgt (jr_files r) = None"
    using r(4) assms(7) by (simp add: metadata_load_def keeps_others_def)
  ultimately show ?thesis
    using r(1) by (simp add: recover_def r(2) replay_commands_entries [OF assms(4)])
qed

definition sample_command :: order_command where
  "sample_command = command_default\<lparr>cmd_sequence := 5, cmd_client_order_id := 5, cmd_symbol_id := StrongId 1,
     cmd_account_id := StrongId 9, cmd_price := Price 100, cmd_qty := Quantity 3, cmd_side := Sell\<rparr>"

abbreviation sample_entry :: log_entry where
  "sample_entry \<equiv> command_entry None [] sample_command"

lemma sample_command_ok: "command_ok sample_command"
  by (simp add: sample_command_def command_default_def command_ok_def command_type_of_code_def side_of_code_def
      order_type_of_code_def tif_of_code_def)

lemma sample_entry_ok: "entry_ok None sample_entry" "entry_seq sample_entry = 5" "length (entry_bytes sample_entry) = 96"
  by (simp_all add: command_entry_def make_entry_ok make_entry_fields entry_bytes_length)
     (simp_all add: sample_command_def)

lemma sample_queue: "\<exists>q. spsc_inv 65536 q \<and> unwrapped q \<and> spsc_elems 65536 q = [sample_entry]"
proof -
  let ?q = "spsc_new 65536 sample_entry"
  have cap: "ring_cap 65536"
    unfolding ring_cap_def by (rule exI [of _ 16]) simp
  obtain q where "spsc_push 65536 sample_entry ?q = (True, q)" "spsc_inv 65536 q" "spsc_elems 65536 q = [sample_entry]"
    using spsc.push_refines [of 65536 ?q sample_entry] spsc_new_inv [OF cap, of sample_entry] by (auto simp: ret_def)
  moreover from this(1) have "unwrapped q"
    by (auto simp: unwrapped_def spsc_push_def spsc_emplace_def spsc_new_def Let_def split: if_splits)
  ultimately show ?thesis
    by blast
qed

lemma sample_replay: "\<exists>b. replay_command sample_command (book_new False) = ret b \<and> book_rep b sample_asks"
proof -
  let ?o = "replayed_order sample_command (cmd_timestamp sample_command)"
  have o: "ord_order_id ?o = StrongId 5" "ord_side ?o = Sell" "resting_of_order ?o 5 = resting_of_order (sample_order 5 Sell Limit 100 3) 5"
    "ord_price ?o = Price 100"
    by (simp_all add: replayed_order_def sample_command_def resting_of_order_def sample_order_def)
  have "\<exists>x b'. book_insert ?o 5 (book_new False) = ret (x, b') \<and> book_find_order (ord_order_id ?o) b' = Some x \<and>
      book_rep b' (a_insert (bside_of (ord_side ?o)) (resting_of_order ?o 5) abook_new)"
    by (rule book_insert_rep [OF book_new_rep])
      (simp_all add: abook_new_def aids_def aorders_def aprices_def ORDER_POOL_CAPACITY_def LEVEL_POOL_CAPACITY_def)
  moreover have "cmd_type sample_command = CmdNewOrder" "cmd_sequence sample_command = 5"
    by (simp_all add: sample_command_def command_default_def)
  ultimately show ?thesis
    by (auto simp: o sample_asks_def replay_command_def)
qed

theorem journal_recovers_commands_witness:
  "\<exists>q r b. spsc_elems 65536 q = [sample_entry] \<and>
    journal_stop (\<lambda>_. 7) (new_run FlushBatch 4096 q Map.empty) = ret r \<and>
    recover None (jr_files r) (book_new False) = ret (True, b) \<and> book_rep b sample_asks"
proof -
  obtain q where q: "spsc_inv 65536 q" "unwrapped q" "spsc_elems 65536 q = map (command_entry None []) [sample_command]"
    using sample_queue by auto
  obtain b where b: "replay_command sample_command (book_new False) = ret b" "book_rep b sample_asks"
    using sample_replay by blast
  have "\<exists>r. journal_stop (\<lambda>_. 7) (new_run FlushBatch 4096 q Map.empty) = ret r \<and>
      recover None (jr_files r) (book_new False) =
        bind_run (replay_commands [sample_command] (book_new False)) (\<lambda>b1. ret (True, b1))"
    by (rule journal_recovers_commands [OF q])
      (use sample_command_ok in \<open>simp_all add: sample_command_def\<close>)
  then show ?thesis
    using q b by auto
qed

text \<open>C37. A journal that was cut off, as by a crash, is good for what it holds: reading the first \<open>n\<close> bytes
  of a journal applies the records that are complete in them and ignores the torn one at the end.
  Only a journal without its whole header is refused.\<close>

theorem torn_journal_recovers:
  assumes "\<forall>e \<in> set es. entry_ok tgt e" and "sorted_wrt (<) (s # map entry_seq es)"
  shows "replay_journal tgt (Some (take n (journal_file created k es))) b s =
    (if n < 32 then ret (False, b, s)
     else bind_run (replay_all (complete_entries (n - 32) es) b)
       (\<lambda>b1. ret (True, b1, last_seq s (complete_entries (n - 32) es))))"
proof -
  define h where "h = \<lparr>wh_magic = WAL_MAGIC, wh_version = WAL_VERSION, wh_flags = 0, wh_start_sequence = entry_seq (hd es),
    wh_timestamp = created k, wh_padding = replicate 8 (0 :: u8)\<rparr>"
  have len: "length (wal_header_bytes h) = 32"
    by (simp add: wal_header_bytes_def h_def)
  show ?thesis
  proof (cases "n < 32")
    case True
    then have "length (take n (journal_file created k es)) < 32"
      by simp
    then show ?thesis
      using True by (simp add: replay_journal_def read_exact_def del: length_take)
  next
    case False
    then have "take n (journal_file created k es) = wal_header_bytes h @ take (n - 32) (concat (map entry_bytes es))"
      using len by (simp add: journal_file_def h_def)
    then show ?thesis
      using False replay_prefix [OF assms, of "n - 32" b]
      by (simp add: replay_journal_def wal_header_read Let_def h_def)
  qed
qed

theorem torn_journal_recovers_witness:
  "replay_journal None (Some (take 100 (journal_file (\<lambda>_. 7) 1 [sample_entry]))) (book_new False) 0 =
    ret (True, book_new False, 0)"
  using torn_journal_recovers [of "[sample_entry]" None 0 100 "\<lambda>_. 7" 1 "book_new False"]
  by (simp add: sample_entry_ok)

text \<open>C36. A damaged record is never applied: if one byte of a record other than its length field has changed,
  replaying stops there with an error. The records before it have been applied, the ones
  after it are not.\<close>

theorem damaged_record_refused:
  assumes "target_ok tgt" and "\<forall>e \<in> set (es @ [e]). entry_ok tgt e" and "sorted_wrt (<) (s # map entry_seq es)"
    and "i < length (entry_bytes e)" and "i \<noteq> 18" and "i \<noteq> 19" and "v \<noteq> entry_bytes e ! i"
  shows "replay_records tgt (concat (map entry_bytes es) @ (entry_bytes e)[i := v] @ rest) b s =
    bind_run (replay_all es b) (\<lambda>b1. ret (False, b1, last_seq s es))"
proof -
  have "(\<lambda>b1. replay_records tgt ((entry_bytes e)[i := v] @ rest) b1 (last_seq s es)) = (\<lambda>b1. ret (False, b1, last_seq s es))"
    using assms by (intro ext replay_wrong_byte) auto
  then show ?thesis
    using replay_entries [of es tgt s "(entry_bytes e)[i := v] @ rest" b] assms(2,3) by (simp only: set_append ball_Un) auto
qed

theorem damaged_record_refused_witness:
  "replay_records None ((entry_bytes sample_entry)[24 := entry_bytes sample_entry ! 24 + 1]) (book_new False) 0 =
    ret (False, book_new False, 0)"
  using damaged_record_refused [of None "[]" sample_entry 0 24 "entry_bytes sample_entry ! 24 + 1" "[]" "book_new False"]
  by (simp add: sample_entry_ok target_ok_def)






end
