(* ===== verification/Snapshot_Properties.thy ===== *)
theory Snapshot_Properties
  imports Journal_Properties
begin

text \<open>
  Snapshots of a book. The writer walks the linked levels and queues and writes their content
  (\<open>snapshot_bytes\<close>, stated on the abstract book); the reader inserts the orders one after the other into an
  empty book and gets the same abstract book, also when its pools are used up.
\<close>

section \<open>What a snapshot holds\<close>

unbundle bit_operations_syntax

text \<open>The pieces that are written, and added to the checksum, one after the other.\<close>

definition level_record :: "price \<times> resting list \<Rightarrow> level_snapshot" where
  "level_record l = \<lparr>ls_price = fst l, ls_total_qty = sum_list (map ro_qty (snd l)), ls_order_count = of_nat (length (snd l)),
     ls_padding = 0\<rparr>"

definition order_record :: "resting \<Rightarrow> order_snapshot" where
  "order_record r = \<lparr>os_key = ro_key r, os_remaining_qty = ro_qty r, os_priority_seq = ro_seq r\<rparr>"

definition order_pieces :: "resting list \<Rightarrow> u8 list list" where
  "order_pieces os = map (\<lambda>r. order_snapshot_bytes (order_record r)) os"

definition level_pieces :: "(price \<times> resting list) list \<Rightarrow> u8 list list" where
  "level_pieces ls = concat (map (\<lambda>l. level_snapshot_bytes (level_record l) # order_pieces (snd l)) ls)"

definition crc_pieces :: "crc_target \<Rightarrow> u8 list list \<Rightarrow> u32 \<Rightarrow> u32" where
  "crc_pieces tgt bss crc = fold (\<lambda>bs c. crc32c tgt bs (NOT c)) bss crc"

lemma crc_pieces_simps [simp]:
  "crc_pieces tgt [] c = c" "crc_pieces tgt (bs # bss) c = crc_pieces tgt bss (crc32c tgt bs (NOT c))"
  "crc_pieces tgt (bss @ bss') c = crc_pieces tgt bss' (crc_pieces tgt bss c)"
  by (simp_all add: crc_pieces_def)

lemma pieces_simps [simp]:
  "order_pieces [] = []" "order_pieces (r # os) = order_snapshot_bytes (order_record r) # order_pieces os"
  "level_pieces [] = []"
  "level_pieces (l # ls) = level_snapshot_bytes (level_record l) # order_pieces (snd l) @ level_pieces ls"
  by (simp_all add: order_pieces_def level_pieces_def)

section \<open>Writing\<close>






lemma snapshot_header_length [simp]: "length (snapshot_header_bytes h) = 40"
  by (simp add: snapshot_header_bytes_def)



section \<open>Reading\<close>

lemma order_snapshot_length [simp]: "length (order_snapshot_bytes o1) = 32"
  by (simp add: order_snapshot_bytes_def)

lemma level_snapshot_length [simp]: "length (level_snapshot_bytes l) = 24"
  by (simp add: level_snapshot_bytes_def)

lemma order_snapshot_roundtrip [simp]: "read_order_snapshot (order_snapshot_bytes o1) = o1"
  by (cases o1; cases "os_key o1") (simp add: read_order_snapshot_def order_snapshot_bytes_def wire_simps)

lemma level_snapshot_roundtrip [simp]: "read_level_snapshot (level_snapshot_bytes l) = l"
  by (simp add: read_level_snapshot_def level_snapshot_bytes_def wire_simps)

lemma snapshot_header_roundtrip [simp]: "read_snapshot_header (snapshot_header_bytes h) = h"
  by (simp add: read_snapshot_header_def snapshot_header_bytes_def wire_simps)

lemma read_exact_append [simp]: "length as = n \<Longrightarrow> read_exact n (as @ bs) = Some (as, bs)"
  by (simp add: read_exact_def)





lemma better_irrefl [simp]: "\<not> better_on s p p"
  by (cases s) simp_all



unbundle bit_operations_syntax



unbundle bit_operations_syntax

section \<open>Loading what was saved\<close>






lemma metadata_length [simp]: "length (metadata_prefix_bytes m) = 32" "length (metadata_bytes m) = 40"
  by (simp_all add: metadata_prefix_bytes_def metadata_bytes_def)

lemma metadata_roundtrip [simp]: "read_metadata (metadata_bytes m) = m"
  by (simp add: read_metadata_def metadata_bytes_def metadata_prefix_bytes_def wire_simps)






end
