(* ===== verification/Spec2Isabelle.thy ===== *)
theory Spec2Isabelle
  imports Matching_Properties Queue_Concurrency Risk_Properties Kernel_Properties Gateway_Properties Snapshot_Properties
begin

text \<open>
  A verification library for the FluxTrade exchange (the C++ sources under \<open>src/\<close>).

  \<^bold>\<open>The program.\<close> FluxTrade is an exchange core. Orders are matched, one engine per symbol,
  against a limit order book with price-time priority (\<open>matching/\<close>). The book keeps its price
  levels and orders in fixed pools (\<open>common/include/common/object_pool.hpp\<close>), linked by
  pointers, with an index by price and a lookup table by order id. The engine writes trades and
  execution reports into a context of fixed capacity.

  \<^bold>\<open>The theories.\<close>
  \<^item> \<open>Prelude\<close>: machine integers, the outcome type \<open>run\<close> (returns, faults or does not return).
  \<^item> \<open>Domain\<close> (\<open>domain/include/domain\<close>): identifiers, prices, quantities, enumerations, orders.
  \<^item> \<open>Object_Pool\<close> (\<open>object_pool.hpp\<close>): pools; the locale \<open>object_store\<close> is what the book relies
    on, interpreted on the pool.
  \<^item> \<open>Linked_Heap\<close>, \<open>Intrusive_List\<close> (\<open>intrusive_list.hpp\<close>): doubly linked lists over a heap and
    the queue of a price level.
  \<^item> \<open>Book_Side\<close> (\<open>bid_book.hpp\<close>, \<open>ask_book.hpp\<close>, \<open>price_level.hpp\<close>, \<open>price_level_index.hpp\<close>): the
    sorted list of levels; the locale \<open>price_priority\<close> is interpreted on both orders of prices.
  \<^item> \<open>Order_Book\<close> (\<open>order_book.cpp\<close>, \<open>order_lookup.hpp\<close>): every operation of the book.
  \<^item> \<open>Abstract_Book\<close>, \<open>Book_Refinement\<close>, \<open>Book_Properties\<close>: what a book promises, the invariant
    and abstraction, and that every operation implements its specification.
  \<^item> \<open>Execution\<close> (\<open>execution_context.hpp\<close>, \<open>trade_builder.cpp\<close>, \<open>matching_statistics.hpp\<close>) and
    \<open>Matching_Engine\<close> (\<open>matching_engine.cpp\<close>, \<open>exchange_simulator.hpp\<close>): the engine.
  \<^item> \<open>Abstract_Matching\<close>, \<open>Matching_Refinement\<close>, \<open>Matching_Properties\<close>: price-time matching on
    the abstract book, and that the engine does exactly that.
\<close>

end
